(* ===== verification/AOS_Prelude.thy ===== *)
theory AOS_Prelude
  imports Main "HOL-Library.Word" "HOL-Library.Multiset"
begin

text \<open>
  Shared vocabulary of the development.

  \<^item> Type synonyms for the machine integers of the sources (LP64: \<open>int\<close> has 32 bits,
    \<open>long\<close> and \<open>unsigned long long\<close> have 64).
  \<^item> \<open>c_fault\<close>: every way a C or C++ function of the repository stops without returning
    (a call of \<open>exit\<close>, a failed \<open>assert\<close>, an access the language leaves undefined,
    an uncaught exception). A fallible function returns \<open>c_fault + 'a\<close>.
  \<^item> \<open>bnd\<close>, \<open>rd\<close>, \<open>wr\<close>: sequencing of fallible code and checked array accesses.
  \<^item> \<open>reachable\<close> and the locale \<open>inductive_invariant\<close>: transition systems and the
    rule that lifts an invariant of the steps to every reachable state; the locale \<open>simulation\<close>
    relates the reachable states of two systems.
  \<^item> The locale \<open>fifo_queue\<close>: the contract of a first-in-first-out container, shared by
    every component that hands work from one thread to another.
  \<^item> Lemmas on lists, sums and words that several components use.
\<close>

named_theorems fault_simps \<open>unfolding of the fallible-code combinators\<close>
named_theorems inv_defs \<open>definitions of the component invariants\<close>

section \<open>Machine integers\<close>

type_synonym u8 = "8 word"
type_synonym u64 = "64 word"

text \<open>Range of the C type \<open>int\<close>; arithmetic that leaves it is undefined behaviour.\<close>

definition INT_MAX :: int where
  "INT_MAX = 2147483647"

definition INT_MIN :: int where
  "INT_MIN = - 2147483648"

definition in_int :: "int \<Rightarrow> bool" where
  "in_int x \<longleftrightarrow> INT_MIN \<le> x \<and> x \<le> INT_MAX"

lemma unat_u64: "n < 2 ^ 64 \<Longrightarrow> unat (of_nat n :: u64) = n"
  by (simp add: unat_of_nat)

lemma u64_bound: "unat (x :: u64) < 2 ^ 64"
  using unsigned_less [of x] by simp

lemma u64_mult: "unat (x :: u64) * unat y < 2 ^ 64 \<Longrightarrow> unat (x * y) = unat x * unat y"
  by (simp add: unat_word_ariths(2))

lemma u64_div: "unat (x div y :: u64) = unat x div unat y"
  by (rule unat_div)

section \<open>Abnormal termination\<close>

datatype c_fault =
    Exit nat           \<comment> \<open>\<open>exit(n)\<close>\<close>
  | AssertFailed       \<comment> \<open>\<open>assert\<close> or \<open>GPR_ASSERT\<close> of a false condition\<close>
  | OutOfBounds        \<comment> \<open>an array access outside its bounds\<close>
  | SignedOverflow     \<comment> \<open>signed arithmetic outside the range of its type\<close>
  | BadVlaSize         \<comment> \<open>a variable-length array of negative length\<close>
  | BadPointer         \<comment> \<open>a null or dangling pointer is dereferenced\<close>
  | InvalidArgument    \<comment> \<open>\<open>std::invalid_argument\<close>\<close>
  | OutOfRange         \<comment> \<open>\<open>std::out_of_range\<close>\<close>
  | LengthError        \<comment> \<open>\<open>std::length_error\<close>\<close>
  | DivisionByZero     \<comment> \<open>an integer division by zero\<close>

type_synonym 'a outcome = "c_fault + 'a"

definition bnd :: "'e + 'a \<Rightarrow> ('a \<Rightarrow> 'e + 'b) \<Rightarrow> 'e + 'b" where
  "bnd m f = (case m of Inl e \<Rightarrow> Inl e | Inr x \<Rightarrow> f x)"

definition int_op :: "int \<Rightarrow> int outcome" where
  "int_op x = (if in_int x then Inr x else Inl SignedOverflow)"

definition rd :: "'a list \<Rightarrow> int \<Rightarrow> 'a outcome" where
  "rd xs i = (if 0 \<le> i \<and> i < int (length xs) then Inr (xs ! nat i) else Inl OutOfBounds)"

definition wr :: "'a list \<Rightarrow> int \<Rightarrow> 'a \<Rightarrow> 'a list outcome" where
  "wr xs i v = (if 0 \<le> i \<and> i < int (length xs) then Inr (xs[nat i := v]) else Inl OutOfBounds)"

text \<open>A loop over a fixed list of indices whose body may stop the program.\<close>

fun foldm :: "('i \<Rightarrow> 's \<Rightarrow> 'e + 's) \<Rightarrow> 'i list \<Rightarrow> 's \<Rightarrow> 'e + 's" where
  "foldm f [] s = Inr s"
| "foldm f (i # is) s = bnd (f i s) (foldm f is)"

lemma bnd_simps [simp, fault_simps]:
  "bnd (Inl e) f = Inl e"
  "bnd (Inr x) f = f x"
  by (simp_all add: bnd_def)

lemma bnd_eq_Inr: "bnd m f = Inr y \<longleftrightarrow> (\<exists>x. m = Inr x \<and> f x = Inr y)"
  by (cases m) auto

lemma bnd_eq_Inl: "bnd m f = Inl e \<longleftrightarrow> m = Inl e \<or> (\<exists>x. m = Inr x \<and> f x = Inl e)"
  by (cases m) auto

lemma bnd_assoc: "bnd (bnd m f) g = bnd m (\<lambda>x. bnd (f x) g)"
  by (cases m) auto

lemma rd_Inr [simp]: "i < length xs \<Longrightarrow> rd xs (int i) = Inr (xs ! i)"
  by (simp add: rd_def)

lemma wr_Inr [simp]: "i < length xs \<Longrightarrow> wr xs (int i) v = Inr (xs[i := v])"
  by (simp add: wr_def)

lemma rd_eq_Inr: "rd xs i = Inr v \<longleftrightarrow> 0 \<le> i \<and> i < int (length xs) \<and> v = xs ! nat i"
  by (auto simp: rd_def)

lemma wr_eq_Inr: "wr xs i v = Inr ys \<longleftrightarrow> 0 \<le> i \<and> i < int (length xs) \<and> ys = xs[nat i := v]"
  by (auto simp: wr_def)

lemma foldm_append: "foldm f (xs @ ys) s = bnd (foldm f xs s) (foldm f ys)"
  by (induction xs arbitrary: s) (auto simp: bnd_def split: sum.splits)

text \<open>Invariant rule for a loop: what every iteration keeps, the loop keeps.\<close>

lemma foldm_invariant:
  assumes "foldm f xs s = Inr t" and "P s"
    and "\<And>i s t. i \<in> set xs \<Longrightarrow> P s \<Longrightarrow> f i s = Inr t \<Longrightarrow> P t"
  shows "P t"
  using assms
proof (induction xs arbitrary: s)
  case Nil
  then show ?case by simp
next
  case (Cons i xs)
  from Cons.prems(1) obtain u where u: "f i s = Inr u" and rest: "foldm f xs u = Inr t"
    by (auto simp: bnd_eq_Inr)
  have "P u" using Cons.prems(2) u by (auto intro: Cons.prems(3))
  then show ?case
    using Cons.IH [OF rest] Cons.prems(3) by (meson list.set_intros(2))
qed

text \<open>Total-correctness rule: no iteration stops the program, so the loop returns.\<close>

lemma foldm_total:
  assumes "P s" and "\<And>i s. i \<in> set xs \<Longrightarrow> P s \<Longrightarrow> \<exists>t. f i s = Inr t \<and> P t"
  shows "\<exists>t. foldm f xs s = Inr t \<and> P t"
  using assms
proof (induction xs arbitrary: s)
  case Nil
  then show ?case by simp
next
  case (Cons i xs)
  then obtain u where "f i s = Inr u" "P u" by (meson list.set_intros(1))
  then show ?case using Cons.IH [of u] Cons.prems(2) by (auto intro: list.set_intros(2))
qed

text \<open>Loops that fill an array or collect a list.\<close>

lemma foldm_fill:
  assumes "\<And>i zs. i < n \<Longrightarrow> length zs = length xs \<Longrightarrow> f i zs = Inr (zs[i := g i])" and "n \<le> length xs"
  shows "foldm f [0..<n] xs = Inr (map g [0..<n] @ drop n xs)"
  using assms
proof (induction n)
  case (Suc n)
  have "drop n xs = xs ! n # drop (Suc n) xs" using Suc.prems(2) by (simp add: Cons_nth_drop_Suc)
  then show ?case using Suc by (simp add: foldm_append list_update_append)
qed simp

lemma foldm_collect:
  assumes "\<And>i. i \<in> set xs \<Longrightarrow> h i = Inr (g i)"
  shows "foldm (\<lambda>i acc. bnd (h i) (\<lambda>u. Inr (acc @ [u]))) xs acc = Inr (acc @ map g xs)"
  using assms by (induction xs arbitrary: acc) simp_all

section \<open>Transition systems\<close>

inductive reachable :: "('s \<Rightarrow> bool) \<Rightarrow> ('s \<Rightarrow> 's \<Rightarrow> bool) \<Rightarrow> 's \<Rightarrow> bool"
  for start :: "'s \<Rightarrow> bool" and step :: "'s \<Rightarrow> 's \<Rightarrow> bool" where
  reachable_start: "start s \<Longrightarrow> reachable start step s"
| reachable_step: "reachable start step s \<Longrightarrow> step s t \<Longrightarrow> reachable start step t"

locale inductive_invariant =
  fixes start :: "'s \<Rightarrow> bool" and step :: "'s \<Rightarrow> 's \<Rightarrow> bool" and inv :: "'s \<Rightarrow> bool"
  assumes inv_start: "start s \<Longrightarrow> inv s"
    and inv_step: "inv s \<Longrightarrow> step s t \<Longrightarrow> inv t"
begin

lemma inv_reachable: "reachable start step s \<Longrightarrow> inv s"
  by (induction rule: reachable.induct) (auto intro: inv_start inv_step)

end

text \<open>
  A simulation with stuttering: every step of the detailed system is no step or one step of the abstract one, so
  every state that the detailed system reaches is related to one that the abstract system reaches.
\<close>

locale simulation =
  fixes start :: "'s \<Rightarrow> bool" and step :: "'s \<Rightarrow> 's \<Rightarrow> bool"
    and abs_start :: "'a \<Rightarrow> bool" and abs_step :: "'a \<Rightarrow> 'a \<Rightarrow> bool"
    and sim :: "'s \<Rightarrow> 'a \<Rightarrow> bool"
  assumes sim_start: "start s \<Longrightarrow> \<exists>a. abs_start a \<and> sim s a"
    and sim_step: "sim s a \<Longrightarrow> step s t \<Longrightarrow> \<exists>b. sim t b \<and> (b = a \<or> abs_step a b)"
begin

lemma sim_reachable: "reachable start step s \<Longrightarrow> \<exists>a. sim s a \<and> reachable abs_start abs_step a"
proof (induction rule: reachable.induct)
  case (reachable_start s)
  then show ?case using sim_start [of s] by (auto intro: reachable.reachable_start)
next
  case (reachable_step s t)
  then obtain a where a: "sim s a" "reachable abs_start abs_step a" by blast
  then obtain b where "sim t b" "b = a \<or> abs_step a b" using sim_step reachable_step.hyps(2) by blast
  then show ?case using a(2) by (auto intro: reachable.reachable_step)
qed

end

section \<open>First-in-first-out containers\<close>

text \<open>
  \<open>rep q xs\<close>: the container \<open>q\<close> holds the elements \<open>xs\<close>, oldest first.
  \<open>enq\<close> stores an element that is \<open>fresh\<close> for the container, \<open>deq\<close> takes the
  oldest one out.
\<close>

locale fifo_queue =
  fixes rep :: "'q \<Rightarrow> 'a list \<Rightarrow> bool"
    and fresh :: "'q \<Rightarrow> 'a \<Rightarrow> bool"
    and enq :: "'a \<Rightarrow> 'q \<Rightarrow> 'q outcome"
    and deq :: "'q \<Rightarrow> ('a \<times> 'q) outcome"
    and is_empty :: "'q \<Rightarrow> bool"
  assumes rep_is_empty: "rep q xs \<Longrightarrow> is_empty q \<longleftrightarrow> xs = []"
    and rep_enq: "rep q xs \<Longrightarrow> fresh q x \<Longrightarrow> \<exists>q'. enq x q = Inr q' \<and> rep q' (xs @ [x])"
    and rep_deq: "rep q (x # xs) \<Longrightarrow> \<exists>q'. deq q = Inr (x, q') \<and> rep q' xs"
begin

lemma deq_nonempty:
  assumes "rep q xs" and "\<not> is_empty q"
  shows "\<exists>q'. deq q = Inr (hd xs, q') \<and> rep q' (tl xs)"
proof (cases xs)
  case Nil
  with assms show ?thesis using rep_is_empty by blast
next
  case (Cons x ys)
  with assms(1) show ?thesis using rep_deq by fastforce
qed

lemma enq_not_empty:
  assumes "rep q xs" and "fresh q x" and "enq x q = Inr q'"
  shows "\<not> is_empty q'"
  using rep_enq [OF assms(1,2)] assms(3) by (auto simp: rep_is_empty)

text \<open>Draining a container after one insertion gives the new element last.\<close>

lemma enq_deq_order:
  assumes "rep q (x # xs)" and "fresh q y" and "enq y q = Inr q'"
  shows "\<exists>q''. deq q' = Inr (x, q'') \<and> rep q'' (xs @ [y])"
  using rep_enq [OF assms(1,2)] assms(3) by (auto intro: rep_deq)

end

section \<open>Lists\<close>

lemma sum_list_update:
  fixes xs :: "'a::ab_group_add list"
  shows "i < length xs \<Longrightarrow> sum_list (xs[i := v]) = sum_list xs - xs ! i + v"
  by (induction xs arbitrary: i) (auto split: nat.splits simp: algebra_simps)

text \<open>Counting the members of a finite range that satisfy a predicate, after one update.\<close>

lemma card_upd_in:
  fixes n :: nat
  assumes "k < n" and "\<not> P k" and "Q k" and "\<And>i. i \<noteq> k \<Longrightarrow> P i = Q i"
  shows "card {i. i < n \<and> Q i} = Suc (card {i. i < n \<and> P i})"
proof -
  have "{i. i < n \<and> Q i} = insert k {i. i < n \<and> P i}"
    using assms(1,3) by (auto simp: assms(4)) (metis assms(4))+
  then show ?thesis using assms(2) by simp
qed

lemma card_all_iff:
  fixes n :: nat
  shows "card {i. i < n \<and> P i} = n \<longleftrightarrow> (\<forall>i<n. P i)"
proof
  assume *: "card {i. i < n \<and> P i} = n"
  have "{i. i < n \<and> P i} = {..<n}"
    by (rule card_subset_eq) (use * in auto)
  then show "\<forall>i<n. P i" by auto
next
  assume "\<forall>i<n. P i"
  then have "{i. i < n \<and> P i} = {..<n}" by auto
  then show "card {i. i < n \<and> P i} = n" by simp
qed

lemma card_le_bound:
  fixes n :: nat
  shows "card {i. i < n \<and> P i} \<le> n"
  by (rule order_trans [OF card_mono [of "{..<n}"]]) auto

end
