(* ===== verification/MemoryCoordinator.thy ===== *)
theory MemoryCoordinator
  imports AOS_Prelude
begin

text \<open>
  The memory coordinator of \<^verbatim>\<open>project1-1/memory/src/memory_coordinator.c\<close>.

  libvirt is not part of the repository. What one iteration of the coordinator observes of
  it is the record \<open>libvirt_mem\<close>, an argument of the definitions; what it does to it is the
  list of \<open>virDomainSetMemory\<close> calls, in order, that an iteration returns. Memory amounts are
  \<open>unsigned long long\<close>, so all arithmetic on them wraps at 64 bits, as in the code; the
  thresholds are \<open>int\<close> globals that the code converts to \<open>unsigned long long\<close>.
\<close>

section \<open>Data\<close>

datatype mem_stat_tag =
    VIR_DOMAIN_MEMORY_STAT_UNUSED
  | VIR_DOMAIN_MEMORY_STAT_AVAILABLE
  | VIR_DOMAIN_MEMORY_STAT_ACTUAL_BALLOON
  | VIR_DOMAIN_MEMORY_STAT_OTHER nat

record mem_stat =
  stat_tag :: mem_stat_tag
  stat_val :: u64

text \<open>
  \<open>None\<close> stands for the negative return value by which libvirt reports an error. Domains
  are named by numbers.
\<close>

record libvirt_mem =
  ListAllDomains :: "nat list option"
  DomainMemoryStats :: "nat \<Rightarrow> mem_stat list option"
  NodeGetFreeMemory :: u64
  DomainGetMaxMemory :: "nat \<Rightarrow> u64"

definition unused_mem_low :: u64 where "unused_mem_low = 100"
definition unused_mem_high :: u64 where "unused_mem_high = 300"
definition mem_alloc_unit :: u64 where "mem_alloc_unit = 100"
definition host_mem_low :: u64 where "host_mem_low = 200"

lemmas mem_consts = unused_mem_low_def unused_mem_high_def mem_alloc_unit_def host_mem_low_def

text \<open>The three arrays \<open>unused_mems\<close>, \<open>available_mems\<close> and \<open>balloon_mems\<close> (in MB).\<close>

record mem_arrays =
  unused_mems :: "u64 list"
  available_mems :: "u64 list"
  balloon_mems :: "u64 list"

section \<open>Queries\<close>

definition get_active_vm_mem :: "libvirt_mem \<Rightarrow> nat list option" where
  "get_active_vm_mem env = ListAllDomains env"

text \<open>The inner loop of \<open>get_mem_stats\<close>: one entry of \<open>stats\<close> of domain number \<open>i\<close>.\<close>

definition store_stat :: "nat \<Rightarrow> mem_stat \<Rightarrow> mem_arrays \<Rightarrow> mem_arrays" where
  "store_stat i stat a =
     (if stat_tag stat = VIR_DOMAIN_MEMORY_STAT_UNUSED then
        a\<lparr>unused_mems := (unused_mems a)[i := stat_val stat div 1024]\<rparr>
      else if stat_tag stat = VIR_DOMAIN_MEMORY_STAT_AVAILABLE then
        a\<lparr>available_mems := (available_mems a)[i := stat_val stat div 1024]\<rparr>
      else if stat_tag stat = VIR_DOMAIN_MEMORY_STAT_ACTUAL_BALLOON then
        a\<lparr>balloon_mems := (balloon_mems a)[i := stat_val stat div 1024]\<rparr>
      else a)"

definition get_mem_stats_vm :: "libvirt_mem \<Rightarrow> nat list \<Rightarrow> nat \<Rightarrow> mem_arrays \<Rightarrow> mem_arrays outcome" where
  "get_mem_stats_vm env doms i a =
     (case DomainMemoryStats env (doms ! i) of
        None \<Rightarrow> Inl (Exit 1)
      | Some stats \<Rightarrow> Inr (fold (store_stat i) stats a))"

definition get_mem_stats :: "libvirt_mem \<Rightarrow> nat list \<Rightarrow> mem_arrays \<Rightarrow> mem_arrays outcome" where
  "get_mem_stats env doms = foldm (get_mem_stats_vm env doms) [0..<length doms]"

definition get_host_mem :: "libvirt_mem \<Rightarrow> u64 outcome" where
  "get_host_mem env =
     (let ret = NodeGetFreeMemory env div 1024 div 1024
      in if ret = 0 then Inl (Exit 1) else Inr ret)"

section \<open>One iteration\<close>

text \<open>
  The first loop of \<open>MemoryScheduler\<close> classifies every domain (\<open>vm_status\<close>: 0 has extra
  memory, 1 lacks memory, 2 neither) and adds up what is needed and what is available.
\<close>

record mem_tally =
  vm_status :: "nat list"
  vm_lack_mem_cnt :: nat
  mem_needed :: u64
  mem_avail :: u64

definition tally0 :: mem_tally where
  "tally0 = \<lparr>vm_status = [], vm_lack_mem_cnt = 0, mem_needed = 0, mem_avail = 0\<rparr>"

definition classify_vm :: "libvirt_mem \<Rightarrow> nat list \<Rightarrow> mem_arrays \<Rightarrow> nat \<Rightarrow> mem_tally \<Rightarrow> mem_tally" where
  "classify_vm env doms a i t =
     (if unused_mems a ! i < unused_mem_low then
        (let max_mem = DomainGetMaxMemory env (doms ! i) div 1024
         in if max_mem < balloon_mems a ! i + mem_alloc_unit
            then t\<lparr>vm_status := vm_status t @ [2]\<rparr>
            else t\<lparr>vm_status := vm_status t @ [1],
                   mem_needed := mem_needed t + mem_alloc_unit,
                   vm_lack_mem_cnt := Suc (vm_lack_mem_cnt t)\<rparr>)
      else if unused_mems a ! i > unused_mem_high then
        t\<lparr>vm_status := vm_status t @ [0], mem_avail := mem_avail t + mem_alloc_unit\<rparr>
      else t\<lparr>vm_status := vm_status t @ [2]\<rparr>)"

definition classify_vms :: "libvirt_mem \<Rightarrow> nat list \<Rightarrow> mem_arrays \<Rightarrow> mem_tally" where
  "classify_vms env doms a = fold (classify_vm env doms a) [0..<length doms] tally0"

text \<open>Borrowing from the host: the condition between the two loops.\<close>

definition borrow_from_host :: "u64 \<Rightarrow> mem_tally \<Rightarrow> mem_tally" where
  "borrow_from_host host_mem_avail t =
     (if mem_needed t > mem_avail t then
        (if host_mem_avail - (mem_needed t - mem_avail t) \<ge> host_mem_low
         then t\<lparr>mem_avail := mem_needed t\<rparr> else t)
      else t)"

text \<open>
  The second loop: the domains and sizes (in KiB) passed to \<open>virDomainSetMemory\<close>. Its return
  value only goes to the debug output.
\<close>

type_synonym set_call = "nat \<times> u64"

definition shrink_call :: "nat list \<Rightarrow> mem_arrays \<Rightarrow> nat \<Rightarrow> set_call" where
  "shrink_call doms a i = (doms ! i, (balloon_mems a ! i - mem_alloc_unit) * 1024)"

definition grow_call :: "nat list \<Rightarrow> mem_arrays \<Rightarrow> nat \<Rightarrow> set_call" where
  "grow_call doms a i = (doms ! i, (balloon_mems a ! i + mem_alloc_unit) * 1024)"

definition serve_all_vm :: "nat list \<Rightarrow> mem_arrays \<Rightarrow> nat list \<Rightarrow> nat \<Rightarrow> set_call list \<Rightarrow> set_call list" where
  "serve_all_vm doms a status i calls =
     (if status ! i = 0 then calls @ [shrink_call doms a i]
      else if status ! i = 1 then calls @ [grow_call doms a i]
      else calls)"

definition serve_some_vm ::
    "nat list \<Rightarrow> mem_arrays \<Rightarrow> nat list \<Rightarrow> nat \<Rightarrow> set_call list \<times> u64 \<Rightarrow> set_call list \<times> u64" where
  "serve_some_vm doms a status i = (\<lambda>(calls, avail).
     if status ! i = 0 then (calls @ [shrink_call doms a i], avail)
     else if status ! i = 1 then
       (if avail > 0 then (calls @ [grow_call doms a i], avail - mem_alloc_unit)
        else (calls, avail))
     else (calls, avail))"

definition adjust_balloons :: "nat list \<Rightarrow> mem_arrays \<Rightarrow> mem_tally \<Rightarrow> set_call list" where
  "adjust_balloons doms a t =
     (if mem_avail t \<ge> mem_needed t then
        fold (serve_all_vm doms a (vm_status t)) [0..<length doms] []
      else if vm_lack_mem_cnt t > 0 then
        fst (fold (serve_some_vm doms a (vm_status t)) [0..<length doms] ([], mem_avail t))
      else [])"

text \<open>
  \<open>MemoryScheduler\<close>. When \<open>virConnectListAllDomains\<close> fails, \<open>n_vms\<close> is -1: the loops do not
  run, the host is still queried, and \<open>int vm_status[n_vms]\<close> has a negative size.
\<close>

definition zero_arrays :: "nat \<Rightarrow> mem_arrays" where
  "zero_arrays n = \<lparr>unused_mems = replicate n 0, available_mems = replicate n 0,
                    balloon_mems = replicate n 0\<rparr>"

definition MemoryScheduler :: "libvirt_mem \<Rightarrow> set_call list outcome" where
  "MemoryScheduler env =
     (case get_active_vm_mem env of
        None \<Rightarrow> bnd (get_host_mem env) (\<lambda>_. Inl BadVlaSize)
      | Some doms \<Rightarrow>
          bnd (get_mem_stats env doms (zero_arrays (length doms))) (\<lambda>a.
          bnd (get_host_mem env) (\<lambda>host.
            Inr (adjust_balloons doms a (borrow_from_host host (classify_vms env doms a))))))"

text \<open>
  \<open>main\<close>: the arguments are checked, the connection is opened, and one iteration runs for
  every observation \<open>env\<close> made before the signal handler sets \<open>is_exit\<close>. The result is the
  return value and the calls made, or the fault that stopped the program.
\<close>

definition mem_main :: "nat \<Rightarrow> bool \<Rightarrow> libvirt_mem list \<Rightarrow> (nat \<times> set_call list list) outcome" where
  "mem_main argc connected envs =
     (if argc \<noteq> 2 then Inr (0, [])
      else if \<not> connected then Inr (1, [])
      else bnd (foldm (\<lambda>env log. bnd (MemoryScheduler env) (\<lambda>calls. Inr (log @ [calls]))) envs [])
             (\<lambda>log. Inr (0, log)))"


section \<open>Abstract specification\<close>

text \<open>
  What an iteration is to do, said on the amounts that libvirt reports (natural numbers of KiB
  and bytes) and on domains, without the arrays, the words and the helpers of the code.
  \<open>reported\<close> is the last statistic of a domain with a tag, in KiB, or 0 when libvirt gives none.
\<close>

definition reported :: "libvirt_mem \<Rightarrow> mem_stat_tag \<Rightarrow> nat \<Rightarrow> nat" where
  "reported env tag d =
     (case DomainMemoryStats env d of
        None \<Rightarrow> 0
      | Some stats \<Rightarrow> foldl (\<lambda>v st. if stat_tag st = tag then unat (stat_val st) else v) 0 stats)"

definition unused_MB :: "libvirt_mem \<Rightarrow> nat \<Rightarrow> nat" where
  "unused_MB env d = reported env VIR_DOMAIN_MEMORY_STAT_UNUSED d div 1024"

definition balloon_MB :: "libvirt_mem \<Rightarrow> nat \<Rightarrow> nat" where
  "balloon_MB env d = reported env VIR_DOMAIN_MEMORY_STAT_ACTUAL_BALLOON d div 1024"

definition host_MB :: "libvirt_mem \<Rightarrow> nat" where
  "host_MB env = unat (NodeGetFreeMemory env) div 1024 div 1024"

text \<open>
  A domain lacks memory when less than 100 MB are unused and its maximum leaves room for 100 MB
  more; it has extra memory when more than 300 MB are unused.
\<close>

definition lacks :: "libvirt_mem \<Rightarrow> nat \<Rightarrow> bool" where
  "lacks env d \<longleftrightarrow> unused_MB env d < 100 \<and>
     balloon_MB env d + 100 \<le> unat (DomainGetMaxMemory env d) div 1024"

definition has_extra :: "libvirt_mem \<Rightarrow> nat \<Rightarrow> bool" where
  "has_extra env d \<longleftrightarrow> 300 < unused_MB env d"

text \<open>
  The memory in MB that the domains lack together beyond what the others release, and the number
  of domains that get memory: all that lack it when the others release enough or the host keeps
  200 MB, otherwise as many as release some. The last disjunct is what the unsigned subtraction
  of the host check adds to that rule.
\<close>

definition shortfall_MB :: "libvirt_mem \<Rightarrow> nat list \<Rightarrow> nat" where
  "shortfall_MB env doms =
     100 * length (filter (lacks env) doms) - 100 * length (filter (has_extra env) doms)"

definition n_served :: "libvirt_mem \<Rightarrow> nat list \<Rightarrow> nat" where
  "n_served env doms =
     (let short = shortfall_MB env doms
      in if short = 0 \<or> short + 200 \<le> host_MB env \<or> host_MB env < short
         then length (filter (lacks env) doms) else length (filter (has_extra env) doms))"

text \<open>
  The balloon sizes requested, in KiB: 100 MB more or less than the balloon, rounded down to MB.
\<close>

definition grown_KiB :: "libvirt_mem \<Rightarrow> nat \<Rightarrow> u64" where
  "grown_KiB env d = word_of_int (1024 * (int (balloon_MB env d) + 100))"

definition shrunk_KiB :: "libvirt_mem \<Rightarrow> nat \<Rightarrow> u64" where
  "shrunk_KiB env d = word_of_int (1024 * (int (balloon_MB env d) - 100))"

fun planned_calls :: "libvirt_mem \<Rightarrow> nat \<Rightarrow> nat list \<Rightarrow> (nat \<times> u64) list" where
  "planned_calls env k [] = []"
| "planned_calls env k (d # ds) =
     (if has_extra env d then (d, shrunk_KiB env d) # planned_calls env k ds
      else if lacks env d \<and> 0 < k then (d, grown_KiB env d) # planned_calls env (k - 1) ds
      else planned_calls env k ds)"

text \<open>
  The memory, in KiB, that a list of calls moves from the host to the domains: what is requested
  for each domain less what its balloon holds.
\<close>

definition net_KiB :: "libvirt_mem \<Rightarrow> (nat \<times> u64) list \<Rightarrow> int" where
  "net_KiB env calls =
     (\<Sum>(d, kib) \<leftarrow> calls. int (unat kib) - int (reported env VIR_DOMAIN_MEMORY_STAT_ACTUAL_BALLOON d))"

section \<open>Simulation\<close>

text \<open>
  The two loops of the code run over the indices of the arrays. The following definitions say
  what they compute on arrays and words; the section on the specification below relates that to
  the definitions above. \<open>host_grants\<close> is the outcome of the host check for a shortfall of
  \<open>d\<close> MB, the wrapped subtraction included.
\<close>

definition wants :: "libvirt_mem \<Rightarrow> nat list \<Rightarrow> mem_arrays \<Rightarrow> nat \<Rightarrow> bool" where
  "wants env doms a i \<longleftrightarrow> unused_mems a ! i < unused_mem_low \<and>
     balloon_mems a ! i + mem_alloc_unit \<le> DomainGetMaxMemory env (doms ! i) div 1024"

definition spares :: "mem_arrays \<Rightarrow> nat \<Rightarrow> bool" where
  "spares a i \<longleftrightarrow> unused_mems a ! i > unused_mem_high"

definition status_of :: "libvirt_mem \<Rightarrow> nat list \<Rightarrow> mem_arrays \<Rightarrow> nat \<Rightarrow> nat" where
  "status_of env doms a i = (if wants env doms a i then 1 else if spares a i then 0 else 2)"

definition n_wants :: "libvirt_mem \<Rightarrow> nat list \<Rightarrow> mem_arrays \<Rightarrow> nat" where
  "n_wants env doms a = length (filter (wants env doms a) [0..<length doms])"

definition n_spares :: "nat list \<Rightarrow> mem_arrays \<Rightarrow> nat" where
  "n_spares doms a = length (filter (spares a) [0..<length doms])"

definition host_grants :: "nat \<Rightarrow> nat \<Rightarrow> bool" where
  "host_grants host d \<longleftrightarrow> d + 200 \<le> host \<or> host < d"

definition n_grown :: "libvirt_mem \<Rightarrow> nat list \<Rightarrow> mem_arrays \<Rightarrow> nat \<Rightarrow> nat" where
  "n_grown env doms a host =
     (let w = n_wants env doms a; s = n_spares doms a
      in if w \<le> s \<or> host_grants host (100 * (w - s)) then w else s)"

fun plan_from :: "(nat \<Rightarrow> bool) \<Rightarrow> (nat \<Rightarrow> bool) \<Rightarrow> nat \<Rightarrow> nat list \<Rightarrow> (nat \<times> bool) list" where
  "plan_from w s k [] = []"
| "plan_from w s k (i # is) =
     (if s i then (i, False) # plan_from w s k is
      else if w i \<and> k > 0 then (i, True) # plan_from w s (k - 1) is
      else plan_from w s k is)"

definition balloon_plan :: "libvirt_mem \<Rightarrow> nat list \<Rightarrow> mem_arrays \<Rightarrow> nat \<Rightarrow> (nat \<times> bool) list" where
  "balloon_plan env doms a host =
     plan_from (wants env doms a) (spares a) (n_grown env doms a host) [0..<length doms]"

definition plan_call :: "nat list \<Rightarrow> mem_arrays \<Rightarrow> nat \<times> bool \<Rightarrow> set_call" where
  "plan_call doms a = (\<lambda>(i, grow). if grow then grow_call doms a i else shrink_call doms a i)"

text \<open>
  What the statistics loop leaves in an array for domain \<open>i\<close>: the last entry with the tag, in
  MB, or 0 when libvirt reports none.
\<close>

definition stat_of :: "libvirt_mem \<Rightarrow> nat list \<Rightarrow> mem_stat_tag \<Rightarrow> nat \<Rightarrow> u64" where
  "stat_of env doms tag i =
     (case DomainMemoryStats env (doms ! i) of
        None \<Rightarrow> 0
      | Some stats \<Rightarrow>
          (case find (\<lambda>st. stat_tag st = tag) (rev stats) of
             None \<Rightarrow> 0
           | Some st \<Rightarrow> stat_val st div 1024))"

definition stat_arrays :: "libvirt_mem \<Rightarrow> nat list \<Rightarrow> mem_arrays" where
  "stat_arrays env doms =
     \<lparr>unused_mems = map (stat_of env doms VIR_DOMAIN_MEMORY_STAT_UNUSED) [0..<length doms],
      available_mems = map (stat_of env doms VIR_DOMAIN_MEMORY_STAT_AVAILABLE) [0..<length doms],
      balloon_mems = map (stat_of env doms VIR_DOMAIN_MEMORY_STAT_ACTUAL_BALLOON) [0..<length doms]\<rparr>"

text \<open>The arrays of \<open>n\<close> domains after the first \<open>k\<close> iterations of the loop.\<close>

definition stat_prefix :: "libvirt_mem \<Rightarrow> nat list \<Rightarrow> nat \<Rightarrow> nat \<Rightarrow> mem_arrays" where
  "stat_prefix env doms n k =
     (let arr = (\<lambda>tag. map (stat_of env doms tag) [0..<k] @ replicate (n - k) 0)
      in \<lparr>unused_mems = arr VIR_DOMAIN_MEMORY_STAT_UNUSED,
          available_mems = arr VIR_DOMAIN_MEMORY_STAT_AVAILABLE,
          balloon_mems = arr VIR_DOMAIN_MEMORY_STAT_ACTUAL_BALLOON\<rparr>)"

text \<open>
  Two domains: number 1 has 50 MB unused of a balloon of 512 MB and may grow to 2 GB, number 2
  has 400 MB unused of a balloon of 1024 MB. The host reports \<open>free\<close> bytes of free memory.
\<close>

definition demo_stats :: "nat \<Rightarrow> nat \<Rightarrow> mem_stat list option" where
  "demo_stats n d =
     (let u = (if d < n then 51200 else 409600); b = (if d < n then 524288 else 1048576)
      in Some [\<lparr>stat_tag = VIR_DOMAIN_MEMORY_STAT_ACTUAL_BALLOON, stat_val = b\<rparr>,
               \<lparr>stat_tag = VIR_DOMAIN_MEMORY_STAT_UNUSED, stat_val = u\<rparr>])"

definition demo_env :: "nat list \<Rightarrow> nat \<Rightarrow> u64 \<Rightarrow> libvirt_mem" where
  "demo_env doms n free = \<lparr>ListAllDomains = Some doms, DomainMemoryStats = demo_stats n,
     NodeGetFreeMemory = free, DomainGetMaxMemory = (\<lambda>_. 2097152)\<rparr>"

section \<open>The first loop\<close>

lemma low_not_high: "x < unused_mem_low \<Longrightarrow> \<not> unused_mem_high < x"
  unfolding mem_consts by unat_arith

lemma not_wants_and_spares: "wants env doms a i \<Longrightarrow> \<not> spares a i"
  by (auto simp: wants_def spares_def dest: low_not_high)

lemma classify_vm_cases:
  "classify_vm env doms a i t =
     (if wants env doms a i then
        t\<lparr>vm_status := vm_status t @ [1], mem_needed := mem_needed t + 100,
          vm_lack_mem_cnt := Suc (vm_lack_mem_cnt t)\<rparr>
      else if spares a i then
        t\<lparr>vm_status := vm_status t @ [0], mem_avail := mem_avail t + 100\<rparr>
      else t\<lparr>vm_status := vm_status t @ [2]\<rparr>)"
  by (auto simp: classify_vm_def wants_def spares_def mem_alloc_unit_def Let_def not_less not_le
      dest: low_not_high)

lemma classify_prefix:
  "fold (classify_vm env doms a) [0..<k] tally0 =
     \<lparr>vm_status = map (status_of env doms a) [0..<k],
      vm_lack_mem_cnt = length (filter (wants env doms a) [0..<k]),
      mem_needed = of_nat (100 * length (filter (wants env doms a) [0..<k])),
      mem_avail = of_nat (100 * length (filter (spares a) [0..<k]))\<rparr>"
  by (induction k)
    (auto simp: tally0_def classify_vm_cases status_of_def algebra_simps dest: not_wants_and_spares)

lemma classify_vms_eq:
  "classify_vms env doms a =
     \<lparr>vm_status = map (status_of env doms a) [0..<length doms],
      vm_lack_mem_cnt = n_wants env doms a,
      mem_needed = of_nat (100 * n_wants env doms a),
      mem_avail = of_nat (100 * n_spares doms a)\<rparr>"
  by (simp add: classify_vms_def classify_prefix n_wants_def n_spares_def)


section \<open>The second loop\<close>

lemma serve_all_vm_eq:
  "i < n \<Longrightarrow> serve_all_vm doms a (map (status_of env doms a) [0..<n]) i calls =
     (if wants env doms a i then calls @ [grow_call doms a i]
      else if spares a i then calls @ [shrink_call doms a i] else calls)"
  by (simp add: serve_all_vm_def status_of_def)

lemma serve_all_plan:
  assumes "set is \<subseteq> {..<n}" and "length (filter (wants env doms a) is) \<le> k"
  shows "fold (serve_all_vm doms a (map (status_of env doms a) [0..<n])) is calls =
    calls @ map (plan_call doms a) (plan_from (wants env doms a) (spares a) k is)"
  using assms
proof (induction "is" arbitrary: calls k)
  case Nil
  then show ?case by simp
next
  case (Cons i "is")
  have i: "i < n" and rest: "set is \<subseteq> {..<n}" using Cons.prems(1) by auto
  note step = serve_all_vm_eq [OF i]
  consider (grow) "wants env doms a i" "0 < k"
      "length (filter (wants env doms a) is) \<le> k - 1" "\<not> spares a i"
    | (other) "\<not> wants env doms a i" "length (filter (wants env doms a) is) \<le> k"
    using Cons.prems(2) by (cases "wants env doms a i") (auto dest: not_wants_and_spares)
  then show ?case
  proof cases
    case grow
    then show ?thesis
      by (simp add: step plan_call_def Cons.IH [OF rest grow(3)] del: map_eq_conv)
  next
    case other
    then show ?thesis
      by (simp add: step plan_call_def Cons.IH [OF rest other(2)] del: map_eq_conv)
  qed
qed

lemma units_pos: "100 * k < 2 ^ 64 \<Longrightarrow> 0 < (of_nat (100 * k) :: u64) \<longleftrightarrow> 0 < k"
  by (simp add: word_less_nat_alt unat_u64 del: of_nat_mult)

lemma units_dec: "0 < k \<Longrightarrow> of_nat (100 * k) - 100 = (of_nat (100 * (k - 1)) :: u64)"
  by (cases k) (simp_all add: algebra_simps)

lemma serve_some_plan:
  assumes "set is \<subseteq> {..<n}" and "100 * k < 2 ^ 64"
  shows "fst (fold (serve_some_vm doms a (map (status_of env doms a) [0..<n])) is
      (calls, of_nat (100 * k))) =
    calls @ map (plan_call doms a) (plan_from (wants env doms a) (spares a) k is)"
  using assms
proof (induction "is" arbitrary: calls k)
  case Nil
  then show ?case by simp
next
  case (Cons i "is")
  have "100 * (k - 1) < 2 ^ 64" using Cons.prems(2) by simp
  then show ?case
    using Cons.prems Cons.IH [of k] Cons.IH [of "k - 1"]
    by (auto simp: serve_some_vm_def status_of_def plan_call_def units_pos units_dec
        mem_alloc_unit_def dest: not_wants_and_spares simp del: of_nat_mult)
qed

section \<open>The host check\<close>

lemma word_le_units:
  "100 * w < 2 ^ 64 \<Longrightarrow> 100 * s < 2 ^ 64 \<Longrightarrow>
     (of_nat (100 * w) :: u64) \<le> of_nat (100 * s) \<longleftrightarrow> w \<le> s"
  by (simp add: word_le_nat_alt unat_u64 del: of_nat_mult)

lemma host_check_wraps:
  fixes host :: u64
  assumes "d < 2 ^ 63"
  shows "host_mem_low \<le> host - of_nat d \<longleftrightarrow> host_grants (unat host) d"
proof -
  have d: "unat (of_nat d :: u64) = d" using assms by (simp add: unat_u64)
  show ?thesis
  proof (cases "d \<le> unat host")
    case True
    then have "unat (host - of_nat d) = unat host - d"
      using d by (metis unat_sub word_le_nat_alt)
    then show ?thesis using True
      by (auto simp: word_le_nat_alt host_mem_low_def host_grants_def)
  next
    case False
    have "unat (host - of_nat d) = 2 ^ 64 + unat host - d"
      using False d by (simp add: unat_sub_if_size word_size)
    then show ?thesis using False assms
      by (auto simp: word_le_nat_alt host_mem_low_def host_grants_def)
  qed
qed

lemma n_wants_le: "n_wants env doms a \<le> length doms"
  unfolding n_wants_def by (metis diff_zero length_filter_le length_upt)

lemma n_spares_le: "n_spares doms a \<le> length doms"
  unfolding n_spares_def by (metis diff_zero length_filter_le length_upt)

lemma adjust_balloons_plan:
  assumes "length doms < 2 ^ 31"
  shows "adjust_balloons doms a (borrow_from_host host (classify_vms env doms a)) =
    map (plan_call doms a) (balloon_plan env doms a (unat host))"
proof -
  let ?w = "n_wants env doms a" and ?s = "n_spares doms a"
  have w: "100 * ?w < 2 ^ 63" and s: "100 * ?s < 2 ^ 63"
    using assms n_wants_le [of env doms a] n_spares_le [of doms a] by auto
  have diff: "(of_nat (100 * ?w) :: u64) - of_nat (100 * ?s) = of_nat (100 * (?w - ?s))"
    if "?s < ?w"
    using that by (simp add: of_nat_diff algebra_simps)
  have all: "fold (serve_all_vm doms a (map (status_of env doms a) [0..<length doms]))
      [0..<length doms] [] =
    map (plan_call doms a) (plan_from (wants env doms a) (spares a) ?w [0..<length doms])"
    by (subst serve_all_plan [where k = ?w]) (auto simp: n_wants_def)
  have some: "fst (fold (serve_some_vm doms a (map (status_of env doms a) [0..<length doms]))
      [0..<length doms] ([], of_nat (100 * ?s))) =
    map (plan_call doms a) (plan_from (wants env doms a) (spares a) ?s [0..<length doms])"
    by (subst serve_some_plan) (use s in auto)
  have le: "(of_nat (100 * ?w) :: u64) \<le> of_nat (100 * ?s) \<longleftrightarrow> ?w \<le> ?s"
    by (rule word_le_units) (use w s in auto)
  have chk: "host_mem_low \<le> host - of_nat (100 * (?w - ?s)) \<longleftrightarrow>
      host_grants (unat host) (100 * (?w - ?s))"
    by (rule host_check_wraps) (use w in auto)
  let ?p = "\<lambda>k. plan_from (wants env doms a) (spares a) k [0..<length doms]"
  show ?thesis
  proof (cases "?w \<le> ?s")
    case True
    then show ?thesis using all le
      by (simp add: adjust_balloons_def borrow_from_host_def classify_vms_eq balloon_plan_def
          n_grown_def Let_def leD del: of_nat_mult)
  next
    case False
    then have lt: "(of_nat (100 * ?s) :: u64) < of_nat (100 * ?w)" using le by simp
    show ?thesis
    proof (cases "host_grants (unat host) (100 * (?w - ?s))")
      case True
      then show ?thesis using all lt False chk diff
        by (simp add: adjust_balloons_def borrow_from_host_def classify_vms_eq balloon_plan_def
            n_grown_def Let_def del: of_nat_mult)
    next
      case grants: False
      then show ?thesis using some lt False chk diff
        by (simp add: adjust_balloons_def borrow_from_host_def classify_vms_eq balloon_plan_def
            n_grown_def Let_def del: of_nat_mult)
    qed
  qed
qed


section \<open>The statistics loop\<close>

lemma fold_store_stat:
  "unused_mems (fold (store_stat i) stats a) =
     (case find (\<lambda>st. stat_tag st = VIR_DOMAIN_MEMORY_STAT_UNUSED) (rev stats) of
        None \<Rightarrow> unused_mems a | Some st \<Rightarrow> (unused_mems a)[i := stat_val st div 1024])"
  "available_mems (fold (store_stat i) stats a) =
     (case find (\<lambda>st. stat_tag st = VIR_DOMAIN_MEMORY_STAT_AVAILABLE) (rev stats) of
        None \<Rightarrow> available_mems a | Some st \<Rightarrow> (available_mems a)[i := stat_val st div 1024])"
  "balloon_mems (fold (store_stat i) stats a) =
     (case find (\<lambda>st. stat_tag st = VIR_DOMAIN_MEMORY_STAT_ACTUAL_BALLOON) (rev stats) of
        None \<Rightarrow> balloon_mems a | Some st \<Rightarrow> (balloon_mems a)[i := stat_val st div 1024])"
  by (induction stats rule: rev_induct) (auto simp: store_stat_def split: option.splits)

lemma keep_tail:
  assumes "k < n"
  shows "xs @ replicate (n - k) z = (xs @ [z]) @ replicate (n - Suc k) z"
  using assms by (metis Suc_diff_Suc append.assoc append_Cons append_Nil replicate_Suc)

lemma get_mem_stats_vm_prefix:
  assumes "k < n" and "DomainMemoryStats env (doms ! k) = Some stats"
  shows "get_mem_stats_vm env doms k (stat_prefix env doms n k) = Inr (stat_prefix env doms n (Suc k))"
  using assms
  by (auto simp: get_mem_stats_vm_def stat_prefix_def fold_store_stat stat_of_def list_update_append
      keep_tail intro!: mem_arrays.equality split: option.splits)

lemma get_mem_stats_prefix:
  "k \<le> n \<Longrightarrow> foldm (get_mem_stats_vm env doms) [0..<k] (zero_arrays n) =
     (if \<exists>i<k. DomainMemoryStats env (doms ! i) = None then Inl (Exit 1)
      else Inr (stat_prefix env doms n k))"
proof (induction k)
  case 0
  then show ?case by (simp add: zero_arrays_def stat_prefix_def)
next
  case (Suc k)
  then have k: "k < n" by simp
  note IH = Suc.IH [OF less_imp_le [OF k]]
  show ?case
  proof (cases "DomainMemoryStats env (doms ! k)")
    case None
    have "get_mem_stats_vm env doms k a = Inl (Exit 1)" for a
      using None by (simp add: get_mem_stats_vm_def)
    then show ?thesis using None by (auto simp: foldm_append IH)
  next
    case (Some stats)
    then have "(\<exists>i<Suc k. DomainMemoryStats env (doms ! i) = None) \<longleftrightarrow>
        (\<exists>i<k. DomainMemoryStats env (doms ! i) = None)"
      by (auto simp: less_Suc_eq)
    then show ?thesis
      using get_mem_stats_vm_prefix [OF k Some] by (simp add: foldm_append IH)
  qed
qed

lemma get_mem_stats_eq:
  "get_mem_stats env doms (zero_arrays (length doms)) =
     (if \<exists>i<length doms. DomainMemoryStats env (doms ! i) = None then Inl (Exit 1)
      else Inr (stat_arrays env doms))"
  by (simp add: get_mem_stats_def get_mem_stats_prefix stat_arrays_def stat_prefix_def)


section \<open>The specification\<close>

text \<open>What the words in the arrays are, in terms of the reported amounts.\<close>

lemma foldl_last_stat:
  "foldl (\<lambda>v st. if stat_tag st = tag then unat (stat_val st) else v) 0 stats =
     (case find (\<lambda>st. stat_tag st = tag) (rev stats) of None \<Rightarrow> 0 | Some st \<Rightarrow> unat (stat_val st))"
  by (induction stats rule: rev_induct) (auto split: option.splits)

lemma stat_of_reported: "unat (stat_of env doms tag i) = reported env tag (doms ! i) div 1024"
  by (simp add: stat_of_def reported_def foldl_last_stat u64_div split: option.splits)

lemma reported_less: "reported env tag d < 2 ^ 64"
  using u64_bound by (auto simp: reported_def foldl_last_stat split: option.splits)

lemma balloon_MB_less: "balloon_MB env d < 2 ^ 54"
  using reported_less [of env VIR_DOMAIN_MEMORY_STAT_ACTUAL_BALLOON d]
  by (simp add: balloon_MB_def)

lemma stat_arrays_MB:
  assumes "i < length doms"
  shows "unat (unused_mems (stat_arrays env doms) ! i) = unused_MB env (doms ! i)"
    and "unat (balloon_mems (stat_arrays env doms) ! i) = balloon_MB env (doms ! i)"
  using assms by (simp_all add: stat_arrays_def stat_of_reported unused_MB_def balloon_MB_def)

lemma grown_KiB_word:
  "grown_KiB env d = (word_of_nat (balloon_MB env d) + 100) * 1024"
  by (simp add: grown_KiB_def algebra_simps)

lemma shrunk_KiB_word:
  "shrunk_KiB env d = (word_of_nat (balloon_MB env d) - 100) * 1024"
  by (simp add: shrunk_KiB_def algebra_simps)

lemma spares_extra:
  "i < length doms \<Longrightarrow> spares (stat_arrays env doms) i \<longleftrightarrow> has_extra env (doms ! i)"
  by (simp add: spares_def has_extra_def word_less_nat_alt stat_arrays_MB unused_mem_high_def)

lemma wants_lacks:
  assumes "i < length doms"
  shows "wants env doms (stat_arrays env doms) i \<longleftrightarrow> lacks env (doms ! i)"
proof -
  let ?b = "balloon_mems (stat_arrays env doms) ! i"
  have "unat (?b + mem_alloc_unit) = balloon_MB env (doms ! i) + 100"
    using balloon_MB_less [of env "doms ! i"] assms
    by (simp add: unat_word_ariths mem_alloc_unit_def stat_arrays_MB)
  then show ?thesis using assms
    by (simp add: wants_def lacks_def word_less_nat_alt word_le_nat_alt stat_arrays_MB u64_div
        unused_mem_low_def)
qed

lemma plan_call_KiB:
  assumes "i < length doms"
  shows "plan_call doms (stat_arrays env doms) (i, grow) =
    (doms ! i, if grow then grown_KiB env (doms ! i) else shrunk_KiB env (doms ! i))"
proof -
  have "balloon_mems (stat_arrays env doms) ! i = word_of_nat (balloon_MB env (doms ! i))"
    by (simp add: stat_arrays_MB(2) [OF assms, symmetric])
  then show ?thesis
    by (simp add: plan_call_def grow_call_def shrink_call_def grown_KiB_word shrunk_KiB_word
        mem_alloc_unit_def)
qed

lemma plan_from_calls:
  assumes "set is \<subseteq> {..<length doms}"
  shows "map (plan_call doms (stat_arrays env doms))
      (plan_from (wants env doms (stat_arrays env doms)) (spares (stat_arrays env doms)) k is) =
    planned_calls env k (map ((!) doms) is)"
  using assms
  by (induction "is" arbitrary: k) (simp_all add: spares_extra wants_lacks plan_call_KiB)

lemma length_filter_nth:
  "(\<And>i. i < length xs \<Longrightarrow> Q i \<longleftrightarrow> P (xs ! i)) \<Longrightarrow>
     length (filter Q [0..<length xs]) = length (filter P xs)"
  by (simp add: length_filter_conv_card cong: conj_cong)

lemma n_wants_lacks: "n_wants env doms (stat_arrays env doms) = length (filter (lacks env) doms)"
  unfolding n_wants_def by (rule length_filter_nth) (rule wants_lacks)

lemma n_spares_extra: "n_spares doms (stat_arrays env doms) = length (filter (has_extra env) doms)"
  unfolding n_spares_def by (rule length_filter_nth) (rule spares_extra)

lemma host_MB_word: "unat (NodeGetFreeMemory env div 1024 div 1024) = host_MB env"
  by (simp add: host_MB_def u64_div)

lemma host_MB_0: "NodeGetFreeMemory env div 1024 div 1024 = 0 \<longleftrightarrow> host_MB env = 0"
  by (simp add: host_MB_word [symmetric] unat_eq_0)

lemma n_grown_served:
  "n_grown env doms (stat_arrays env doms) (host_MB env) = n_served env doms"
  by (auto simp: n_grown_def n_served_def shortfall_MB_def Let_def n_wants_lacks n_spares_extra
      host_grants_def diff_mult_distrib2 [symmetric])

lemma balloon_plan_calls:
  "map (plan_call doms (stat_arrays env doms))
      (balloon_plan env doms (stat_arrays env doms) (host_MB env)) =
    planned_calls env (n_served env doms) doms"
  using plan_from_calls [of "[0..<length doms]" doms env "n_served env doms"]
  by (simp add: balloon_plan_def n_grown_served map_nth atLeast0LessThan)

lemma MemoryScheduler_eq:
  assumes "\<And>doms. ListAllDomains env = Some doms \<Longrightarrow> length doms < 2 ^ 31"
  shows "MemoryScheduler env =
    (case ListAllDomains env of
       None \<Rightarrow> Inl (if host_MB env = 0 then Exit 1 else BadVlaSize)
     | Some doms \<Rightarrow>
         if (\<exists>d\<in>set doms. DomainMemoryStats env d = None) \<or> host_MB env = 0
         then Inl (Exit 1) else Inr (planned_calls env (n_served env doms) doms))"
proof (cases "ListAllDomains env")
  case None
  then show ?thesis
    by (simp add: MemoryScheduler_def get_active_vm_mem_def get_host_mem_def Let_def host_MB_0)
next
  case (Some doms)
  have "(\<exists>d\<in>set doms. DomainMemoryStats env d = None) \<longleftrightarrow>
      (\<exists>i<length doms. DomainMemoryStats env (doms ! i) = None)"
    by (metis in_set_conv_nth)
  then show ?thesis using Some assms [OF Some]
    by (simp add: MemoryScheduler_def get_active_vm_mem_def get_mem_stats_eq get_host_mem_def
        adjust_balloons_plan Let_def host_MB_0 host_MB_word balloon_plan_calls)
qed

lemma MemoryScheduler_InrD:
  assumes "MemoryScheduler env = Inr calls" and "ListAllDomains env = Some doms"
    and "length doms < 2 ^ 31"
  shows "calls = planned_calls env (n_served env doms) doms"
  using assms(1) MemoryScheduler_eq [of env] assms(2,3) by (simp split: if_splits)


section \<open>Sizes\<close>

text \<open>
  What one call moves: 100 MB less the part of a MB by which the balloon exceeds a whole number
  of MB. Growing never wraps, because the maximum memory of the domain bounds it; shrinking does
  not wrap when the balloon has 100 MB.
\<close>

definition odd_KiB :: "libvirt_mem \<Rightarrow> nat \<Rightarrow> nat" where
  "odd_KiB env d = reported env VIR_DOMAIN_MEMORY_STAT_ACTUAL_BALLOON d mod 1024"

lemma reported_balloon:
  "reported env VIR_DOMAIN_MEMORY_STAT_ACTUAL_BALLOON d = 1024 * balloon_MB env d + odd_KiB env d"
  by (simp add: balloon_MB_def odd_KiB_def)

lemma unat_grown_KiB:
  assumes "lacks env d"
  shows "unat (grown_KiB env d) = 1024 * (balloon_MB env d + 100)"
proof -
  have "(balloon_MB env d + 100) * 1024 \<le> unat (DomainGetMaxMemory env d)"
    using assms by (simp add: lacks_def less_eq_div_iff_mult_less_eq)
  then have "1024 * (balloon_MB env d + 100) < 2 ^ 64"
    using u64_bound [of "DomainGetMaxMemory env d"] by simp
  moreover have "grown_KiB env d = of_nat (1024 * (balloon_MB env d + 100))"
    by (simp add: grown_KiB_word algebra_simps)
  ultimately show ?thesis by (simp add: unat_u64 del: of_nat_mult of_nat_add)
qed

lemma unat_shrunk_KiB:
  assumes "100 \<le> balloon_MB env d"
  shows "unat (shrunk_KiB env d) = 1024 * (balloon_MB env d - 100)"
proof -
  have "1024 * (balloon_MB env d - 100) < 2 ^ 64"
    using balloon_MB_less [of env d] by simp
  moreover have "shrunk_KiB env d = of_nat (1024 * (balloon_MB env d - 100))"
    using assms by (simp add: shrunk_KiB_word of_nat_diff algebra_simps)
  ultimately show ?thesis by (simp add: unat_u64 del: of_nat_mult of_nat_add)
qed

text \<open>A plan that serves no more domains than lack memory moves 100 MB per call.\<close>

lemma lacks_not_extra: "lacks env d \<Longrightarrow> \<not> has_extra env d"
  by (simp add: lacks_def has_extra_def)

lemma net_planned_calls:
  assumes "\<forall>d\<in>set doms. has_extra env d \<longrightarrow> 100 \<le> balloon_MB env d"
    and "k \<le> length (filter (lacks env) doms)"
  shows "net_KiB env (planned_calls env k doms) =
    102400 * (int k - int (length (filter (has_extra env) doms))) -
    (\<Sum>c \<leftarrow> planned_calls env k doms. int (odd_KiB env (fst c)))"
  using assms
proof (induction env k doms rule: planned_calls.induct)
  case (2 env k d ds)
  consider (extra) "has_extra env d" | (lacks) "lacks env d" "0 < k" "\<not> has_extra env d"
    | (none) "\<not> has_extra env d" "\<not> (lacks env d \<and> 0 < k)"
    by blast
  then show ?case
  proof cases
    case extra
    have "net_KiB env (planned_calls env k (d # ds)) =
        - 102400 - int (odd_KiB env d) + net_KiB env (planned_calls env k ds)"
      using extra 2(4) unat_shrunk_KiB [of env d]
      by (simp add: net_KiB_def reported_balloon of_nat_diff del: of_nat_unat)
    moreover have "net_KiB env (planned_calls env k ds) =
        102400 * (int k - int (length (filter (has_extra env) ds))) -
        (\<Sum>c \<leftarrow> planned_calls env k ds. int (odd_KiB env (fst c)))"
      using 2 extra by (auto dest: lacks_not_extra split: if_splits)
    ultimately show ?thesis using extra by simp
  next
    case lacks
    then have k: "int k = int (k - 1) + 1" by simp
    have "net_KiB env (planned_calls env k (d # ds)) =
        102400 - int (odd_KiB env d) + net_KiB env (planned_calls env (k - 1) ds)"
      using lacks by (simp add: net_KiB_def unat_grown_KiB reported_balloon del: of_nat_unat)
    moreover have "net_KiB env (planned_calls env (k - 1) ds) =
        102400 * (int (k - 1) - int (length (filter (has_extra env) ds))) -
        (\<Sum>c \<leftarrow> planned_calls env (k - 1) ds. int (odd_KiB env (fst c)))"
      using 2 lacks by auto
    ultimately show ?thesis using lacks unfolding k by simp
  next
    case none
    then show ?thesis using 2 by (cases "lacks env d") (auto simp: net_KiB_def)
  qed
qed (simp add: net_KiB_def)

lemma odd_KiB_sum:
  "0 \<le> (\<Sum>c \<leftarrow> calls. int (odd_KiB env (fst c)))"
  "(\<Sum>c \<leftarrow> calls. int (odd_KiB env (fst c))) \<le> 1024 * int (length calls)"
  by (induction calls) (auto simp: odd_KiB_def intro: less_imp_le add_mono)

lemma planned_domains:
  "map fst (planned_calls env (length (filter (lacks env) doms)) doms) =
     filter (\<lambda>d. has_extra env d \<or> lacks env d) doms"
proof -
  have "map fst (planned_calls env k doms) = filter (\<lambda>d. has_extra env d \<or> lacks env d) doms"
    if "length (filter (lacks env) doms) \<le> k" for k
    using that by (induction env k doms rule: planned_calls.induct)
      (auto dest: lacks_not_extra split: if_splits)
  then show ?thesis by simp
qed

lemma n_served_le: "n_served env doms \<le> length (filter (lacks env) doms)"
  by (auto simp: n_served_def shortfall_MB_def Let_def)


section \<open>Properties\<close>

text \<open>
  C12: one iteration of the memory coordinator, on 64-bit wrapping arithmetic, does exactly what
  the abstract plan on libvirt's reports says. It exits with status 1 when the statistics of some
  domain or the free memory of the host cannot be read; when the list of domains cannot be read
  and the host can, the array \<open>vm_status\<close> has a negative size; otherwise it issues, in the order
  of the domain list, the \<open>virDomainSetMemory\<close> calls of the plan: 100 MB less for every domain
  with more than 300 MB unused and 100 MB more for the first \<open>n_served\<close> of those that lack memory.
\<close>

theorem MemoryScheduler_refines_plan:
  assumes "\<And>doms. ListAllDomains env = Some doms \<Longrightarrow> length doms < 2 ^ 31"
  shows "MemoryScheduler env =
    (case ListAllDomains env of
       None \<Rightarrow> Inl (if host_MB env = 0 then Exit 1 else BadVlaSize)
     | Some doms \<Rightarrow>
         if (\<exists>d\<in>set doms. DomainMemoryStats env d = None) \<or> host_MB env = 0
         then Inl (Exit 1) else Inr (planned_calls env (n_served env doms) doms))"
  using assms by (rule MemoryScheduler_eq)

lemmas demo_simps = demo_env_def demo_stats_def Let_def n_served_def shortfall_MB_def lacks_def
  has_extra_def unused_MB_def balloon_MB_def reported_def host_MB_def grown_KiB_def shrunk_KiB_def

theorem MemoryScheduler_refines_plan_witness:
  "MemoryScheduler (demo_env [1, 2] 2 4294967296) = Inr [(1, 626688), (2, 946176)]"
  using MemoryScheduler_refines_plan [of "demo_env [1, 2] 2 4294967296"]
  by (simp add: demo_simps)

lemma demo_run_floor: "MemoryScheduler (demo_env [1] 2 419430400) = Inr [(1, 626688)]"
  by (subst MemoryScheduler_eq) (simp_all add: demo_simps)

text \<open>
  C37: the calls of an iteration that returns take nothing from the host or leave it at least
  200 MB, as long as the subtraction of the host check does not wrap (the host has at least the
  missing amount) and no domain with extra memory has a balloon below 100 MB (its new size would
  wrap). The amount is that of the sizes in the calls, less the balloons that libvirt reports.
\<close>

theorem MemoryScheduler_keeps_host_floor:
  assumes "MemoryScheduler env = Inr calls" and "ListAllDomains env = Some doms"
    and "length doms < 2 ^ 31"
    and "shortfall_MB env doms \<le> host_MB env"
    and "\<forall>d\<in>set doms. has_extra env d \<longrightarrow> 100 \<le> balloon_MB env d"
  shows "net_KiB env calls \<le> 0 \<or>
    net_KiB env calls + 200 * 1024 \<le> int (unat (NodeGetFreeMemory env) div 1024)"
proof -
  have calls: "calls = planned_calls env (n_served env doms) doms"
    using assms(1-3) by (rule MemoryScheduler_InrD)
  have "net_KiB env calls \<le>
      102400 * (int (n_served env doms) - int (length (filter (has_extra env) doms)))"
    using net_planned_calls [OF assms(5) n_served_le] odd_KiB_sum(1) [of env calls] by (simp add: calls)
  moreover have "host_MB env * 1024 \<le> unat (NodeGetFreeMemory env) div 1024"
    by (simp add: host_MB_def)
  ultimately show ?thesis
    using assms(4) by (auto simp: n_served_def shortfall_MB_def Let_def split: if_splits)
qed

theorem MemoryScheduler_keeps_host_floor_witness:
  "net_KiB (demo_env [1] 2 419430400) [(1, 626688)] \<le> 0 \<or>
     net_KiB (demo_env [1] 2 419430400) [(1, 626688)] + 200 * 1024 \<le> 409600"
  using MemoryScheduler_keeps_host_floor [OF demo_run_floor, of "[1]"]
  by (simp add: demo_simps)

text \<open>
  C38: when the host has less free memory than the domains are short of, the unsigned subtraction
  \<open>host_mem_avail - (mem_needed - mem_avail)\<close> wraps and the check passes: every domain that lacks
  memory is grown, and the sizes in the calls exceed the balloons by more than all the free memory
  of the host, up to the part of a MB that the code rounds away per call. No domain with extra
  memory has a balloon below 100 MB.
\<close>

theorem host_check_passes_when_host_is_short:
  assumes "ListAllDomains env = Some doms" and "length doms < 2 ^ 31"
    and "\<forall>d\<in>set doms. DomainMemoryStats env d \<noteq> None"
    and "0 < host_MB env" and "host_MB env < shortfall_MB env doms"
    and "\<forall>d\<in>set doms. has_extra env d \<longrightarrow> 100 \<le> balloon_MB env d"
  shows "\<exists>calls. MemoryScheduler env = Inr calls \<and>
    map fst calls = filter (\<lambda>d. has_extra env d \<or> lacks env d) doms \<and>
    net_KiB env calls + 1024 * int (length calls) > int (unat (NodeGetFreeMemory env) div 1024)"
proof (intro exI conjI)
  let ?k = "length (filter (lacks env) doms)"
  let ?calls = "planned_calls env ?k doms"
  have k: "n_served env doms = ?k" using assms(5) by (simp add: n_served_def Let_def)
  show "MemoryScheduler env = Inr ?calls"
    using MemoryScheduler_eq [of env] assms(1-4) k by auto
  show "map fst ?calls = filter (\<lambda>d. has_extra env d \<or> lacks env d) doms"
    by (rule planned_domains)
  have "int (unat (NodeGetFreeMemory env) div 1024) < 1024 * int (shortfall_MB env doms)"
    using assms(5) by (simp add: host_MB_def)
  moreover have "net_KiB env ?calls + 1024 * int (length ?calls) \<ge> 1024 * int (shortfall_MB env doms)"
    using net_planned_calls [OF assms(6), of ?k] odd_KiB_sum(2) [where calls = ?calls and env = env]
      assms(5)
    by (simp add: shortfall_MB_def of_nat_diff)
  ultimately show "net_KiB env ?calls + 1024 * int (length ?calls) >
      int (unat (NodeGetFreeMemory env) div 1024)"
    by simp
qed

theorem host_check_passes_when_host_is_short_witness:
  "\<exists>calls. MemoryScheduler (demo_env [1] 2 52428800) = Inr calls \<and> map fst calls = [1] \<and>
    net_KiB (demo_env [1] 2 52428800) calls + 1024 * int (length calls) > 51200"
  using host_check_passes_when_host_is_short [of "demo_env [1] 2 52428800" "[1]"]
  by (simp add: demo_simps)

end
