(* ===== verification/LinkedQueue.thy ===== *)
theory LinkedQueue
  imports AOS_Prelude
begin

text \<open>
  The queue of \<^verbatim>\<open>prelab/producer_consumer.c\<close>: a doubly linked list of heap nodes with a
  pointer to its first and its last node. Pointers are \<open>addr option\<close> (\<open>None\<close> is \<open>NULL\<close>), the
  heap is a partial map from addresses to nodes, and an access through a null or dangling
  pointer is the fault \<open>BadPointer\<close>. \<open>enqueue\<close> and \<open>dequeue\<close> are the code the producer and
  the consumers run while they hold the queue's mutex. They implement the contract
  \<open>fifo_queue\<close> of the prelude.
\<close>

section \<open>Data and operations\<close>

type_synonym addr = nat

record queue_node =
  next_p :: "addr option"
  prev_p :: "addr option"
  node_c :: nat

record queue_mem =
  heap :: "addr \<rightharpoonup> queue_node"
  front_p :: "addr option"
  back_p :: "addr option"

definition deref :: "(addr \<rightharpoonup> queue_node) \<Rightarrow> addr option \<Rightarrow> queue_node outcome" where
  "deref h p = (case p of None \<Rightarrow> Inl BadPointer
     | Some a \<Rightarrow> (case h a of None \<Rightarrow> Inl BadPointer | Some n \<Rightarrow> Inr n))"

text \<open>The producer's critical section: \<open>new_node_p\<close> is the address \<open>a\<close> of the new node.\<close>

definition enqueue :: "addr \<Rightarrow> queue_mem \<Rightarrow> queue_mem outcome" where
  "enqueue a m =
     (if back_p m = None then
        (if front_p m \<noteq> None then Inl AssertFailed
         else bnd (deref (heap m) (Some a)) (\<lambda>n.
           Inr (m\<lparr>heap := (heap m)(a \<mapsto> n\<lparr>prev_p := None\<rparr>),
                  front_p := Some a, back_p := Some a\<rparr>)))
      else
        (if front_p m = None then Inl AssertFailed
         else bnd (deref (heap m) (Some a)) (\<lambda>n.
           (let h = (heap m)(a \<mapsto> n\<lparr>prev_p := back_p m\<rparr>)
            in bnd (deref h (back_p m)) (\<lambda>nb.
                 Inr (m\<lparr>heap := h(the (back_p m) \<mapsto> nb\<lparr>next_p := Some a\<rparr>),
                        back_p := Some a\<rparr>))))))"

text \<open>
  The consumer's critical section, entered with \<open>queue_p->front != NULL\<close>: it returns
  \<open>prev_node_p\<close>, the removed node.
\<close>

definition dequeue :: "queue_mem \<Rightarrow> (addr \<times> queue_mem) outcome" where
  "dequeue m =
     bnd (deref (heap m) (front_p m)) (\<lambda>n.
     bnd (if next_p n = None then Inr (m\<lparr>back_p := None\<rparr>)
          else bnd (deref (heap m) (next_p n)) (\<lambda>nn.
            Inr (m\<lparr>heap := (heap m)(the (next_p n) \<mapsto> nn\<lparr>prev_p := None\<rparr>)\<rparr>)))
       (\<lambda>m1. bnd (deref (heap m1) (front_p m1)) (\<lambda>n1.
         Inr (the (front_p m), m1\<lparr>front_p := next_p n1\<rparr>))))"

definition queue_empty :: "queue_mem \<Rightarrow> bool" where
  "queue_empty m \<longleftrightarrow> front_p m = None"

section \<open>Abstraction\<close>

text \<open>
  \<open>dseg h p x as b\<close>: starting from pointer \<open>x\<close>, whose node points back to \<open>p\<close>, the heap holds
  the doubly linked nodes \<open>as\<close>, and the last of them (or \<open>p\<close>, if there are none) is \<open>b\<close>.
\<close>

fun dseg :: "(addr \<rightharpoonup> queue_node) \<Rightarrow> addr option \<Rightarrow> addr option \<Rightarrow> addr list \<Rightarrow> addr option \<Rightarrow> bool" where
  "dseg h p x [] b \<longleftrightarrow> x = None \<and> b = p"
| "dseg h p x (a # as) b \<longleftrightarrow> x = Some a \<and>
     (\<exists>n. h a = Some n \<and> prev_p n = p \<and> dseg h (Some a) (next_p n) as b)"

definition queue_rep :: "queue_mem \<Rightarrow> addr list \<Rightarrow> bool" where
  "queue_rep m as \<longleftrightarrow> dseg (heap m) None (front_p m) as (back_p m) \<and> distinct as"

definition queue_fresh :: "queue_mem \<Rightarrow> addr \<Rightarrow> bool" where
  "queue_fresh m a \<longleftrightarrow> (\<forall>as. queue_rep m as \<longrightarrow> a \<notin> set as) \<and>
     (\<exists>n. heap m a = Some n \<and> next_p n = None)"

text \<open>The letters stored in the nodes \<open>as\<close>.\<close>

definition letters :: "queue_mem \<Rightarrow> addr list \<Rightarrow> nat list" where
  "letters m as = map (\<lambda>a. node_c (the (heap m a))) as"

lemma letters_cong:
  assumes "\<forall>x. map_option node_c (heap m' x) = map_option node_c (heap m x)"
  shows "letters m' as = letters m as"
proof -
  have "node_c (the (heap m' x)) = node_c (the (heap m x))" for x
    using assms [rule_format, of x] by (cases "heap m x"; cases "heap m' x") auto
  then show ?thesis by (simp add: letters_def)
qed

lemma letters_upd_other: "a \<notin> set as \<Longrightarrow> letters (m\<lparr>heap := (heap m)(a := v)\<rparr>) as = letters m as"
  by (auto simp: letters_def)

lemma letters_append: "letters m (as @ bs) = letters m as @ letters m bs"
  by (simp add: letters_def)

section \<open>List segments\<close>

lemma deref_simps [simp]:
  "deref h None = Inl BadPointer"
  "h a = Some n \<Longrightarrow> deref h (Some a) = Inr n"
  by (simp_all add: deref_def)

lemma dseg_frame: "a \<notin> set as \<Longrightarrow> dseg (h(a \<mapsto> n)) p x as b = dseg h p x as b"
  by (induction as arbitrary: p x) auto

lemma dseg_last: "dseg h p x as b \<Longrightarrow> as \<noteq> [] \<Longrightarrow> b = Some (last as)"
  by (induction as arbitrary: p x) (auto split: if_splits)

lemma dseg_alloc: "dseg h p x as b \<Longrightarrow> a \<in> set as \<Longrightarrow> \<exists>n. h a = Some n"
  by (induction as arbitrary: p x) auto

lemma dseg_unique: "dseg h p x as b \<Longrightarrow> dseg h p x bs b' \<Longrightarrow> as = bs"
proof (induction as arbitrary: p x bs)
  case Nil
  then show ?case by (cases bs) auto
next
  case (Cons a as)
  then show ?case by (cases bs) auto
qed

lemma queue_rep_unique: "queue_rep m as \<Longrightarrow> queue_rep m bs \<Longrightarrow> as = bs"
  by (auto simp: queue_rep_def intro: dseg_unique)

lemma dseg_snoc:
  assumes "dseg h p x as (Some b)" and "as \<noteq> []" and "distinct as" and "a \<notin> set as"
    and "h b = Some nb" and "next_p n = None" and "prev_p n = Some b"
  shows "dseg (h(a \<mapsto> n, b \<mapsto> nb\<lparr>next_p := Some a\<rparr>)) p x (as @ [a]) (Some a)"
  using assms(1-4)
proof (induction as arbitrary: p x)
  case Nil
  then show ?case by simp
next
  case (Cons c as)
  have b: "b = last (c # as)" using dseg_last [OF Cons.prems(1)] by simp
  show ?case
  proof (cases "as = []")
    case True
    then show ?thesis using Cons.prems b assms(5-7) by auto
  next
    case False
    then have "c \<noteq> b" using b Cons.prems(3) by auto
    then show ?thesis using Cons False by auto
  qed
qed

lemma queue_rep_front: "queue_rep m as \<Longrightarrow> front_p m = None \<longleftrightarrow> as = []"
  by (cases as) (auto simp: queue_rep_def)

lemma queue_rep_back: "queue_rep m as \<Longrightarrow> back_p m = None \<longleftrightarrow> as = []"
  by (cases "as = []") (auto simp: queue_rep_def dest: dseg_last)

lemma queue_rep_alloc: "queue_rep m as \<Longrightarrow> a \<in> set as \<Longrightarrow> \<exists>n. heap m a = Some n"
  by (auto simp: queue_rep_def dest: dseg_alloc)

text \<open>Storing into, allocating or freeing a node outside the list does not affect the list.\<close>

lemma queue_rep_frame:
  "a \<notin> set as \<Longrightarrow> queue_rep (m\<lparr>heap := (heap m)(a \<mapsto> n)\<rparr>) as = queue_rep m as"
  by (simp add: queue_rep_def dseg_frame)

lemma dseg_free: "a \<notin> set as \<Longrightarrow> dseg (h(a := None)) p x as b = dseg h p x as b"
  by (induction as arbitrary: p x) auto

lemma queue_rep_free:
  "a \<notin> set as \<Longrightarrow> queue_rep (m\<lparr>heap := (heap m)(a := None)\<rparr>) as = queue_rep m as"
  by (simp add: queue_rep_def dseg_free)

section \<open>The operations on the abstraction\<close>

lemma enqueue_correct:
  assumes rep: "queue_rep m as" and a: "a \<notin> set as" "heap m a = Some n" "next_p n = None"
  shows "\<exists>m'. enqueue a m = Inr m' \<and> queue_rep m' (as @ [a]) \<and> dom (heap m') = dom (heap m) \<and>
    (\<forall>x. map_option node_c (heap m' x) = map_option node_c (heap m x)) \<and>
    (\<forall>x. x \<notin> set (as @ [a]) \<longrightarrow> heap m' x = heap m x)"
proof (cases "as = []")
  case True
  then show ?thesis using rep a by (auto simp: enqueue_def queue_rep_def)
next
  case False
  define b where "b = last as"
  have bk: "back_p m = Some b" and seg: "dseg (heap m) None (front_p m) as (Some b)"
    using rep False dseg_last [of "heap m" None "front_p m" as "back_p m"] by (auto simp: queue_rep_def b_def)
  have ba: "b \<in> set as" using False by (simp add: b_def)
  then obtain nb where nb: "heap m b = Some nb" using queue_rep_alloc [OF rep] by blast
  have ne: "b \<noteq> a" using ba a(1) by auto
  have fr: "front_p m \<noteq> None" using queue_rep_front [OF rep] False by simp
  let ?h = "(heap m)(a \<mapsto> n\<lparr>prev_p := Some b\<rparr>, b \<mapsto> nb\<lparr>next_p := Some a\<rparr>)"
  have "enqueue a m = Inr (m\<lparr>heap := ?h, back_p := Some a\<rparr>)"
    using bk fr nb ne a(2) by (simp add: enqueue_def Let_def)
  moreover have "dseg ?h None (front_p m) (as @ [a]) (Some a)"
    by (rule dseg_snoc [OF seg False _ a(1) nb]) (use rep a(3) in \<open>auto simp: queue_rep_def\<close>)
  ultimately show ?thesis
    using rep a nb ba by (auto simp: queue_rep_def)
qed

lemma dequeue_correct:
  assumes rep: "queue_rep m (a # as)"
  shows "\<exists>m'. dequeue m = Inr (a, m') \<and> queue_rep m' as \<and> dom (heap m') = dom (heap m) \<and>
    (\<forall>x. map_option node_c (heap m' x) = map_option node_c (heap m x)) \<and>
    (\<forall>x. x \<notin> set (a # as) \<longrightarrow> heap m' x = heap m x)"
proof -
  obtain n where fr: "front_p m = Some a" and n: "heap m a = Some n"
    and seg: "dseg (heap m) (Some a) (next_p n) as (back_p m)" and da: "a \<notin> set as" "distinct as"
    using rep by (auto simp: queue_rep_def)
  show ?thesis
  proof (cases as)
    case Nil
    then show ?thesis using fr n seg by (simp add: dequeue_def queue_rep_def)
  next
    case (Cons c cs)
    then obtain nc where nc: "next_p n = Some c" "heap m c = Some nc" "c \<noteq> a"
      and tl: "dseg (heap m) (Some c) (next_p nc) cs (back_p m)"
      using seg da by auto
    have "dequeue m = Inr (a, m\<lparr>heap := (heap m)(c \<mapsto> nc\<lparr>prev_p := None\<rparr>), front_p := Some c\<rparr>)"
      using fr n nc by (simp add: dequeue_def)
    moreover have "dseg ((heap m)(c \<mapsto> nc\<lparr>prev_p := None\<rparr>)) None (Some c) as (back_p m)"
      using Cons tl da by (simp add: dseg_frame)
    ultimately show ?thesis using da nc Cons by (auto simp: queue_rep_def)
  qed
qed

interpretation lq: fifo_queue queue_rep queue_fresh enqueue dequeue queue_empty
proof unfold_locales
  fix m as a
  assume rep: "queue_rep m as"
  then show "queue_empty m \<longleftrightarrow> as = []" by (simp add: queue_empty_def queue_rep_front)
  assume "queue_fresh m a"
  then have "a \<notin> set as" and "\<exists>n. heap m a = Some n \<and> next_p n = None"
    using rep by (auto simp: queue_fresh_def)
  then show "\<exists>m'. enqueue a m = Inr m' \<and> queue_rep m' (as @ [a])"
    using enqueue_correct [OF rep] by blast
next
  fix m a as
  assume "queue_rep m (a # as)"
  then show "\<exists>m'. dequeue m = Inr (a, m') \<and> queue_rep m' as"
    using dequeue_correct by blast
qed

end
