(* ===== verification/ProducerConsumer.thy ===== *)
theory ProducerConsumer
  imports LinkedQueue
begin

text \<open>
  The threads of \<^verbatim>\<open>prelab/producer_consumer.c\<close>: the main thread, the producer, and two
  consumers, one created by the main thread and one by the producer. A thread is a program
  counter with its local variables; a step of the system is a step of one thread. Lock
  operations, the bodies of the critical sections, and the statements between them (allocation,
  output, \<open>free\<close>) are separate steps, so the threads interleave wherever the program lets
  them.

  \<open>pthread_create\<close> and \<open>pthread_join\<close> are library calls whose success is a parameter
  (\<open>pthread_env\<close>). \<open>malloc\<close> returns some unallocated address, or null: the code does not check
  its result, so the thread that called it then writes through a null pointer (\<open>null_malloc\<close> records that this
  has happened). The fields the code does not initialise hold an arbitrary value. A mutex records its owner. \<open>stopped\<close> records an
  \<open>exit\<close>, a failed assertion, an access through a bad pointer, or the use of a destroyed
  mutex; no thread moves afterwards.
\<close>

section \<open>State\<close>

datatype cid = C_main | C_prod  \<comment> \<open>the thread that created the consumer\<close>
datatype tid = TMain | TProd | TCons cid

datatype main_pc =
  M_create_prod | M_create_cons | M_join_prod | M_join_cons | M_report | M_destroy | M_done | M_exited

datatype prod_pc =
    P_none | P_create
  | P_loop nat            \<comment> \<open>about to test \<open>c <= 'z'\<close>\<close>
  | P_lock nat addr | P_insert nat addr | P_unlock nat
  | P_lock_num | P_dec | P_unlock_num | P_join | P_report | P_done | P_exited

datatype cons_pc =
    K_none | K_start | K_lock_q | K_lock_n | K_test | K_unlock_n | K_take
  | K_unlock_q "addr option" | K_print addr | K_free addr
  | K_exit_n | K_exit_q | K_done

record pthread_env =
  create_ok :: "tid \<Rightarrow> bool"
  join_ok :: "tid \<Rightarrow> bool"

record pc_state =
  qm :: queue_mem
  q_lock :: "tid option"
  n_lock :: "tid option"
  locks_destroyed :: bool
  g_num_prod :: int
  main_at :: main_pc
  prod_at :: prod_pc
  cons_at :: "cid \<Rightarrow> cons_pc"
  count_cell :: "cid \<Rightarrow> nat option"
  printed :: "nat list"
  reports :: "nat list"
  null_malloc :: bool
  stopped :: "c_fault option"

text \<open>The state after the initialisation in \<open>main\<close>.\<close>

definition pc_init :: pc_state where
  "pc_init = \<lparr>qm = \<lparr>heap = Map.empty, front_p = None, back_p = None\<rparr>, q_lock = None, n_lock = None,
     locks_destroyed = False, g_num_prod = 1, main_at = M_create_prod, prod_at = P_none,
     cons_at = (\<lambda>_. K_none), count_cell = (\<lambda>_. None), printed = [], reports = [], null_malloc = False, stopped = None\<rparr>"

definition ch_a :: nat where "ch_a = 97"
definition ch_z :: nat where "ch_z = 122"

definition stop :: "c_fault \<Rightarrow> pc_state \<Rightarrow> pc_state" where
  "stop f s = s\<lparr>stopped := Some f\<rparr>"

text \<open>\<open>malloc\<close> has returned null and the result is dereferenced.\<close>

definition malloc_null :: "pc_state \<Rightarrow> pc_state" where
  "malloc_null s = stop BadPointer (s\<lparr>null_malloc := True\<rparr>)"

section \<open>Mutexes\<close>

definition lock_queue :: "tid \<Rightarrow> pc_state \<Rightarrow> pc_state option" where
  "lock_queue t s =
     (if locks_destroyed s then Some (stop BadPointer s)
      else if q_lock s = None then Some (s\<lparr>q_lock := Some t\<rparr>) else None)"

definition lock_num :: "tid \<Rightarrow> pc_state \<Rightarrow> pc_state option" where
  "lock_num t s =
     (if locks_destroyed s then Some (stop BadPointer s)
      else if n_lock s = None then Some (s\<lparr>n_lock := Some t\<rparr>) else None)"

section \<open>The threads\<close>

text \<open>One step of a thread: \<open>None\<close> when it is blocked or has ended.\<close>

definition main_step :: "pthread_env \<Rightarrow> pc_state \<Rightarrow> pc_state option" where
  "main_step env s = (case main_at s of
     M_create_prod \<Rightarrow> Some
       (if create_ok env TProd then s\<lparr>prod_at := P_create, main_at := M_create_cons\<rparr>
        else stop (Exit 1) s)
   | M_create_cons \<Rightarrow> Some
       (if create_ok env (TCons C_main)
        then s\<lparr>cons_at := (cons_at s)(C_main := K_start), main_at := M_join_prod\<rparr>
        else stop (Exit 1) s)
   | M_join_prod \<Rightarrow>
       (if \<not> join_ok env TProd then Some (s\<lparr>main_at := M_exited\<rparr>)
        else if prod_at s = P_done \<or> prod_at s = P_exited then Some (s\<lparr>main_at := M_join_cons\<rparr>)
        else None)
   | M_join_cons \<Rightarrow>
       (if \<not> join_ok env (TCons C_main) then Some (s\<lparr>main_at := M_exited\<rparr>)
        else if cons_at s C_main = K_done then Some (s\<lparr>main_at := M_report\<rparr>) else None)
   | M_report \<Rightarrow> Some (case count_cell s C_main of
         None \<Rightarrow> stop BadPointer s
       | Some c \<Rightarrow> s\<lparr>reports := reports s @ [c],
                     count_cell := (count_cell s)(C_main := None), main_at := M_destroy\<rparr>)
   | M_destroy \<Rightarrow> Some (s\<lparr>locks_destroyed := True, main_at := M_done\<rparr>)
   | M_done \<Rightarrow> None
   | M_exited \<Rightarrow> None)"

text \<open>\<open>mem\<close> is what \<open>malloc\<close> returns, \<open>junk\<close> the initial contents of \<open>prev\<close>.\<close>

definition prod_step :: "pthread_env \<Rightarrow> addr option \<Rightarrow> addr option \<Rightarrow> pc_state \<Rightarrow> pc_state option" where
  "prod_step env mem junk s = (case prod_at s of
     P_none \<Rightarrow> None
   | P_create \<Rightarrow> Some
       (if create_ok env (TCons C_prod)
        then s\<lparr>cons_at := (cons_at s)(C_prod := K_start), prod_at := P_loop ch_a\<rparr>
        else stop (Exit 1) s)
   | P_loop c \<Rightarrow>
       (if c \<le> ch_z then
          (case mem of
             None \<Rightarrow> Some (malloc_null s)
           | Some a \<Rightarrow>
               if heap (qm s) a = None then
                 Some (s\<lparr>qm := (qm s)\<lparr>heap := (heap (qm s))(a \<mapsto>
                           \<lparr>next_p = None, prev_p = junk, node_c = c\<rparr>)\<rparr>,
                         prod_at := P_lock c a\<rparr>)
               else None)
        else Some (s\<lparr>prod_at := P_lock_num\<rparr>))
   | P_lock c x \<Rightarrow> map_option (\<lambda>s'. s'\<lparr>prod_at := P_insert c x\<rparr>) (lock_queue TProd s)
   | P_insert c x \<Rightarrow> Some (case enqueue x (qm s) of
         Inl f \<Rightarrow> stop f s
       | Inr q \<Rightarrow> s\<lparr>qm := q, prod_at := P_unlock c\<rparr>)
   | P_unlock c \<Rightarrow> Some (s\<lparr>q_lock := None, prod_at := P_loop (Suc c)\<rparr>)
   | P_lock_num \<Rightarrow> map_option (\<lambda>s'. s'\<lparr>prod_at := P_dec\<rparr>) (lock_num TProd s)
   | P_dec \<Rightarrow> Some (s\<lparr>g_num_prod := g_num_prod s - 1, prod_at := P_unlock_num\<rparr>)
   | P_unlock_num \<Rightarrow> Some (s\<lparr>n_lock := None, prod_at := P_join\<rparr>)
   | P_join \<Rightarrow>
       (if \<not> join_ok env (TCons C_prod) then Some (s\<lparr>prod_at := P_exited\<rparr>)
        else if cons_at s C_prod = K_done then Some (s\<lparr>prod_at := P_report\<rparr>) else None)
   | P_report \<Rightarrow> Some (case count_cell s C_prod of
         None \<Rightarrow> stop BadPointer s
       | Some c \<Rightarrow> s\<lparr>reports := reports s @ [c],
                     count_cell := (count_cell s)(C_prod := None), prod_at := P_done\<rparr>)
   | P_done \<Rightarrow> None
   | P_exited \<Rightarrow> None)"

definition goto_cons :: "cid \<Rightarrow> cons_pc \<Rightarrow> pc_state \<Rightarrow> pc_state" where
  "goto_cons k p s = s\<lparr>cons_at := (cons_at s)(k := p)\<rparr>"

text \<open>\<open>mem\<close> tells whether \<open>malloc\<close> returns memory for the counter.\<close>

definition cons_step :: "bool \<Rightarrow> cid \<Rightarrow> pc_state \<Rightarrow> pc_state option" where
  "cons_step mem k s = (case cons_at s k of
     K_none \<Rightarrow> None
   | K_start \<Rightarrow> Some
       (if mem then goto_cons k K_lock_q (s\<lparr>count_cell := (count_cell s)(k := Some 0)\<rparr>) else malloc_null s)
   | K_lock_q \<Rightarrow> map_option (goto_cons k K_lock_n) (lock_queue (TCons k) s)
   | K_lock_n \<Rightarrow> map_option (goto_cons k K_test) (lock_num (TCons k) s)
   | K_test \<Rightarrow> Some
       (if front_p (qm s) \<noteq> None \<or> g_num_prod s > 0 then goto_cons k K_unlock_n s
        else goto_cons k K_exit_n s)
   | K_unlock_n \<Rightarrow> Some (goto_cons k K_take (s\<lparr>n_lock := None\<rparr>))
   | K_take \<Rightarrow> Some
       (if front_p (qm s) \<noteq> None then
          (case dequeue (qm s) of
             Inl f \<Rightarrow> stop f s
           | Inr (x, q) \<Rightarrow> goto_cons k (K_unlock_q (Some x)) (s\<lparr>qm := q\<rparr>))
        else goto_cons k (K_unlock_q None) s)
   | K_unlock_q x \<Rightarrow> Some
       (goto_cons k (case x of None \<Rightarrow> K_lock_q | Some a \<Rightarrow> K_print a) (s\<lparr>q_lock := None\<rparr>))
   | K_print a \<Rightarrow> Some (case heap (qm s) a of
         None \<Rightarrow> stop BadPointer s
       | Some n \<Rightarrow> goto_cons k (K_free a) (s\<lparr>printed := printed s @ [node_c n]\<rparr>))
   | K_free a \<Rightarrow> Some (case count_cell s k of
         None \<Rightarrow> stop BadPointer s
       | Some c \<Rightarrow>
           (if heap (qm s) a = None then stop BadPointer s
            else goto_cons k K_lock_q
              (s\<lparr>qm := (qm s)\<lparr>heap := (heap (qm s))(a := None)\<rparr>,
                 count_cell := (count_cell s)(k := Some (Suc c))\<rparr>)))
   | K_exit_n \<Rightarrow> Some (goto_cons k K_exit_q (s\<lparr>n_lock := None\<rparr>))
   | K_exit_q \<Rightarrow> Some (goto_cons k K_done (s\<lparr>q_lock := None\<rparr>))
   | K_done \<Rightarrow> None)"

inductive pc_step :: "pthread_env \<Rightarrow> pc_state \<Rightarrow> pc_state \<Rightarrow> bool" for env where
  step_main: "stopped s = None \<Longrightarrow> main_step env s = Some t \<Longrightarrow> pc_step env s t"
| step_prod: "stopped s = None \<Longrightarrow> prod_step env mem junk s = Some t \<Longrightarrow> pc_step env s t"
| step_cons: "stopped s = None \<Longrightarrow> cons_step got k s = Some t \<Longrightarrow> pc_step env s t"

abbreviation pc_reachable :: "pthread_env \<Rightarrow> pc_state \<Rightarrow> bool" where
  "pc_reachable env \<equiv> reachable (\<lambda>s. s = pc_init) (pc_step env)"


section \<open>Invariant\<close>

fun prod_node :: "prod_pc \<Rightarrow> addr list" where
  "prod_node (P_lock c a) = [a]"
| "prod_node (P_insert c a) = [a]"
| "prod_node _ = []"

fun cons_node :: "cons_pc \<Rightarrow> addr list" where
  "cons_node (K_unlock_q (Some a)) = [a]"
| "cons_node (K_print a) = [a]"
| "cons_node (K_free a) = [a]"
| "cons_node _ = []"

text \<open>The node a consumer has taken and not yet printed.\<close>

fun cons_unprinted :: "cons_pc \<Rightarrow> addr list" where
  "cons_unprinted (K_unlock_q (Some a)) = [a]"
| "cons_unprinted (K_print a) = [a]"
| "cons_unprinted _ = []"

text \<open>The first letter that is not yet in the queue.\<close>

fun next_letter :: "prod_pc \<Rightarrow> nat" where
  "next_letter P_none = ch_a"
| "next_letter P_create = ch_a"
| "next_letter (P_loop c) = c"
| "next_letter (P_lock c a) = c"
| "next_letter (P_insert c a) = c"
| "next_letter (P_unlock c) = Suc c"
| "next_letter _ = Suc ch_z"

fun letter_range :: "prod_pc \<Rightarrow> bool" where
  "letter_range (P_loop c) = (ch_a \<le> c \<and> c \<le> Suc ch_z)"
| "letter_range (P_lock c a) = (ch_a \<le> c \<and> c \<le> ch_z)"
| "letter_range (P_insert c a) = (ch_a \<le> c \<and> c \<le> ch_z)"
| "letter_range (P_unlock c) = (ch_a \<le> c \<and> c \<le> ch_z)"
| "letter_range _ = True"

definition prod_past_dec :: "prod_pc \<Rightarrow> bool" where
  "prod_past_dec p \<longleftrightarrow> p = P_unlock_num \<or> p = P_join \<or> p = P_report \<or> p = P_done"

definition cons_quit :: "cons_pc \<Rightarrow> bool" where
  "cons_quit p \<longleftrightarrow> p = K_exit_n \<or> p = K_exit_q \<or> p = K_done"

text \<open>Where a thread holds the queue's mutex and the mutex of the counter.\<close>

fun prod_holds_q :: "prod_pc \<Rightarrow> bool" where
  "prod_holds_q (P_insert c a) = True"
| "prod_holds_q (P_unlock c) = True"
| "prod_holds_q _ = False"

fun prod_holds_n :: "prod_pc \<Rightarrow> bool" where
  "prod_holds_n P_dec = True"
| "prod_holds_n P_unlock_num = True"
| "prod_holds_n _ = False"

fun cons_holds_q :: "cons_pc \<Rightarrow> bool" where
  "cons_holds_q K_lock_n = True"
| "cons_holds_q K_test = True"
| "cons_holds_q K_unlock_n = True"
| "cons_holds_q K_take = True"
| "cons_holds_q (K_unlock_q x) = True"
| "cons_holds_q K_exit_n = True"
| "cons_holds_q K_exit_q = True"
| "cons_holds_q _ = False"

fun cons_holds_n :: "cons_pc \<Rightarrow> bool" where
  "cons_holds_n K_test = True"
| "cons_holds_n K_unlock_n = True"
| "cons_holds_n K_exit_n = True"
| "cons_holds_n _ = False"

definition lock_inv :: "pc_state \<Rightarrow> bool" where
  "lock_inv s \<longleftrightarrow>
     (prod_holds_q (prod_at s) \<longleftrightarrow> q_lock s = Some TProd) \<and>
     (prod_holds_n (prod_at s) \<longleftrightarrow> n_lock s = Some TProd) \<and>
     (\<forall>k. cons_holds_q (cons_at s k) \<longleftrightarrow> q_lock s = Some (TCons k)) \<and>
     (\<forall>k. cons_holds_n (cons_at s k) \<longleftrightarrow> n_lock s = Some (TCons k)) \<and>
     q_lock s \<noteq> Some TMain \<and> n_lock s \<noteq> Some TMain"

definition life_inv :: "pc_state \<Rightarrow> bool" where
  "life_inv s \<longleftrightarrow>
     (prod_at s = P_none \<longleftrightarrow> main_at s = M_create_prod) \<and>
     (cons_at s C_main = K_none \<longleftrightarrow> main_at s = M_create_prod \<or> main_at s = M_create_cons) \<and>
     (cons_at s C_prod = K_none \<longleftrightarrow> prod_at s = P_none \<or> prod_at s = P_create) \<and>
     (prod_at s = P_report \<or> prod_at s = P_done \<longrightarrow> cons_at s C_prod = K_done) \<and>
     (main_at s \<in> {M_join_cons, M_report, M_destroy, M_done} \<longrightarrow> prod_at s = P_done) \<and>
     (main_at s \<in> {M_report, M_destroy, M_done} \<longrightarrow> cons_at s C_main = K_done) \<and>
     (locks_destroyed s \<longleftrightarrow> main_at s = M_done) \<and>
     prod_at s \<noteq> P_exited \<and> main_at s \<noteq> M_exited"

definition cell_inv :: "pc_state \<Rightarrow> bool" where
  "cell_inv s \<longleftrightarrow>
     (count_cell s C_main \<noteq> None \<longleftrightarrow> cons_at s C_main \<noteq> K_none \<and> cons_at s C_main \<noteq> K_start \<and>
        main_at s \<noteq> M_destroy \<and> main_at s \<noteq> M_done) \<and>
     (count_cell s C_prod \<noteq> None \<longleftrightarrow> cons_at s C_prod \<noteq> K_none \<and> cons_at s C_prod \<noteq> K_start \<and>
        prod_at s \<noteq> P_done)"

definition cell_val :: "nat option \<Rightarrow> nat" where
  "cell_val c = (case c of None \<Rightarrow> 0 | Some n \<Rightarrow> n)"

definition uncounted :: "cons_pc \<Rightarrow> nat" where
  "uncounted p = (case p of K_free a \<Rightarrow> 1 | _ \<Rightarrow> 0)"

definition count_inv :: "pc_state \<Rightarrow> bool" where
  "count_inv s \<longleftrightarrow> length (printed s) =
     cell_val (count_cell s C_main) + cell_val (count_cell s C_prod) + sum_list (reports s) +
     uncounted (cons_at s C_main) + uncounted (cons_at s C_prod)"

definition num_inv :: "pc_state \<Rightarrow> bool" where
  "num_inv s \<longleftrightarrow> g_num_prod s = (if prod_past_dec (prod_at s) then 0 else 1) \<and>
     letter_range (prod_at s)"

definition quit_inv :: "pc_state \<Rightarrow> bool" where
  "quit_inv s \<longleftrightarrow> (\<forall>k. cons_quit (cons_at s k) \<longrightarrow>
     front_p (qm s) = None \<and> prod_past_dec (prod_at s))"

definition held :: "pc_state \<Rightarrow> addr list" where
  "held s = prod_node (prod_at s) @ cons_node (cons_at s C_main) @ cons_node (cons_at s C_prod)"

definition unprinted :: "pc_state \<Rightarrow> addr list" where
  "unprinted s = cons_unprinted (cons_at s C_main) @ cons_unprinted (cons_at s C_prod)"

text \<open>
  The heap holds the nodes of the queue and the nodes in the hands of a thread, and nothing
  else. The queue holds the letters from \<open>i\<close> to the last one inserted, in order; the letters
  before \<open>i\<close> are printed or in the hands of a consumer.
\<close>

definition queue_inv :: "pc_state \<Rightarrow> bool" where
  "queue_inv s \<longleftrightarrow> (\<exists>as i.
     queue_rep (qm s) as \<and> distinct (as @ held s) \<and> dom (heap (qm s)) = set as \<union> set (held s) \<and>
     (\<forall>a \<in> set (prod_node (prod_at s)). \<exists>n. heap (qm s) a = Some n \<and> next_p n = None \<and>
        node_c n = next_letter (prod_at s)) \<and>
     letters (qm s) as = [i..<next_letter (prod_at s)] \<and> ch_a \<le> i \<and> i \<le> next_letter (prod_at s) \<and>
     mset (printed s) + mset (letters (qm s) (unprinted s)) = mset [ch_a..<i])"

definition core_inv :: "pc_state \<Rightarrow> bool" where
  "core_inv s \<longleftrightarrow> lock_inv s \<and> life_inv s \<and> cell_inv s \<and> count_inv s \<and> num_inv s \<and> quit_inv s \<and>
     queue_inv s"

definition pc_inv :: "pc_state \<Rightarrow> bool" where
  "pc_inv s \<longleftrightarrow> stopped s = Some (Exit 1) \<or> stopped s = Some BadPointer \<and> null_malloc s \<or> stopped s = None \<and> core_inv s"

lemmas simple_inv_defs = lock_inv_def life_inv_def cell_inv_def count_inv_def num_inv_def quit_inv_def

lemma cid_all: "(\<forall>k. P k) \<longleftrightarrow> P C_main \<and> P C_prod"
  by (metis cid.exhaust)

lemma core_inv_init: "core_inv pc_init"
proof -
  have "queue_inv pc_init"
    unfolding queue_inv_def
    by (rule exI [of _ "[]"], rule exI [of _ ch_a])
      (simp add: pc_init_def queue_rep_def held_def unprinted_def letters_def)
  then show ?thesis
    by (simp add: core_inv_def simple_inv_defs cid_all pc_init_def cell_val_def uncounted_def
        prod_past_dec_def cons_quit_def)
qed

section \<open>Every step keeps the invariant\<close>

lemma pc_inv_exit [simp]: "pc_inv (stop (Exit (Suc 0)) s)"
  by (simp add: pc_inv_def stop_def)

lemma pc_inv_malloc_null [simp]: "pc_inv (malloc_null s)"
  by (simp add: pc_inv_def malloc_null_def stop_def)

lemma queue_inv_cong:
  assumes "queue_inv s" and "qm t = qm s" and "printed t = printed s"
    and "prod_node (prod_at t) = prod_node (prod_at s)"
    and "next_letter (prod_at t) = next_letter (prod_at s)"
    and "\<And>k. cons_node (cons_at t k) = cons_node (cons_at s k)"
    and "\<And>k. cons_unprinted (cons_at t k) = cons_unprinted (cons_at s k)"
  shows "queue_inv t"
  using assms(1) unfolding queue_inv_def held_def unprinted_def assms(2-) .

lemmas aux_defs = cell_val_def uncounted_def prod_past_dec_def cons_quit_def

lemma main_step_inv:
  assumes core: "core_inv s" and run: "stopped s = None" and join: "\<forall>t. join_ok env t"
    and st: "main_step env s = Some t"
  shows "pc_inv t"
proof -
  have q: "queue_inv s" using core by (simp add: core_inv_def)
  have late: "prod_at s = P_done" "cons_at s C_prod = K_done"
    if "main_at s = M_join_cons \<or> main_at s = M_report \<or> main_at s = M_destroy"
    using core that by (auto simp: core_inv_def life_inv_def)
  have c_done: "cons_at s C_main = K_done" if "main_at s = M_report \<or> main_at s = M_destroy"
    using core that by (auto simp: core_inv_def life_inv_def)
  show ?thesis
  proof (cases "main_at s")
    case M_create_prod
    have pcs: "prod_at s = P_none" "cons_at s C_main = K_none" "cons_at s C_prod = K_none"
      using core M_create_prod by (auto simp: core_inv_def life_inv_def)
    show ?thesis
    proof (cases "create_ok env TProd")
      case True
      then have t: "t = s\<lparr>prod_at := P_create, main_at := M_create_cons\<rparr>"
        using st M_create_prod by (simp add: main_step_def)
      have "queue_inv t" by (rule queue_inv_cong [OF q]) (use pcs t in auto)
      then show ?thesis using M_create_prod core run pcs t
        by (simp add: pc_inv_def core_inv_def simple_inv_defs aux_defs cid_all)
    qed (use st M_create_prod in \<open>auto simp: main_step_def\<close>)
  next
    case M_create_cons
    have pcs: "prod_at s \<noteq> P_none" "cons_at s C_main = K_none" "locks_destroyed s = False"
      using core M_create_cons by (auto simp: core_inv_def life_inv_def)
    show ?thesis
    proof (cases "create_ok env (TCons C_main)")
      case True
      then have t: "t = s\<lparr>cons_at := (cons_at s)(C_main := K_start), main_at := M_join_prod\<rparr>"
        using st M_create_cons by (simp add: main_step_def)
      have "queue_inv t" by (rule queue_inv_cong [OF q]) (use pcs t in auto)
      then show ?thesis using M_create_cons core run pcs t
        by (simp add: pc_inv_def core_inv_def simple_inv_defs aux_defs cid_all)
    qed (use st M_create_cons in \<open>auto simp: main_step_def\<close>)
  next
    case M_join_prod
    then have t: "t = s\<lparr>main_at := M_join_cons\<rparr>" and p: "prod_at s = P_done" "cons_at s C_prod = K_done"
      using st join core by (auto simp: main_step_def core_inv_def life_inv_def split: if_splits)
    have "queue_inv t" by (rule queue_inv_cong [OF q]) (use t in auto)
    then show ?thesis using M_join_prod core run t p
      by (simp add: pc_inv_def core_inv_def simple_inv_defs aux_defs cid_all)
  next
    case M_join_cons
    then have t: "t = s\<lparr>main_at := M_report\<rparr>" and p: "cons_at s C_main = K_done"
      using st join by (auto simp: main_step_def split: if_splits)
    have "queue_inv t" by (rule queue_inv_cong [OF q]) (use t in auto)
    then show ?thesis using M_join_cons core run t p late
      by (simp add: pc_inv_def core_inv_def simple_inv_defs aux_defs cid_all)
  next
    case M_report
    then obtain c where c: "count_cell s C_main = Some c" "t = s\<lparr>reports := reports s @ [c],
                     count_cell := (count_cell s)(C_main := None), main_at := M_destroy\<rparr>"
      using st core by (cases "count_cell s C_main") (auto simp: main_step_def core_inv_def cell_inv_def life_inv_def)
    have "queue_inv t"
      by (rule queue_inv_cong [OF q]) (use c in auto)
    then show ?thesis using M_report c core run late c_done
      by (simp add: pc_inv_def core_inv_def simple_inv_defs aux_defs cid_all)
  next
    case M_destroy
    then have t: "t = s\<lparr>locks_destroyed := True, main_at := M_done\<rparr>"
      using st by (simp add: main_step_def)
    have "queue_inv t" by (rule queue_inv_cong [OF q]) (use t in auto)
    then show ?thesis using M_destroy core run t late c_done
      by (simp add: pc_inv_def core_inv_def simple_inv_defs aux_defs cid_all)
  qed (use st in \<open>auto simp: main_step_def\<close>)
qed

lemma unprinted_held: "set (unprinted s) \<subseteq> set (held s)"
proof -
  have "set (cons_unprinted p) \<subseteq> set (cons_node p)" for p
    by (cases p rule: cons_unprinted.cases) auto
  then show ?thesis by (auto simp: unprinted_def held_def)
qed

lemma queue_inv_malloc:
  assumes q: "queue_inv s" and p: "prod_at s = P_loop c" and a: "heap (qm s) a = None"
  shows "queue_inv (s\<lparr>qm := (qm s)\<lparr>heap := (heap (qm s))(a \<mapsto> \<lparr>next_p = None, prev_p = junk, node_c = c\<rparr>)\<rparr>,
                     prod_at := P_lock c a\<rparr>)"
proof -
  obtain as i where rep: "queue_rep (qm s) as" and d: "distinct (as @ held s)"
    and dm: "dom (heap (qm s)) = set as \<union> set (held s)"
    and l: "letters (qm s) as = [i..<c]" "ch_a \<le> i" "i \<le> c"
    and ms: "mset (printed s) + mset (letters (qm s) (unprinted s)) = mset [ch_a..<i]"
    using q p unfolding queue_inv_def by auto
  have na: "a \<notin> set as" "a \<notin> set (held s)" using a dm by (metis UnI1 UnI2 domIff)+
  then have nu: "a \<notin> set (unprinted s)" using unprinted_held by blast
  show ?thesis
    unfolding queue_inv_def
    by (rule exI [of _ as], rule exI [of _ i])
      (use rep d dm l ms na nu p in \<open>simp add: queue_rep_frame letters_upd_other held_def unprinted_def\<close>)
qed

lemma queue_inv_insert:
  assumes q: "queue_inv s" and p: "prod_at s = P_insert c a"
  shows "\<exists>m. enqueue a (qm s) = Inr m \<and> queue_inv (s\<lparr>qm := m, prod_at := P_unlock c\<rparr>)"
proof -
  obtain as i n where rep: "queue_rep (qm s) as" and d: "distinct (as @ held s)"
    and dm: "dom (heap (qm s)) = set as \<union> set (held s)"
    and n: "heap (qm s) a = Some n" "next_p n = None" "node_c n = c"
    and l: "letters (qm s) as = [i..<c]" "ch_a \<le> i" "i \<le> c"
    and ms: "mset (printed s) + mset (letters (qm s) (unprinted s)) = mset [ch_a..<i]"
    using q p unfolding queue_inv_def by auto
  have na: "a \<notin> set as" using d p by (auto simp: held_def)
  obtain m where m: "enqueue a (qm s) = Inr m" "queue_rep m (as @ [a])"
      "dom (heap m) = dom (heap (qm s))"
      "\<forall>x. map_option node_c (heap m x) = map_option node_c (heap (qm s) x)"
    using enqueue_correct [OF rep na n(1,2)] by blast
  have "letters m (as @ [a]) = [i..<Suc c]"
    using l n by (simp add: letters_cong [OF m(4)] letters_append) (simp add: letters_def)
  then have "queue_inv (s\<lparr>qm := m, prod_at := P_unlock c\<rparr>)"
    unfolding queue_inv_def
    by (intro exI [of _ "as @ [a]"] exI [of _ i])
      (use m d dm l ms p letters_cong [OF m(4), of "unprinted s"]
        in \<open>simp add: held_def unprinted_def\<close>)
  with m show ?thesis by blast
qed

lemma queue_inv_take:
  assumes q: "queue_inv s" and k: "cons_at s k = K_take" and f: "front_p (qm s) \<noteq> None"
  shows "\<exists>a m. dequeue (qm s) = Inr (a, m) \<and>
    queue_inv (goto_cons k (K_unlock_q (Some a)) (s\<lparr>qm := m\<rparr>))"
proof -
  obtain as i where rep: "queue_rep (qm s) as" and d: "distinct (as @ held s)"
    and dm: "dom (heap (qm s)) = set as \<union> set (held s)"
    and pn: "\<forall>a \<in> set (prod_node (prod_at s)). \<exists>n. heap (qm s) a = Some n \<and> next_p n = None \<and>
        node_c n = next_letter (prod_at s)"
    and l: "letters (qm s) as = [i..<next_letter (prod_at s)]" "ch_a \<le> i" "i \<le> next_letter (prod_at s)"
    and ms: "mset (printed s) + mset (letters (qm s) (unprinted s)) = mset [ch_a..<i]"
    using q unfolding queue_inv_def by auto
  obtain a bs where as: "as = a # bs" using f queue_rep_front [OF rep] by (cases as) auto
  obtain m where m: "dequeue (qm s) = Inr (a, m)" "queue_rep m bs"
      "dom (heap m) = dom (heap (qm s))"
      "\<forall>x. map_option node_c (heap m x) = map_option node_c (heap (qm s) x)"
      "\<forall>x. x \<notin> set (a # bs) \<longrightarrow> heap m x = heap (qm s) x"
    using dequeue_correct rep as by blast
  have "i < next_letter (prod_at s)" using l as by (cases "i < next_letter (prod_at s)") (auto simp: letters_def)
  then have la: "letters (qm s) [a] = [i]" "letters (qm s) bs = [Suc i..<next_letter (prod_at s)]"
    and i: "Suc i \<le> next_letter (prod_at s)"
    using l as by (auto simp: letters_def upt_conv_Cons)
  let ?t = "goto_cons k (K_unlock_q (Some a)) (s\<lparr>qm := m\<rparr>)"
  have h: "mset (held ?t) = add_mset a (mset (held s))" and u: "mset (unprinted ?t) = add_mset a (mset (unprinted s))"
    using k by (cases k; simp add: goto_cons_def held_def unprinted_def)+
  have pcs: "prod_at ?t = prod_at s" "printed ?t = printed s" "qm ?t = m" by (simp_all add: goto_cons_def)
  have dis: "distinct (bs @ held ?t)" and dom: "dom (heap m) = set bs \<union> set (held ?t)"
    using d dm m(3) as mset_eq_setD [of "held ?t" "a # held s"]
     mset_eq_imp_distinct_iff [of "bs @ held ?t" "a # bs @ held s"] h by auto
  have "mset (letters m (unprinted ?t)) = add_mset i (mset (letters (qm s) (unprinted s)))"
    using u la by (simp add: letters_cong [OF m(4)]) (simp add: letters_def)
  then have ms': "mset (printed s) + mset (letters m (unprinted ?t)) = mset [ch_a..<Suc i]"
    using ms l by simp
  have pn': "\<forall>x \<in> set (prod_node (prod_at s)). \<exists>n. heap m x = Some n \<and> next_p n = None \<and>
        node_c n = next_letter (prod_at s)"
    using pn m(5) d as by (auto simp: held_def)
  have "queue_inv ?t"
    unfolding queue_inv_def pcs
    by (intro exI [of _ bs] exI [of _ "Suc i"] conjI m(2) dis dom pn' i ms')
      (use la l in \<open>simp_all add: letters_cong [OF m(4)]\<close>)
  with m(1) show ?thesis by blast
qed

lemmas core_simps = pc_inv_def core_inv_def simple_inv_defs aux_defs cid_all

lemma prod_step_inv:
  assumes core: "core_inv s" and run: "stopped s = None" and join: "\<forall>t. join_ok env t"
    and st: "prod_step env mem junk s = Some t"
  shows "pc_inv t"
proof -
  have q: "queue_inv s" and rng: "letter_range (prod_at s)" using core by (simp_all add: core_inv_def num_inv_def)
  show ?thesis
  proof (cases "prod_at s")
    case P_create
    have pcs: "cons_at s C_prod = K_none" using core P_create by (auto simp: core_inv_def life_inv_def)
    show ?thesis
    proof (cases "create_ok env (TCons C_prod)")
      case True
      then have t: "t = s\<lparr>cons_at := (cons_at s)(C_prod := K_start), prod_at := P_loop ch_a\<rparr>"
        using st P_create by (simp add: prod_step_def)
      have "queue_inv t" by (rule queue_inv_cong [OF q]) (use pcs P_create t in auto)
      then show ?thesis using P_create core run pcs t
        by (simp add: core_simps ch_a_def ch_z_def)
    qed (use st P_create in \<open>auto simp: prod_step_def\<close>)
  next
    case (P_loop c)
    show ?thesis
    proof (cases "c \<le> ch_z")
      case True
      show ?thesis
      proof (cases mem)
        case None
        then show ?thesis using st P_loop True by (auto simp: prod_step_def)
      next
        case (Some a)
        then have a: "heap (qm s) a = None" and t: "t = s\<lparr>qm := (qm s)\<lparr>heap := (heap (qm s))(a \<mapsto>
              \<lparr>next_p = None, prev_p = junk, node_c = c\<rparr>)\<rparr>, prod_at := P_lock c a\<rparr>"
          using st P_loop True by (auto simp: prod_step_def split: if_splits)
        have "queue_inv t" unfolding t by (rule queue_inv_malloc [OF q P_loop a])
        then show ?thesis using P_loop core run t rng True by (simp add: core_simps)
      qed
    next
      case False
      then have t: "t = s\<lparr>prod_at := P_lock_num\<rparr>" using st P_loop by (simp add: prod_step_def)
      have "queue_inv t" by (rule queue_inv_cong [OF q]) (use P_loop t False rng in auto)
      then show ?thesis using P_loop core run t by (simp add: core_simps)
    qed
  next
    case (P_lock c x)
    then have t: "t = s\<lparr>q_lock := Some TProd, prod_at := P_insert c x\<rparr>" and l: "q_lock s = None"
      using st core by (auto simp: prod_step_def lock_queue_def core_inv_def life_inv_def split: if_splits)
    have "queue_inv t" by (rule queue_inv_cong [OF q]) (use P_lock t in auto)
    then show ?thesis using P_lock core run t l by (simp add: core_simps)
  next
    case (P_insert c x)
    obtain m where m: "enqueue x (qm s) = Inr m" "queue_inv (s\<lparr>qm := m, prod_at := P_unlock c\<rparr>)"
      using queue_inv_insert [OF q P_insert] by blast
    then have t: "t = s\<lparr>qm := m, prod_at := P_unlock c\<rparr>" using st P_insert by (simp add: prod_step_def)
    then show ?thesis using P_insert core run m by (simp add: core_simps)
  next
    case (P_unlock c)
    then have t: "t = s\<lparr>q_lock := None, prod_at := P_loop (Suc c)\<rparr>" using st by (simp add: prod_step_def)
    have "queue_inv t" by (rule queue_inv_cong [OF q]) (use P_unlock t in auto)
    then show ?thesis using P_unlock core run t by (simp add: core_simps)
  next
    case P_lock_num
    then have t: "t = s\<lparr>n_lock := Some TProd, prod_at := P_dec\<rparr>" and l: "n_lock s = None"
      using st core by (auto simp: prod_step_def lock_num_def core_inv_def life_inv_def split: if_splits)
    have "queue_inv t" by (rule queue_inv_cong [OF q]) (use P_lock_num t in auto)
    then show ?thesis using P_lock_num core run t l by (simp add: core_simps)
  next
    case P_dec
    then have t: "t = s\<lparr>g_num_prod := g_num_prod s - 1, prod_at := P_unlock_num\<rparr>" using st by (simp add: prod_step_def)
    have "queue_inv t" by (rule queue_inv_cong [OF q]) (use P_dec t in auto)
    then show ?thesis using P_dec core run t by (simp add: core_simps)
  next
    case P_unlock_num
    then have t: "t = s\<lparr>n_lock := None, prod_at := P_join\<rparr>" using st by (simp add: prod_step_def)
    have "queue_inv t" by (rule queue_inv_cong [OF q]) (use P_unlock_num t in auto)
    then show ?thesis using P_unlock_num core run t by (simp add: core_simps)
  next
    case P_join
    then have t: "t = s\<lparr>prod_at := P_report\<rparr>" and p: "cons_at s C_prod = K_done"
      using st join by (auto simp: prod_step_def split: if_splits)
    have "queue_inv t" by (rule queue_inv_cong [OF q]) (use P_join t in auto)
    then show ?thesis using P_join core run t p by (simp add: core_simps)
  next
    case P_report
    then have p: "cons_at s C_prod = K_done" using core by (simp add: core_inv_def life_inv_def)
    then obtain c where c: "count_cell s C_prod = Some c"
      using core P_report by (auto simp: core_inv_def cell_inv_def)
    then have t: "t = s\<lparr>reports := reports s @ [c],
        count_cell := (count_cell s)(C_prod := None), prod_at := P_done\<rparr>"
      using st P_report by (simp add: prod_step_def)
    have "queue_inv t" by (rule queue_inv_cong [OF q]) (use P_report t in auto)
    then show ?thesis using P_report core run t p c by (simp add: core_simps)
  qed (use st in \<open>auto simp: prod_step_def\<close>)
qed

lemma queue_inv_print:
  assumes q: "queue_inv s" and k: "cons_at s k = K_print a"
  shows "\<exists>n. heap (qm s) a = Some n \<and>
    queue_inv (goto_cons k (K_free a) (s\<lparr>printed := printed s @ [node_c n]\<rparr>))"
proof -
  obtain as i where rep: "queue_rep (qm s) as" and d: "distinct (as @ held s)"
    and dm: "dom (heap (qm s)) = set as \<union> set (held s)"
    and pn: "\<forall>a \<in> set (prod_node (prod_at s)). \<exists>n. heap (qm s) a = Some n \<and> next_p n = None \<and>
        node_c n = next_letter (prod_at s)"
    and l: "letters (qm s) as = [i..<next_letter (prod_at s)]" "ch_a \<le> i" "i \<le> next_letter (prod_at s)"
    and ms: "mset (printed s) + mset (letters (qm s) (unprinted s)) = mset [ch_a..<i]"
    using q unfolding queue_inv_def by auto
  have "a \<in> set (held s)" using k by (cases k) (auto simp: held_def)
  then obtain n where n: "heap (qm s) a = Some n" using dm by blast
  let ?t = "goto_cons k (K_free a) (s\<lparr>printed := printed s @ [node_c n]\<rparr>)"
  have h: "held ?t = held s" and u: "mset (unprinted s) = add_mset a (mset (unprinted ?t))"
    using k by (cases k; simp add: goto_cons_def held_def unprinted_def)+
  have pcs: "prod_at ?t = prod_at s" "printed ?t = printed s @ [node_c n]" "qm ?t = qm s"
    by (simp_all add: goto_cons_def)
  have "mset (letters (qm s) (unprinted s)) = add_mset (node_c n) (mset (letters (qm s) (unprinted ?t)))"
    using u n by (simp add: letters_def)
  then have ms': "mset (printed s @ [node_c n]) + mset (letters (qm s) (unprinted ?t)) = mset [ch_a..<i]"
    using ms by simp
  have "queue_inv ?t"
    unfolding queue_inv_def pcs h
    by (intro exI [of _ as] exI [of _ i] conjI rep d dm pn l ms')
  with n show ?thesis by blast
qed

lemma queue_inv_free:
  assumes q: "queue_inv s" and k: "cons_at s k = K_free a"
  shows "heap (qm s) a \<noteq> None \<and>
    queue_inv (goto_cons k K_lock_q
      (s\<lparr>qm := (qm s)\<lparr>heap := (heap (qm s))(a := None)\<rparr>, count_cell := cc\<rparr>))"
proof -
  obtain as i where rep: "queue_rep (qm s) as" and d: "distinct (as @ held s)"
    and dm: "dom (heap (qm s)) = set as \<union> set (held s)"
    and pn: "\<forall>a \<in> set (prod_node (prod_at s)). \<exists>n. heap (qm s) a = Some n \<and> next_p n = None \<and>
        node_c n = next_letter (prod_at s)"
    and l: "letters (qm s) as = [i..<next_letter (prod_at s)]" "ch_a \<le> i" "i \<le> next_letter (prod_at s)"
    and ms: "mset (printed s) + mset (letters (qm s) (unprinted s)) = mset [ch_a..<i]"
    using q unfolding queue_inv_def by auto
  let ?m = "(qm s)\<lparr>heap := (heap (qm s))(a := None)\<rparr>"
  let ?t = "goto_cons k K_lock_q (s\<lparr>qm := ?m, count_cell := cc\<rparr>)"
  have h: "mset (held s) = add_mset a (mset (held ?t))" and u: "unprinted ?t = unprinted s"
    using k by (cases k; simp add: goto_cons_def held_def unprinted_def)+
  have a: "a \<in> set (held s)" using h by (metis set_mset_mset union_single_eq_member)
  have pcs: "prod_at ?t = prod_at s" "printed ?t = printed s" "qm ?t = ?m"
    by (simp_all add: goto_cons_def)
  have dis: "distinct (as @ held ?t)" and na: "a \<notin> set as" "a \<notin> set (held ?t)"
    and dom: "dom (heap ?m) = set as \<union> set (held ?t)"
  proof -
    have eq: "set (held s) = insert a (set (held ?t))" using h by (metis list.simps(15) mset.simps(2) mset_eq_setD)
    have "mset (as @ held s) = mset (a # as @ held ?t)" using h by simp
    then have "distinct (a # as @ held ?t)" using d mset_eq_imp_distinct_iff by blast
    then show "distinct (as @ held ?t)" "a \<notin> set as" "a \<notin> set (held ?t)" by simp_all
    then show "dom (heap ?m) = set as \<union> set (held ?t)" using dm eq by auto
  qed
  have nu: "a \<notin> set (unprinted s)" and np: "a \<notin> set (prod_node (prod_at s))"
    using na unprinted_held [of ?t] u by (auto simp: held_def pcs)
  have pn': "\<forall>x \<in> set (prod_node (prod_at s)). \<exists>n. heap ?m x = Some n \<and> next_p n = None \<and>
        node_c n = next_letter (prod_at s)"
    using pn np by auto
  have "queue_inv ?t"
    unfolding queue_inv_def pcs
    by (intro exI [of _ as] exI [of _ i] conjI dis dom pn' l(2,3))
      (use rep l(1) ms na nu u in \<open>simp_all add: queue_rep_free letters_upd_other\<close>)
  moreover have "heap (qm s) a \<noteq> None" using a dm by blast
  ultimately show ?thesis by blast
qed

lemma running_main:
  assumes "core_inv s" and "cons_at s C_main \<noteq> K_none" and "cons_at s C_main \<noteq> K_done"
  shows "main_at s \<noteq> M_create_prod \<and> main_at s \<noteq> M_create_cons \<and> main_at s \<noteq> M_report \<and>
    main_at s \<noteq> M_destroy \<and> main_at s \<noteq> M_done"
  using assms unfolding core_inv_def life_inv_def by (metis insertCI)

lemma running_prod:
  assumes "core_inv s" and "cons_at s C_prod \<noteq> K_none" and "cons_at s C_prod \<noteq> K_done"
  shows "prod_at s \<noteq> P_none \<and> prod_at s \<noteq> P_create \<and> prod_at s \<noteq> P_report \<and> prod_at s \<noteq> P_done \<and>
    main_at s \<noteq> M_create_prod \<and> main_at s \<noteq> M_join_cons \<and> main_at s \<noteq> M_report \<and>
    main_at s \<noteq> M_destroy \<and> main_at s \<noteq> M_done"
  using assms unfolding core_inv_def life_inv_def by (metis insertCI)

lemma running:
  assumes "core_inv s" and "cons_at s k \<noteq> K_none" and "cons_at s k \<noteq> K_done"
  shows "case k of
      C_main \<Rightarrow> main_at s \<noteq> M_create_prod \<and> main_at s \<noteq> M_create_cons \<and> main_at s \<noteq> M_report \<and>
        main_at s \<noteq> M_destroy \<and> main_at s \<noteq> M_done
    | C_prod \<Rightarrow> prod_at s \<noteq> P_none \<and> prod_at s \<noteq> P_create \<and> prod_at s \<noteq> P_report \<and>
        prod_at s \<noteq> P_done \<and> main_at s \<noteq> M_create_prod \<and> main_at s \<noteq> M_join_cons \<and>
        main_at s \<noteq> M_report \<and> main_at s \<noteq> M_destroy \<and> main_at s \<noteq> M_done"
  using assms running_main [OF assms(1)] running_prod [OF assms(1)] by (cases k) simp_all

lemma cons_cell:
  assumes "core_inv s" and "cons_at s k = K_free a"
  shows "\<exists>c. count_cell s k = Some c"
  using assms running_main [OF assms(1)] running_prod [OF assms(1)]
  by (cases k) (simp_all add: core_inv_def cell_inv_def)

lemma cons_not_destroyed:
  assumes "core_inv s" and "cons_at s k = K_lock_q \<or> cons_at s k = K_lock_n"
  shows "\<not> locks_destroyed s"
proof -
  have "main_at s \<noteq> M_done"
    using assms(2) running_main [OF assms(1)] running_prod [OF assms(1)] by (cases k) fastforce+
  then show ?thesis using assms(1) by (simp add: core_inv_def life_inv_def)
qed

lemmas core_simps_c = pc_inv_def core_inv_def simple_inv_defs cell_val_def uncounted_def cons_quit_def cid_all

lemma cons_step_inv:
  assumes core: "core_inv s" and run: "stopped s = None" and st: "cons_step mem k s = Some t"
  shows "pc_inv t"
proof -
  have q: "queue_inv s" using core by (simp_all add: core_inv_def)
  note live = running [OF core, of k]
  have qc: "queue_inv (goto_cons k p s')"
    if "qm s' = qm s" "printed s' = printed s" "prod_at s' = prod_at s" "cons_at s' = cons_at s"
      "cons_node p = cons_node (cons_at s k)" "cons_unprinted p = cons_unprinted (cons_at s k)" for p s'
    by (rule queue_inv_cong [OF q]) (use that in \<open>auto simp: goto_cons_def\<close>)
  show ?thesis
  proof (cases "cons_at s k")
    case K_start
    show ?thesis
    proof (cases mem)
      case True
      with K_start have t: "t = goto_cons k K_lock_q (s\<lparr>count_cell := (count_cell s)(k := Some 0)\<rparr>)"
        using st by (simp add: cons_step_def)
      have "queue_inv t" unfolding t by (rule qc) (use K_start in auto)
      then show ?thesis using K_start core run live t
        by (cases k) (simp_all add: core_simps_c goto_cons_def)
    qed (use st K_start in \<open>auto simp: cons_step_def\<close>)
  next
    case K_lock_q
    then have t: "t = goto_cons k K_lock_n (s\<lparr>q_lock := Some (TCons k)\<rparr>)" and l: "q_lock s = None"
      using st cons_not_destroyed [OF core, of k] by (auto simp: cons_step_def lock_queue_def split: if_splits)
    have "queue_inv t" unfolding t by (rule qc) (use K_lock_q in auto)
    then show ?thesis using K_lock_q core run live t l
      by (cases k) (simp_all add: core_simps_c goto_cons_def)
  next
    case K_lock_n
    then have t: "t = goto_cons k K_test (s\<lparr>n_lock := Some (TCons k)\<rparr>)" and l: "n_lock s = None"
      using st cons_not_destroyed [OF core, of k] by (auto simp: cons_step_def lock_num_def split: if_splits)
    have "queue_inv t" unfolding t by (rule qc) (use K_lock_n in auto)
    then show ?thesis using K_lock_n core run live t l
      by (cases k) (simp_all add: core_simps_c goto_cons_def)
  next
    case K_test
    have t: "t = goto_cons k (if front_p (qm s) \<noteq> None \<or> g_num_prod s > 0 then K_unlock_n else K_exit_n) s"
      using st K_test by (auto simp: cons_step_def split: if_splits)
    have "queue_inv t" unfolding t by (rule qc) (use K_test in auto)
    then show ?thesis using K_test core run live t
      by (cases k; cases "front_p (qm s) \<noteq> None \<or> g_num_prod s > 0")
        (simp_all add: core_simps_c goto_cons_def split: if_splits)
  next
    case K_unlock_n
    then have t: "t = goto_cons k K_take (s\<lparr>n_lock := None\<rparr>)" using st by (simp add: cons_step_def)
    have "queue_inv t" unfolding t by (rule qc) (use K_unlock_n in auto)
    then show ?thesis using K_unlock_n core run live t
      by (cases k) (simp_all add: core_simps_c goto_cons_def)
  next
    case K_take
    show ?thesis
    proof (cases "front_p (qm s) = None")
      case True
      then have t: "t = goto_cons k (K_unlock_q None) s" using st K_take by (simp add: cons_step_def)
      have "queue_inv t" unfolding t by (rule qc) (use K_take in auto)
      then show ?thesis using K_take core run live t
        by (cases k) (simp_all add: core_simps_c goto_cons_def)
    next
      case False
      then obtain a m where m: "dequeue (qm s) = Inr (a, m)"
          "queue_inv (goto_cons k (K_unlock_q (Some a)) (s\<lparr>qm := m\<rparr>))"
        using queue_inv_take [OF q K_take] by blast
      then have t: "t = goto_cons k (K_unlock_q (Some a)) (s\<lparr>qm := m\<rparr>)"
        using st K_take False by (simp add: cons_step_def)
      have "cons_at s C_prod \<noteq> K_done"
        using core False by (auto simp: core_inv_def quit_inv_def cons_quit_def)
      then have "prod_at s \<noteq> P_report \<and> prod_at s \<noteq> P_done"
        using core by (auto simp: core_inv_def life_inv_def)
      then show ?thesis using K_take core run live t m False
        by (cases k) (simp_all add: core_simps_c goto_cons_def)
    qed
  next
    case (K_unlock_q x)
    then have t: "t = goto_cons k (case x of None \<Rightarrow> K_lock_q | Some a \<Rightarrow> K_print a) (s\<lparr>q_lock := None\<rparr>)"
      using st by (simp add: cons_step_def)
    have "queue_inv t" unfolding t by (rule qc) (use K_unlock_q in \<open>auto split: option.splits\<close>)
    then show ?thesis using K_unlock_q core run live t
      by (cases k; cases x) (simp_all add: core_simps_c goto_cons_def)
  next
    case (K_print a)
    then obtain n where n: "heap (qm s) a = Some n"
        "queue_inv (goto_cons k (K_free a) (s\<lparr>printed := printed s @ [node_c n]\<rparr>))"
      using queue_inv_print [OF q] by blast
    then have t: "t = goto_cons k (K_free a) (s\<lparr>printed := printed s @ [node_c n]\<rparr>)"
      using st K_print by (simp add: cons_step_def)
    show ?thesis using K_print core run live t n
      by (cases k) (simp_all add: core_simps_c goto_cons_def)
  next
    case (K_free a)
    then obtain c where c: "count_cell s k = Some c" using cons_cell [OF core] by blast
    let ?cc = "(count_cell s)(k := Some (Suc c))"
    have f: "heap (qm s) a \<noteq> None"
        "queue_inv (goto_cons k K_lock_q (s\<lparr>qm := (qm s)\<lparr>heap := (heap (qm s))(a := None)\<rparr>, count_cell := ?cc\<rparr>))"
      using queue_inv_free [OF q K_free, of ?cc] by blast+
    then have t: "t = goto_cons k K_lock_q
        (s\<lparr>qm := (qm s)\<lparr>heap := (heap (qm s))(a := None)\<rparr>, count_cell := ?cc\<rparr>)"
      using st K_free c by (auto simp: cons_step_def split: if_splits)
    show ?thesis using K_free core run live t f c
      by (cases k) (simp_all add: core_simps_c goto_cons_def)
  next
    case K_exit_n
    then have t: "t = goto_cons k K_exit_q (s\<lparr>n_lock := None\<rparr>)" using st by (simp add: cons_step_def)
    have "queue_inv t" unfolding t by (rule qc) (use K_exit_n in auto)
    then show ?thesis using K_exit_n core run live t
      by (cases k) (simp_all add: core_simps_c goto_cons_def)
  next
    case K_exit_q
    then have t: "t = goto_cons k K_done (s\<lparr>q_lock := None\<rparr>)" using st by (simp add: cons_step_def)
    have "queue_inv t" unfolding t by (rule qc) (use K_exit_q in auto)
    then show ?thesis using K_exit_q core run live t
      by (cases k) (simp_all add: core_simps_c goto_cons_def)
  qed (use st in \<open>auto simp: cons_step_def\<close>)
qed

end
