(* ===== verification/ProducerConsumerProgress.thy ===== *)
theory ProducerConsumerProgress
  imports ProducerConsumer
begin

text \<open>
  Properties of every run of \<^verbatim>\<open>prelab/producer_consumer.c\<close>, from the invariant of
  \<^verbatim>\<open>ProducerConsumer\<close>, and the argument that a run can always be completed: a weight of
  a state that some enabled thread decreases until the main thread has ended. The weight of a
  consumer depends on whether there is something to take, so that a consumer that only spins
  on an empty queue does not count as progress.
\<close>

section \<open>Weights\<close>

fun main_weight :: "main_pc \<Rightarrow> nat" where
  "main_weight M_create_prod = 6"
| "main_weight M_create_cons = 5"
| "main_weight M_join_prod = 4"
| "main_weight M_join_cons = 3"
| "main_weight M_report = 2"
| "main_weight M_destroy = 1"
| "main_weight _ = 0"

fun prod_weight :: "prod_pc \<Rightarrow> nat" where
  "prod_weight P_none = 200 * 26 + 61"
| "prod_weight P_create = 200 * 26 + 60"
| "prod_weight (P_loop c) = 200 * (Suc ch_z - c) + 50"
| "prod_weight (P_lock c a) = 200 * (Suc ch_z - c) + 45"
| "prod_weight (P_insert c a) = 200 * (Suc ch_z - c) + 40"
| "prod_weight (P_unlock c) = 200 * (ch_z - c) + 60"
| "prod_weight P_lock_num = 48"
| "prod_weight P_dec = 46"
| "prod_weight P_unlock_num = 10"
| "prod_weight P_join = 9"
| "prod_weight P_report = 8"
| "prod_weight _ = 0"

fun cons_weight :: "bool \<Rightarrow> bool \<Rightarrow> cons_pc \<Rightarrow> nat" where
  "cons_weight idle fin K_none = 13"
| "cons_weight idle fin K_start = 12"
| "cons_weight idle fin K_lock_q = (if idle then 0 else 8)"
| "cons_weight idle fin K_lock_n = (if idle then 6 else 7)"
| "cons_weight idle fin K_test = (if idle then 5 else 6)"
| "cons_weight idle fin K_unlock_n = (if idle then 4 else if fin then 12 else 5)"
| "cons_weight idle fin K_take = (if idle then 3 else if fin then 11 else 4)"
| "cons_weight idle fin (K_unlock_q None) = (if idle then 1 else 10)"
| "cons_weight idle fin (K_unlock_q (Some a)) = 11"
| "cons_weight idle fin (K_print a) = 10"
| "cons_weight idle fin (K_free a) = 9"
| "cons_weight idle fin K_exit_n = 2"
| "cons_weight idle fin K_exit_q = 1"
| "cons_weight idle fin K_done = 0"

definition pc_weight :: "pc_state \<Rightarrow> addr list \<Rightarrow> nat" where
  "pc_weight s as =
     (let idle = (as = [] \<and> \<not> prod_past_dec (prod_at s)); fin = (as = [] \<and> prod_past_dec (prod_at s))
      in main_weight (main_at s) + prod_weight (prod_at s) + 50 * length as +
         cons_weight idle fin (cons_at s C_main) + cons_weight idle fin (cons_at s C_prod))"

text \<open>A step that brings the program closer to its end.\<close>

definition advances :: "pthread_env \<Rightarrow> pc_state \<Rightarrow> addr list \<Rightarrow> bool" where
  "advances env s as \<longleftrightarrow> (\<exists>t bs. pc_step env s t \<and> stopped t = None \<and> queue_rep (qm t) bs \<and>
     pc_weight t bs < pc_weight s as)"

lemma cons_weight_le: "cons_weight i f p \<le> 13"
  by (induction i f p rule: cons_weight.induct) auto

lemma advancesI:
  "pc_step env s t \<Longrightarrow> stopped t = None \<Longrightarrow> queue_rep (qm t) bs \<Longrightarrow> pc_weight t bs < pc_weight s as \<Longrightarrow>
   advances env s as"
  unfolding advances_def by blast

lemma main_advances:
  assumes core: "core_inv s" and run: "stopped s = None" and ok: "\<forall>t. join_ok env t" "\<forall>t. create_ok env t"
    and rep: "queue_rep (qm s) as"
    and at: "main_at s \<noteq> M_done" "main_at s = M_join_prod \<longrightarrow> prod_at s = P_done"
      "main_at s = M_join_cons \<longrightarrow> cons_at s C_main = K_done"
  shows "advances env s as"
proof -
  show ?thesis
  proof (cases "main_at s")
    case M_create_prod
    have p: "prod_at s = P_none" using core M_create_prod by (simp add: core_inv_def life_inv_def)
    show ?thesis
      by (rule advancesI [OF step_main [OF run], of _ "s\<lparr>prod_at := P_create, main_at := M_create_cons\<rparr>" as])
        (use M_create_prod ok run rep p in \<open>simp_all add: main_step_def pc_weight_def prod_past_dec_def Let_def\<close>)
  next
    case M_create_cons
    have p: "cons_at s C_main = K_none" using core M_create_cons by (simp add: core_inv_def life_inv_def)
    show ?thesis
      by (rule advancesI [OF step_main [OF run], of _
            "s\<lparr>cons_at := (cons_at s)(C_main := K_start), main_at := M_join_prod\<rparr>" as])
        (use M_create_cons ok run rep p in \<open>simp_all add: main_step_def pc_weight_def Let_def\<close>)
  next
    case M_join_prod
    show ?thesis
      by (rule advancesI [OF step_main [OF run], of _ "s\<lparr>main_at := M_join_cons\<rparr>" as])
        (use M_join_prod ok run rep at in \<open>simp_all add: main_step_def pc_weight_def Let_def\<close>)
  next
    case M_join_cons
    show ?thesis
      by (rule advancesI [OF step_main [OF run], of _ "s\<lparr>main_at := M_report\<rparr>" as])
        (use M_join_cons ok run rep at in \<open>simp_all add: main_step_def pc_weight_def Let_def\<close>)
  next
    case M_report
    have "cons_at s C_main = K_done" using core M_report by (simp add: core_inv_def life_inv_def)
    then obtain c where c: "count_cell s C_main = Some c"
      using core M_report by (auto simp: core_inv_def cell_inv_def)
    show ?thesis
      by (rule advancesI [OF step_main [OF run], of _ "s\<lparr>reports := reports s @ [c],
                     count_cell := (count_cell s)(C_main := None), main_at := M_destroy\<rparr>" as])
        (use M_report c run rep in \<open>simp_all add: main_step_def pc_weight_def Let_def\<close>)
  next
    case M_destroy
    show ?thesis
      by (rule advancesI [OF step_main [OF run], of _ "s\<lparr>locks_destroyed := True, main_at := M_done\<rparr>" as])
        (use M_destroy run rep in \<open>simp_all add: main_step_def pc_weight_def Let_def\<close>)
  qed (use at core in \<open>simp_all add: core_inv_def life_inv_def\<close>)
qed


lemma core_rep: "core_inv s \<Longrightarrow> queue_rep (qm s) as \<Longrightarrow> queue_inv s \<and> finite (dom (heap (qm s)))"
  by (auto simp: core_inv_def queue_inv_def)

lemma prod_advances:
  assumes core: "core_inv s" and run: "stopped s = None" and ok: "\<forall>t. join_ok env t" "\<forall>t. create_ok env t"
    and rep: "queue_rep (qm s) as"
    and at: "prod_at s \<noteq> P_none" "prod_at s \<noteq> P_done"
      "\<forall>c a. prod_at s = P_lock c a \<longrightarrow> q_lock s = None" "prod_at s = P_lock_num \<longrightarrow> n_lock s = None"
      "prod_at s = P_join \<longrightarrow> cons_at s C_prod = K_done"
  shows "advances env s as"
proof -
  have q: "queue_inv s" and fin: "finite (dom (heap (qm s)))" and rng: "letter_range (prod_at s)"
    and nd: "\<not> locks_destroyed s"
    using core core_rep [OF core rep] at(2) by (auto simp: core_inv_def num_inv_def life_inv_def)
  note w = cons_weight_le
  show ?thesis
  proof (cases "prod_at s")
    case P_create
    have p: "cons_at s C_prod = K_none" using core P_create by (simp add: core_inv_def life_inv_def)
    show ?thesis
      by (rule advancesI [OF step_prod [OF run], of _ "Some 0" None "s\<lparr>cons_at := (cons_at s)(C_prod := K_start), prod_at := P_loop ch_a\<rparr>" as])
        (use P_create ok run rep p in \<open>simp_all add: prod_step_def pc_weight_def prod_past_dec_def Let_def ch_a_def ch_z_def\<close>)
  next
    case (P_loop c)
    show ?thesis
    proof (cases "c \<le> ch_z")
      case True
      obtain a where a: "heap (qm s) a = None"
        using fin ex_new_if_finite [of "dom (heap (qm s))"] infinite_UNIV_nat by blast
      let ?m = "(qm s)\<lparr>heap := (heap (qm s))(a \<mapsto> \<lparr>next_p = None, prev_p = None, node_c = c\<rparr>)\<rparr>"
      have "a \<notin> set as" using a queue_rep_alloc [OF rep] by fastforce
      then have "queue_rep ?m as" using rep by (simp add: queue_rep_frame)
      then show ?thesis
        by (intro advancesI [OF step_prod [OF run], of _ "Some a" None "s\<lparr>qm := ?m, prod_at := P_lock c a\<rparr>" as])
         (use P_loop True a run in \<open>simp_all add: prod_step_def pc_weight_def prod_past_dec_def Let_def\<close>)
    next
      case False
      show ?thesis
        by (rule advancesI [OF step_prod [OF run], of _ "Some 0" None "s\<lparr>prod_at := P_lock_num\<rparr>" as])
          (use P_loop False rng run rep in \<open>simp_all add: prod_step_def pc_weight_def prod_past_dec_def Let_def\<close>)
    qed
  next
    case (P_lock c x)
    show ?thesis
      by (rule advancesI [OF step_prod [OF run], of _ "Some 0" None "s\<lparr>q_lock := Some TProd, prod_at := P_insert c x\<rparr>" as])
        (use P_lock at nd run rep in \<open>simp_all add: prod_step_def lock_queue_def pc_weight_def prod_past_dec_def Let_def\<close>)
  next
    case (P_insert c x)
    obtain m where m: "enqueue x (qm s) = Inr m" "queue_rep m (as @ [x])"
    proof -
      obtain bs n where b: "queue_rep (qm s) bs" "x \<notin> set bs" "heap (qm s) x = Some n" "next_p n = None"
        using q P_insert by (auto simp: queue_inv_def held_def)
      then have "bs = as" using queue_rep_unique [OF _ rep] by blast
      then show thesis using b enqueue_correct [OF rep] that by blast
    qed
    have c: "Suc ch_z - c = Suc (ch_z - c)" using rng P_insert by (simp add: Suc_diff_le)
    show ?thesis
      by (rule advancesI [OF step_prod [OF run], of _ "Some 0" None "s\<lparr>qm := m, prod_at := P_unlock c\<rparr>" "as @ [x]"])
        (use P_insert m run c w [of False False "cons_at s C_main"] w [of False False "cons_at s C_prod"]
          in \<open>simp_all add: prod_step_def pc_weight_def prod_past_dec_def Let_def\<close>)
  next
    case (P_unlock c)
    show ?thesis
      by (rule advancesI [OF step_prod [OF run], of _ "Some 0" None "s\<lparr>q_lock := None, prod_at := P_loop (Suc c)\<rparr>" as])
        (use P_unlock run rep in \<open>simp_all add: prod_step_def pc_weight_def prod_past_dec_def Let_def\<close>)
  next
    case P_lock_num
    show ?thesis
      by (rule advancesI [OF step_prod [OF run], of _ "Some 0" None "s\<lparr>n_lock := Some TProd, prod_at := P_dec\<rparr>" as])
        (use P_lock_num at nd run rep in \<open>simp_all add: prod_step_def lock_num_def pc_weight_def prod_past_dec_def Let_def\<close>)
  next
    case P_dec
    show ?thesis
      by (rule advancesI [OF step_prod [OF run], of _ "Some 0" None "s\<lparr>g_num_prod := g_num_prod s - 1, prod_at := P_unlock_num\<rparr>" as])
        (use P_dec run rep w [of False "as = []" "cons_at s C_main"] w [of False "as = []" "cons_at s C_prod"]
          in \<open>simp_all add: prod_step_def pc_weight_def prod_past_dec_def Let_def\<close>)
  next
    case P_unlock_num
    show ?thesis
      by (rule advancesI [OF step_prod [OF run], of _ "Some 0" None "s\<lparr>n_lock := None, prod_at := P_join\<rparr>" as])
        (use P_unlock_num run rep in \<open>simp_all add: prod_step_def pc_weight_def prod_past_dec_def Let_def\<close>)
  next
    case P_join
    show ?thesis
      by (rule advancesI [OF step_prod [OF run], of _ "Some 0" None "s\<lparr>prod_at := P_report\<rparr>" as])
        (use P_join at ok run rep in \<open>simp_all add: prod_step_def pc_weight_def prod_past_dec_def Let_def\<close>)
  next
    case P_report
    have "cons_at s C_prod = K_done" using core P_report by (simp add: core_inv_def life_inv_def)
    then obtain c where c: "count_cell s C_prod = Some c"
      using core P_report by (auto simp: core_inv_def cell_inv_def)
    show ?thesis
      by (rule advancesI [OF step_prod [OF run], of _ "Some 0" None "s\<lparr>reports := reports s @ [c],
            count_cell := (count_cell s)(C_prod := None), prod_at := P_done\<rparr>" as])
        (use P_report c run rep in \<open>simp_all add: prod_step_def pc_weight_def prod_past_dec_def Let_def\<close>)
  qed (use at core in \<open>simp_all add: core_inv_def life_inv_def\<close>)
qed

lemma cons_weight_goto:
  assumes "prod_at t = prod_at s" and "main_at t = main_at s" and "cons_at t = (cons_at s)(k := p)"
    and "cons_weight (as = [] \<and> \<not> prod_past_dec (prod_at s)) (as = [] \<and> prod_past_dec (prod_at s)) p <
      cons_weight (as = [] \<and> \<not> prod_past_dec (prod_at s)) (as = [] \<and> prod_past_dec (prod_at s)) (cons_at s k)"
  shows "pc_weight t as < pc_weight s as"
  using assms by (cases k) (simp_all add: pc_weight_def Let_def)

section \<open>Some thread always makes progress\<close>

lemma cons_advances:
  assumes core: "core_inv s" and run: "stopped s = None" and rep: "queue_rep (qm s) as"
    and at: "cons_at s k \<noteq> K_none" "cons_at s k \<noteq> K_done"
      "cons_at s k = K_lock_q \<longrightarrow> q_lock s = None \<and> (as \<noteq> [] \<or> prod_past_dec (prod_at s))"
      "cons_at s k = K_lock_n \<longrightarrow> n_lock s = None"
  shows "advances env s as"
proof -
  have q: "queue_inv s" using core by (simp add: core_inv_def)
  have fr: "front_p (qm s) = None \<longleftrightarrow> as = []" using queue_rep_front [OF rep] .
  have np: "g_num_prod s > 0 \<longleftrightarrow> \<not> prod_past_dec (prod_at s)" using core by (simp add: core_inv_def num_inv_def)
  let ?w = "cons_weight (as = [] \<and> \<not> prod_past_dec (prod_at s)) (as = [] \<and> prod_past_dec (prod_at s))"
  have go: "advances env s as"
    if "cons_step True k s = Some (goto_cons k p s')" "qm s' = qm s" "prod_at s' = prod_at s" "main_at s' = main_at s"
      "cons_at s' = cons_at s" "stopped s' = None" "?w p < ?w (cons_at s k)" for p s'
  proof (rule advancesI [OF step_cons [OF run that(1)]])
    show "pc_weight (goto_cons k p s') as < pc_weight s as"
      by (rule cons_weight_goto [where p = p]) (use that in \<open>simp_all add: goto_cons_def\<close>)
  qed (use that rep in \<open>simp_all add: goto_cons_def\<close>)
  show ?thesis
  proof (cases "cons_at s k")
    case K_start
    show ?thesis by (rule go [of K_lock_q "s\<lparr>count_cell := (count_cell s)(k := Some 0)\<rparr>"])
       (use K_start run in \<open>simp_all add: cons_step_def\<close>)
  next
    case K_lock_q
    show ?thesis by (rule go [of K_lock_n "s\<lparr>q_lock := Some (TCons k)\<rparr>"])
       (use K_lock_q run at cons_not_destroyed [OF core, of k] in \<open>auto simp add: cons_step_def lock_queue_def\<close>)
  next
    case K_lock_n
    show ?thesis by (rule go [of K_test "s\<lparr>n_lock := Some (TCons k)\<rparr>"])
       (use K_lock_n run at cons_not_destroyed [OF core, of k] in \<open>auto simp add: cons_step_def lock_num_def\<close>)
  next
    case K_test
    show ?thesis by (rule go [of "if as \<noteq> [] \<or> \<not> prod_past_dec (prod_at s) then K_unlock_n else K_exit_n" s])
       (use K_test run fr np in \<open>auto simp add: cons_step_def\<close>)
  next
    case K_unlock_n
    show ?thesis by (rule go [of K_take "s\<lparr>n_lock := None\<rparr>"]) (use K_unlock_n run in \<open>auto simp add: cons_step_def\<close>)
  next
    case K_take
    show ?thesis
    proof (cases as)
      case Nil
      show ?thesis by (rule go [of "K_unlock_q None" s]) (use Nil fr K_take run in \<open>auto simp add: cons_step_def\<close>)
    next
      case (Cons x bs)
      then obtain m where m: "dequeue (qm s) = Inr (x, m)" "queue_rep m bs"
        using dequeue_correct rep by blast
      let ?t = "goto_cons k (K_unlock_q (Some x)) (s\<lparr>qm := m\<rparr>)"
      have w: "cons_weight i f p < 43 + n" for i f p n using cons_weight_le [of i f p] by simp
      have "pc_weight ?t bs < pc_weight s as"
        using K_take Cons by (cases k) (simp_all add: pc_weight_def Let_def goto_cons_def w)
      then show ?thesis
        by (intro advancesI [OF step_cons [OF run], of True k _ bs]) (use K_take Cons fr m run in \<open>auto simp: cons_step_def goto_cons_def\<close>)
    qed
  next
    case (K_unlock_q x)
    show ?thesis by (rule go [of "case x of None \<Rightarrow> K_lock_q | Some a \<Rightarrow> K_print a" "s\<lparr>q_lock := None\<rparr>"])
       (use K_unlock_q run in \<open>auto simp add: cons_step_def split: option.splits\<close>)
  next
    case (K_print a)
    then obtain n where "heap (qm s) a = Some n" using queue_inv_print [OF q] by blast
    then show ?thesis by (intro go [of "K_free a" "s\<lparr>printed := printed s @ [node_c n]\<rparr>"])
       (use K_print run in \<open>auto simp add: cons_step_def\<close>)
  next
    case (K_free a)
    obtain c where c: "count_cell s k = Some c" using cons_cell [OF core K_free] by blast
    have a: "heap (qm s) a \<noteq> None" using queue_inv_free [OF q K_free] by blast
    let ?m = "(qm s)\<lparr>heap := (heap (qm s))(a := None)\<rparr>"
    let ?t = "goto_cons k K_lock_q (s\<lparr>qm := ?m, count_cell := (count_cell s)(k := Some (Suc c))\<rparr>)"
    have "a \<notin> set as"
    proof -
      obtain bs where b: "queue_rep (qm s) bs" "distinct (bs @ held s)" using q by (auto simp: queue_inv_def)
      moreover have "a \<in> set (held s)" using K_free by (cases k) (auto simp: held_def)
      ultimately show ?thesis using queue_rep_unique [OF b(1) rep] by auto
    qed
    then have r: "queue_rep ?m as" using rep by (simp add: queue_rep_free)
    show ?thesis
    proof (rule advancesI [OF step_cons [OF run], of True k ?t as])
      show "pc_weight ?t as < pc_weight s as"
        by (rule cons_weight_goto [where p = K_lock_q and k = k]) (simp_all add: goto_cons_def K_free)
    qed (use K_free c a r run in \<open>auto simp: cons_step_def goto_cons_def\<close>)
  next
    case K_exit_n
    show ?thesis by (rule go [of K_exit_q "s\<lparr>n_lock := None\<rparr>"]) (use K_exit_n run in \<open>auto simp add: cons_step_def\<close>)
  next
    case K_exit_q
    show ?thesis by (rule go [of K_done "s\<lparr>q_lock := None\<rparr>"]) (use K_exit_q run in \<open>auto simp add: cons_step_def\<close>)
  qed (use at in simp_all)
qed

lemma some_thread_advances:
  assumes core: "core_inv s" and run: "stopped s = None" and ok: "\<forall>t. join_ok env t" "\<forall>t. create_ok env t"
    and rep: "queue_rep (qm s) as" and "main_at s \<noteq> M_done"
  shows "advances env s as"
proof -
  note ca = cons_advances [OF core run rep]
  note pa = prod_advances [OF core run ok rep]
  note ma = main_advances [OF core run ok rep]
  have lock: "lock_inv s" using core by (simp add: core_inv_def)
  show ?thesis
  proof (cases "\<exists>k. cons_at s k \<notin> {K_none, K_done, K_lock_q, K_lock_n}")
    case True
    then show ?thesis using ca by auto
  next
    case False
    then have cs: "cons_at s k \<in> {K_none, K_done, K_lock_q, K_lock_n}" for k by auto
    have nn: "n_lock s = Some t \<Longrightarrow> t = TProd" for t
    proof -
      assume n: "n_lock s = Some t"
      have "\<not> cons_holds_n (cons_at s k)" for k using cs [of k] by auto
      then show "t = TProd" using lock n by (cases t) (auto simp: lock_inv_def)
    qed
    show ?thesis
    proof (cases "\<exists>k. cons_at s k = K_lock_n")
      case True
      then obtain k where k: "cons_at s k = K_lock_n" by blast
      show ?thesis
      proof (cases "n_lock s")
        case None
        then show ?thesis using ca [of k] k by simp
      next
        case (Some t)
        then have "prod_holds_n (prod_at s)" using nn lock by (auto simp: lock_inv_def)
        then show ?thesis using pa by (cases "prod_at s") auto
      qed
    next
      case False
      then have cs': "cons_at s k \<in> {K_none, K_done, K_lock_q}" for k using cs by auto
      have qf: "q_lock s = None \<or> prod_holds_q (prod_at s)"
      proof (cases "q_lock s")
        case (Some t)
        have "\<not> cons_holds_q (cons_at s k)" for k using cs' [of k] by auto
        then show ?thesis using lock Some by (cases t) (auto simp: lock_inv_def)
      qed simp
      have nf: "n_lock s = None \<or> prod_holds_n (prod_at s)"
        using nn lock by (cases "n_lock s") (auto simp: lock_inv_def)
      show ?thesis
      proof (cases "prod_at s = P_none \<or> prod_at s = P_done \<or> prod_at s = P_join \<and> cons_at s C_prod \<noteq> K_done")
        case False
        then show ?thesis using pa qf nf by (cases "prod_at s") auto
      next
        case stuck: True
        have life: "life_inv s" using core by (simp add: core_inv_def)
        show ?thesis
        proof (cases "prod_at s = P_join \<and> cons_at s C_prod \<noteq> K_done")
          case True
          then have "cons_at s C_prod = K_lock_q" using cs' [of C_prod] life by (auto simp: life_inv_def)
          then show ?thesis using ca [of C_prod] True qf by (auto simp: prod_past_dec_def)
        next
          case False
          then have p: "prod_at s = P_none \<or> prod_at s = P_done" using stuck by blast
          show ?thesis
          proof (cases "main_at s = M_join_cons \<and> cons_at s C_main \<noteq> K_done")
            case True
            then have "cons_at s C_main = K_lock_q" "prod_at s = P_done"
              using cs' [of C_main] life by (auto simp: life_inv_def)
            then show ?thesis using ca [of C_main] True qf by (auto simp: prod_past_dec_def)
          next
            case False
            moreover have "prod_at s = P_none \<longrightarrow> main_at s = M_create_prod" using life by (simp add: life_inv_def)
            ultimately show ?thesis using p assms(6) by (intro ma) auto
          qed
        qed
      qed
    qed
  qed
qed

section \<open>Reachable states\<close>

text \<open>Every library call succeeds.\<close>

definition all_ok :: pthread_env where
  "all_ok = \<lparr>create_ok = (\<lambda>_. True), join_ok = (\<lambda>_. True)\<rparr>"

lemma pc_step_inv:
  assumes "pc_inv s" and "\<forall>t. join_ok env t" and "pc_step env s t"
  shows "pc_inv t"
  using assms(3)
proof cases
  case step_main
  then show ?thesis using assms(1,2) main_step_inv by (auto simp: pc_inv_def)
next
  case (step_prod mem junk)
  then show ?thesis using assms(1,2) prod_step_inv by (auto simp: pc_inv_def)
next
  case (step_cons got k)
  then show ?thesis using assms(1) cons_step_inv by (auto simp: pc_inv_def)
qed

lemma pc_inv_init: "pc_inv pc_init" "stopped pc_init = None"
proof -
  show "stopped pc_init = None" by (simp add: pc_init_def)
  then show "pc_inv pc_init" using core_inv_init by (simp add: pc_inv_def)
qed

interpretation pcs: inductive_invariant "\<lambda>s. s = pc_init" "pc_step env"
    "\<lambda>s. (\<forall>t. join_ok env t) \<longrightarrow> pc_inv s" for env
  by unfold_locales (auto simp: pc_inv_init intro: pc_step_inv)

lemma reachable_core:
  assumes "pc_reachable env s" and "\<forall>t. join_ok env t" and "stopped s = None"
  shows "core_inv s"
  using pcs.inv_reachable [OF assms(1)] assms(2,3) by (auto simp: pc_inv_def)

lemma run_to_end:
  assumes "pc_inv s" and "stopped s = None" and "queue_rep (qm s) as"
    and "\<forall>t. join_ok env t" and "\<forall>t. create_ok env t"
  shows "\<exists>t. (pc_step env)\<^sup>*\<^sup>* s t \<and> main_at t = M_done \<and> stopped t = None"
  using assms(1-3)
proof (induction "pc_weight s as" arbitrary: s as rule: less_induct)
  case less
  show ?case
  proof (cases "main_at s = M_done")
    case False
    have "core_inv s" using less.prems by (simp add: pc_inv_def)
    from some_thread_advances [OF this less.prems(2) assms(4,5) less.prems(3) False]
    obtain u bs where u: "pc_step env s u" "stopped u = None" "queue_rep (qm u) bs"
        "pc_weight u bs < pc_weight s as"
      by (auto simp: advances_def)
    have "pc_inv u" using pc_step_inv [OF less.prems(1) assms(4) u(1)] .
    from less.hyps [OF u(4) this u(2,3)] u(1) show ?thesis
      by (meson converse_rtranclp_into_rtranclp)
  qed (use less.prems in auto)
qed

lemma reachable_rtranclp: "(pc_step env)\<^sup>*\<^sup>* s t \<Longrightarrow> pc_reachable env s \<Longrightarrow> pc_reachable env t"
  by (induction rule: rtranclp_induct) (auto intro: reachable_step)

lemma completed_run_exists: "\<exists>s. pc_reachable all_ok s \<and> main_at s = M_done \<and> stopped s = None"
proof -
  have "queue_rep (qm pc_init) []" by (simp add: pc_init_def queue_rep_def)
  then obtain t where "(pc_step all_ok)\<^sup>*\<^sup>* pc_init t" "main_at t = M_done" "stopped t = None"
    using run_to_end [OF pc_inv_init, of "[]" all_ok] by (auto simp: all_ok_def)
  moreover have "pc_reachable all_ok pc_init" by (rule reachable_start) simp
  ultimately show ?thesis using reachable_rtranclp by blast
qed

section \<open>Properties\<close>

text \<open>
  C33: the producer, the two consumers and the main thread never fail an assertion, never use a
  freed pointer, never free a node twice, never touch a destroyed mutex, and use a null pointer only
  when \<open>malloc\<close> has returned it: if joins succeed, a run stops only with \<open>exit(1)\<close>, after a
  failed \<open>pthread_create\<close>, or with the dereference of a null pointer right after a failed \<open>malloc\<close>,
  whose result the code does not check.
\<close>

theorem producer_consumer_no_fault:
  assumes "pc_reachable env s" and "\<forall>t. join_ok env t"
  shows "stopped s = None \<or> stopped s = Some (Exit 1) \<or> stopped s = Some BadPointer \<and> null_malloc s"
  using pcs.inv_reachable [OF assms(1)] assms(2) by (auto simp: pc_inv_def)

lemma null_malloc_reachable: "\<exists>s. pc_reachable all_ok s \<and> stopped s = Some BadPointer"
proof -
  let ?s = "pc_init\<lparr>prod_at := P_create, main_at := M_create_cons\<rparr>"
  let ?t = "?s\<lparr>cons_at := (cons_at ?s)(C_prod := K_start), prod_at := P_loop ch_a\<rparr>"
  have "pc_reachable all_ok pc_init" by (rule reachable_start) simp
  moreover have "pc_step all_ok pc_init ?s"
    by (rule step_main) (simp_all add: pc_init_def main_step_def all_ok_def)
  moreover have "pc_step all_ok ?s ?t"
    by (rule step_prod [of _ _ None None]) (simp_all add: pc_init_def prod_step_def all_ok_def)
  moreover have "pc_step all_ok ?t (malloc_null ?t)"
    by (rule step_prod [of _ _ None None]) (simp_all add: pc_init_def prod_step_def ch_a_def ch_z_def)
  ultimately have "pc_reachable all_ok (malloc_null ?t)" by (blast intro: reachable_step)
  then show ?thesis by (intro exI [of _ "malloc_null ?t"]) (simp add: malloc_null_def stop_def)
qed

theorem producer_consumer_no_fault_witness:
  "\<exists>(s :: pc_state) (t :: pc_state). main_at s = M_done \<and> (stopped s = None \<or> stopped s = Some (Exit 1) \<or> stopped s = Some BadPointer \<and> null_malloc s) \<and>
     stopped t = Some BadPointer \<and> null_malloc t"
proof -
  obtain s t where "pc_reachable all_ok s" "main_at s = M_done" "pc_reachable all_ok t" "stopped t = Some BadPointer"
    using completed_run_exists null_malloc_reachable by blast
  moreover have "\<forall>t. join_ok all_ok t" by (simp add: all_ok_def)
  ultimately have "stopped s = None \<or> stopped s = Some (Exit 1) \<or> stopped s = Some BadPointer \<and> null_malloc s"
    and "null_malloc t" and "main_at s = M_done" and "stopped t = Some BadPointer"
    using producer_consumer_no_fault [of all_ok s] producer_consumer_no_fault [of all_ok t] by auto
  then show ?thesis by blast
qed

text \<open>
  C11: when the main thread ends, the letters \<open>a\<close> to \<open>z\<close> have each been printed exactly once,
  the two reported counts add up to 26, both counters and every queue node have been freed, and
  no mutex is held.
\<close>

theorem all_letters_printed_once:
  assumes "pc_reachable env s" and "\<forall>t. join_ok env t" and "stopped s = None" and "main_at s = M_done"
  shows "mset (printed s) = mset [97..<123] \<and> sum_list (reports s) = 26 \<and>
    dom (heap (qm s)) = {} \<and> (\<forall>k. count_cell s k = None) \<and> q_lock s = None \<and> n_lock s = None"
proof -
  have core: "core_inv s" by (rule reachable_core [OF assms(1-3)])
  then have pcs: "prod_at s = P_done" "cons_at s C_main = K_done" "cons_at s C_prod = K_done"
    using assms(4) by (auto simp: core_inv_def life_inv_def)
  then have empty: "front_p (qm s) = None"
    using core by (auto simp: core_inv_def quit_inv_def cons_quit_def)
  obtain as i where rep: "queue_rep (qm s) as" and dm: "dom (heap (qm s)) = set as \<union> set (held s)"
    and l: "letters (qm s) as = [i..<Suc ch_z]" "i \<le> Suc ch_z"
    and ms: "mset (printed s) + mset (letters (qm s) (unprinted s)) = mset [ch_a..<i]"
    using core pcs unfolding core_inv_def queue_inv_def by auto
  have as: "as = []" using queue_rep_front [OF rep] empty by simp
  then have i: "i = Suc ch_z" using l by (simp add: letters_def split: if_splits)
  have none: "held s = []" "unprinted s = []" using pcs by (simp_all add: held_def unprinted_def)
  have printed: "mset (printed s) = mset [97..<123]"
    using ms i none by (simp add: letters_def ch_a_def ch_z_def)
  then have "length (printed s) = 26" using mset_eq_length [OF printed] by simp
  moreover have cells: "\<forall>k. count_cell s k = None"
    using core pcs assms(4) by (simp add: core_inv_def cell_inv_def cid_all)
  ultimately have "sum_list (reports s) = 26"
    using core pcs by (simp add: core_inv_def count_inv_def cell_val_def uncounted_def)
  moreover have "q_lock s = None" and "n_lock s = None"
  proof -
    have "cons_at s k = K_done" for k using pcs by (cases k) auto
    then have "q_lock s \<noteq> Some t \<and> n_lock s \<noteq> Some t" for t
      using core pcs by (cases t) (auto simp: core_inv_def lock_inv_def)
    then show "q_lock s = None" and "n_lock s = None" by (metis not_Some_eq)+
  qed
  ultimately show ?thesis using printed dm as none cells by simp
qed

theorem all_letters_printed_once_witness:
  "\<exists>s :: pc_state. main_at s = M_done \<and> mset (printed s) = mset [97..<123] \<and> sum_list (reports s) = 26"
proof -
  obtain s where "pc_reachable all_ok s" "main_at s = M_done" "stopped s = None"
    using completed_run_exists by blast
  moreover have "\<forall>t. join_ok all_ok t" by (simp add: all_ok_def)
  ultimately show ?thesis using all_letters_printed_once by blast
qed

text \<open>
  C23: the program is free of deadlock and livelock: from every state a run can reach, if the
  library calls succeed, the threads can be scheduled so that the main thread ends.
\<close>

theorem producer_consumer_can_complete:
  assumes "pc_reachable env s" and "\<forall>t. join_ok env t" and "\<forall>t. create_ok env t" and "stopped s = None"
  shows "\<exists>t. (pc_step env)\<^sup>*\<^sup>* s t \<and> main_at t = M_done \<and> stopped t = None"
proof -
  have "core_inv s" by (rule reachable_core [OF assms(1,2,4)])
  then obtain as where "queue_rep (qm s) as" by (auto simp: core_inv_def queue_inv_def)
  moreover have "pc_inv s" using \<open>core_inv s\<close> assms(4) by (simp add: pc_inv_def)
  ultimately show ?thesis using run_to_end assms(2-4) by blast
qed

theorem producer_consumer_can_complete_witness:
  "\<exists>t. (pc_step all_ok)\<^sup>*\<^sup>* pc_init t \<and> main_at t = M_done \<and> stopped t = None"
  by (rule producer_consumer_can_complete) (auto simp: all_ok_def pc_inv_init intro: reachable_start)

text \<open>
  at most one thread is inside a critical section of the queue, at most one inside a critical
  section of the producer counter, and a thread that holds a mutex is the recorded owner.
\<close>

theorem critical_sections_exclusive:
  assumes "pc_reachable env s" and "\<forall>t. join_ok env t" and "stopped s = None"
  shows "\<not> (prod_holds_q (prod_at s) \<and> cons_holds_q (cons_at s k)) \<and>
    \<not> (prod_holds_n (prod_at s) \<and> cons_holds_n (cons_at s k)) \<and>
    (cons_holds_q (cons_at s k) \<and> cons_holds_q (cons_at s l) \<longrightarrow> k = l) \<and>
    (cons_holds_n (cons_at s k) \<and> cons_holds_n (cons_at s l) \<longrightarrow> k = l)"
  using reachable_core [OF assms] by (auto simp: core_inv_def lock_inv_def)

theorem critical_sections_exclusive_witness:
  "\<not> (prod_holds_q (prod_at pc_init) \<and> cons_holds_q (cons_at pc_init C_main))"
  using critical_sections_exclusive [of all_ok pc_init C_main C_prod] pc_inv_init
  by (auto simp: all_ok_def intro: reachable_start)

text \<open>
  C39: the queue always holds a run of consecutive letters, oldest first, that ends with the last
  letter inserted; every earlier letter has been printed or is in the hands of a consumer, and
  the heap holds no other node than those of the queue and those in the hands of a thread.
\<close>

theorem queue_holds_consecutive_letters:
  assumes "pc_reachable env s" and "\<forall>t. join_ok env t" and "stopped s = None"
  shows "\<exists>as i. queue_rep (qm s) as \<and> letters (qm s) as = [i..<next_letter (prod_at s)] \<and>
    mset (printed s @ letters (qm s) (unprinted s)) = mset [97..<i] \<and>
    dom (heap (qm s)) = set (as @ held s)"
  using reachable_core [OF assms] by (fastforce simp: core_inv_def queue_inv_def ch_a_def)

theorem queue_holds_consecutive_letters_witness:
  "\<exists>as i. queue_rep (qm pc_init) as \<and> letters (qm pc_init) as = [i..<next_letter (prod_at pc_init)] \<and>
    mset (printed pc_init @ letters (qm pc_init) (unprinted pc_init)) = mset [97..<i] \<and>
    dom (heap (qm pc_init)) = set (as @ held pc_init)"
  by (rule queue_holds_consecutive_letters [of all_ok])
    (auto simp: all_ok_def pc_inv_init intro: reachable_start)

end
