(* ===== verification/VcpuScheduler.thy ===== *)
theory VcpuScheduler
  imports AOS_Prelude Complex_Main
begin

text \<open>
  The vCPU scheduler of \<^verbatim>\<open>project1-1/cpu/src/vcpu_scheduler.c\<close>.

  libvirt is the record \<open>libvirt_cpu\<close>, what one iteration observes of it; what an iteration
  does to it is the list of successful \<open>virDomainPinVcpu\<close> calls. The type \<open>double\<close> and its
  operations are the record \<open>'d fpu\<close>, an argument of the definitions: HOL has no IEEE
  arithmetic, and what is proved of the scheduler needs no more than that \<open><\<close> orders the
  values that occur (\<open>fp_ordered_on\<close>, which holds for doubles other than NaN). \<open>qsort\<close> is an
  argument as well, because C leaves the order of equal elements open; \<open>is_qsort\<close> is what the
  C standard promises. CPU times are \<open>unsigned long long\<close> and wrap; \<open>int\<close> arithmetic that
  overflows stops the program.
\<close>

section \<open>Data\<close>

record 'd fpu =
  fp_add :: "'d \<Rightarrow> 'd \<Rightarrow> 'd"
  fp_sub :: "'d \<Rightarrow> 'd \<Rightarrow> 'd"
  fp_mul :: "'d \<Rightarrow> 'd \<Rightarrow> 'd"
  fp_div :: "'d \<Rightarrow> 'd \<Rightarrow> 'd"
  fp_sqrt :: "'d \<Rightarrow> 'd"
  fp_lt :: "'d \<Rightarrow> 'd \<Rightarrow> bool"
  fp_eq :: "'d \<Rightarrow> 'd \<Rightarrow> bool"
  fp_of_ull :: "u64 \<Rightarrow> 'd"
  fp_of_int :: "int \<Rightarrow> 'd"
  DBL_MAX :: 'd
  DBL_MIN :: 'd

record 'd VM_CPU_Usage =
  cpu_usage :: 'd
  vm_id :: nat

text \<open>
  Domains are named by numbers; \<open>None\<close> and \<open>False\<close> stand for the negative return value of a
  call that fails. \<open>DomainGetVcpus\<close> yields the pCPU of vCPU 0 and its CPU map.
\<close>

record libvirt_cpu =
  CpuListAllDomains :: "nat list option"
  DomainCPUStatsCount :: "nat \<Rightarrow> nat option"
  DomainCPUStats :: "nat \<Rightarrow> (string \<times> u64) list option"
  DomainGetVcpus :: "nat \<Rightarrow> (int \<times> u8 list) option"
  DomainPinVcpu :: "nat \<Rightarrow> u8 list \<Rightarrow> bool"

definition MAX_VM :: nat where
  "MAX_VM = 32"

definition BALANCE_THRESHOLD :: int where
  "BALANCE_THRESHOLD = 5"

definition VIR_CPU_MAPLEN :: "nat \<Rightarrow> nat" where
  "VIR_CPU_MAPLEN n = (n + 7) div 8"

type_synonym pin = "nat \<times> nat"

section \<open>Measurements\<close>

definition get_active_vm_cpu :: "libvirt_cpu \<Rightarrow> nat list option" where
  "get_active_vm_cpu env = CpuListAllDomains env"

text \<open>\<open>virTypedParamsGetULLong\<close> leaves the variable alone when the parameter is missing.\<close>

definition cpu_time_param :: "(string \<times> u64) list \<Rightarrow> u64" where
  "cpu_time_param params = (case map_of params ''cpu_time'' of None \<Rightarrow> 0 | Some v \<Rightarrow> v)"

definition get_vm_cpu_time :: "libvirt_cpu \<Rightarrow> nat list \<Rightarrow> nat \<Rightarrow> u64 list \<Rightarrow> u64 list outcome" where
  "get_vm_cpu_time env domains i current_cpu_times =
     (case DomainCPUStatsCount env (domains ! i) of
        None \<Rightarrow> Inl (Exit 1)
      | Some n_params \<Rightarrow>
          (case DomainCPUStats env (domains ! i) of
             None \<Rightarrow> Inl (Exit 1)
           | Some params \<Rightarrow> wr current_cpu_times (int i) (cpu_time_param (take n_params params))))"

definition get_vm_cpu_times :: "libvirt_cpu \<Rightarrow> nat list \<Rightarrow> u64 list \<Rightarrow> u64 list outcome" where
  "get_vm_cpu_times env domains = foldm (get_vm_cpu_time env domains) [0..<length domains]"

definition vm_cpu_usage :: "'d fpu \<Rightarrow> int \<Rightarrow> u64 list \<Rightarrow> u64 list \<Rightarrow> nat \<Rightarrow> 'd VM_CPU_Usage outcome" where
  "vm_cpu_usage fp interval cpu_times current_cpu_times i =
     bnd (rd current_cpu_times (int i)) (\<lambda>cur.
     bnd (rd cpu_times (int i)) (\<lambda>prev.
     bnd (int_op (interval * 1000000000)) (\<lambda>ns.
       Inr \<lparr>cpu_usage = fp_div fp (fp_of_ull fp (100 * (cur - prev))) (fp_of_int fp ns), vm_id = i\<rparr>)))"

definition calculate_vm_cpu_usages ::
    "'d fpu \<Rightarrow> int \<Rightarrow> u64 list \<Rightarrow> u64 list \<Rightarrow> nat \<Rightarrow> 'd VM_CPU_Usage list outcome" where
  "calculate_vm_cpu_usages fp interval cpu_times current_cpu_times n_vms =
     foldm (\<lambda>i usages. bnd (vm_cpu_usage fp interval cpu_times current_cpu_times i) (\<lambda>u. Inr (usages @ [u])))
       [0..<n_vms] []"

text \<open>The two loops that store the measured times in the global array.\<close>

definition store_cpu_times :: "u64 list \<Rightarrow> nat \<Rightarrow> u64 list \<Rightarrow> u64 list outcome" where
  "store_cpu_times current_cpu_times n_vms cpu_times =
     foldm (\<lambda>i ts. bnd (rd current_cpu_times (int i)) (wr ts (int i))) [0..<n_vms] cpu_times"

text \<open>
  The debugging check of \<open>get_cpu_mapping\<close>: the map bytes for which a mismatch is reported,
  in order and as often as it is.
\<close>

fun cpumap_mismatches :: "nat \<Rightarrow> int \<Rightarrow> u8 list \<Rightarrow> nat list" where
  "cpumap_mismatches k p_cpu [] = []"
| "cpumap_mismatches k p_cpu (b # bs) =
     (if p_cpu < 8 then
        map (\<lambda>_. k) (filter (\<lambda>j. bit b j \<noteq> (int j = p_cpu)) [0..<8]) @ cpumap_mismatches (Suc k) p_cpu bs
      else (if b \<noteq> 0 then [k] else []) @ cpumap_mismatches (Suc k) (p_cpu - 8) bs)"

definition get_cpu_mapping ::
    "libvirt_cpu \<Rightarrow> nat list \<Rightarrow> int list \<Rightarrow> (int list \<times> (nat \<times> nat) list) outcome" where
  "get_cpu_mapping env domains mapping0 =
     foldm (\<lambda>i (mapping, reports). case DomainGetVcpus env (domains ! i) of
          None \<Rightarrow> Inl (Exit 1)
        | Some (cpu, cpumaps) \<Rightarrow>
            bnd (wr mapping (int i) cpu) (\<lambda>mapping.
              Inr (mapping, reports @ map (Pair i) (cpumap_mismatches 0 cpu cpumaps))))
       [0..<length domains] (mapping0, [])"

section \<open>Workloads\<close>

definition calculate_pcpu_workload ::
    "'d fpu \<Rightarrow> 'd VM_CPU_Usage list \<Rightarrow> int list \<Rightarrow> 'd list \<Rightarrow> 'd list outcome" where
  "calculate_pcpu_workload fp usages mapping workloads =
     foldm (\<lambda>u ws. bnd (rd mapping (int (vm_id u))) (\<lambda>p. bnd (rd ws p) (\<lambda>w. wr ws p (fp_add fp w (cpu_usage u)))))
       usages workloads"

definition cmp_vm_usage :: "'d fpu \<Rightarrow> 'd VM_CPU_Usage \<Rightarrow> 'd VM_CPU_Usage \<Rightarrow> int" where
  "cmp_vm_usage fp vm1 vm2 =
     (if fp_lt fp (cpu_usage vm2) (cpu_usage vm1) then -1
      else if fp_eq fp (cpu_usage vm1) (cpu_usage vm2) then 0 else 1)"

definition calculate_std_dev :: "'d fpu \<Rightarrow> 'd list \<Rightarrow> 'd" where
  "calculate_std_dev fp workloads =
     (let n = fp_of_int fp (int (length workloads));
          total = fold (\<lambda>w acc. fp_add fp acc w) workloads (fp_of_int fp 0);
          mean = fp_div fp total n;
          sum_squared_diff = fold (\<lambda>w acc. let diff = fp_sub fp w mean in fp_add fp acc (fp_mul fp diff diff))
            workloads (fp_of_int fp 0);
          variance = fp_div fp sum_squared_diff n
      in fp_sqrt fp variance)"

text \<open>\<open>check_balance\<close>, which the scheduler no longer calls.\<close>

definition check_balance :: "'d fpu \<Rightarrow> 'd list \<Rightarrow> int list \<Rightarrow> bool" where
  "check_balance fp workloads mapping =
     (let (max_wl, max_pcpu_id, min_wl) =
            fold (\<lambda>i (max_wl, max_pcpu_id, min_wl). let wl = workloads ! i;
                   (max_wl, max_pcpu_id) = (if fp_lt fp max_wl wl then (wl, i) else (max_wl, max_pcpu_id));
                   min_wl = (if fp_lt fp wl min_wl then wl else min_wl)
                 in (max_wl, max_pcpu_id, min_wl))
              [0..<length workloads] (DBL_MIN fp, 0, DBL_MAX fp)
      in if \<not> fp_lt fp (fp_of_int fp BALANCE_THRESHOLD) (fp_sub fp max_wl min_wl) then True
         else length (filter (\<lambda>p. p = int max_pcpu_id) mapping) = 1)"

section \<open>Pinning\<close>

definition pin_map :: "nat \<Rightarrow> nat \<Rightarrow> u8 list outcome" where
  "pin_map cpu_map_len p_cpu = wr (replicate cpu_map_len 0) (int (p_cpu div 8)) (push_bit (p_cpu mod 8) 1)"

definition pin_vm_to_pcpu :: "libvirt_cpu \<Rightarrow> nat \<Rightarrow> nat \<Rightarrow> nat \<Rightarrow> pin list \<Rightarrow> pin list outcome" where
  "pin_vm_to_pcpu env cpu_map_len domain p_cpu pins =
     bnd (pin_map cpu_map_len p_cpu) (\<lambda>cpumaps.
       if DomainPinVcpu env domain cpumaps then Inr (pins @ [(domain, p_cpu)]) else Inl (Exit 1))"

text \<open>
  The branch for \<open>n_vms <= n_host_cpus\<close>. \<open>new_mapping\<close> holds VM numbers, and 0 also marks a
  free pCPU; the inner loop goes on after it has found one.
\<close>

definition few_vms_inner ::
    "libvirt_cpu \<Rightarrow> nat \<Rightarrow> nat list \<Rightarrow> nat \<Rightarrow> nat \<Rightarrow> int list \<times> pin list \<Rightarrow> (int list \<times> pin list) outcome" where
  "few_vms_inner env cpu_map_len domains i j = (\<lambda>(new_mapping, pins).
     bnd (rd new_mapping (int j)) (\<lambda>v.
       if v = 0 then
         bnd (wr new_mapping (int j) (int i)) (\<lambda>new_mapping.
         bnd (pin_vm_to_pcpu env cpu_map_len (domains ! i) j pins) (\<lambda>pins. Inr (new_mapping, pins)))
       else Inr (new_mapping, pins)))"

definition few_vms_step ::
    "libvirt_cpu \<Rightarrow> nat \<Rightarrow> nat \<Rightarrow> nat list \<Rightarrow> int list \<Rightarrow> nat \<Rightarrow> int list \<times> pin list \<Rightarrow> (int list \<times> pin list) outcome" where
  "few_vms_step env n_host_cpus cpu_map_len domains mapping i = (\<lambda>(new_mapping, pins).
     bnd (rd mapping (int i)) (\<lambda>m.
     bnd (rd new_mapping m) (\<lambda>v.
       if v = 0 then bnd (wr new_mapping m (int i)) (\<lambda>new_mapping. Inr (new_mapping, pins))
       else foldm (few_vms_inner env cpu_map_len domains i) [0..<n_host_cpus] (new_mapping, pins))))"

definition assign_few_vms :: "libvirt_cpu \<Rightarrow> nat \<Rightarrow> nat \<Rightarrow> nat list \<Rightarrow> int list \<Rightarrow> pin list outcome" where
  "assign_few_vms env n_host_cpus cpu_map_len domains mapping =
     bnd (foldm (few_vms_step env n_host_cpus cpu_map_len domains mapping) [0..<length domains]
            (replicate n_host_cpus 0, [])) (\<lambda>(new_mapping, pins). Inr pins)"

text \<open>
  The other branch: the \<open>n_host_cpus\<close> busiest VMs keep their pCPU or get a free one, the
  others go to the pCPU with the least workload.
\<close>

record 'd many_state =
  ms_new_mapping :: "int list"
  ms_workloads :: "'d list"
  ms_pins :: "pin list"

definition ms_place ::
    "libvirt_cpu \<Rightarrow> nat \<Rightarrow> nat list \<Rightarrow> 'd VM_CPU_Usage \<Rightarrow> int \<Rightarrow> 'd many_state \<Rightarrow> 'd many_state outcome" where
  "ms_place env cpu_map_len domains u p st =
     bnd (wr (ms_new_mapping st) p (int (vm_id u))) (\<lambda>nm.
     bnd (wr (ms_workloads st) p (cpu_usage u)) (\<lambda>ws.
     bnd (rd domains (int (vm_id u))) (\<lambda>domain.
     bnd (pin_vm_to_pcpu env cpu_map_len domain (nat p) (ms_pins st)) (\<lambda>pins.
       Inr \<lparr>ms_new_mapping = nm, ms_workloads = ws, ms_pins = pins\<rparr>))))"

fun many_vms_inner ::
    "libvirt_cpu \<Rightarrow> nat \<Rightarrow> nat list \<Rightarrow> 'd VM_CPU_Usage \<Rightarrow> nat list \<Rightarrow> 'd many_state \<Rightarrow> 'd many_state outcome" where
  "many_vms_inner env cpu_map_len domains u [] st = Inr st"
| "many_vms_inner env cpu_map_len domains u (j # js) st =
     bnd (rd (ms_new_mapping st) (int j)) (\<lambda>v.
       if v = 0 then ms_place env cpu_map_len domains u (int j) st
       else many_vms_inner env cpu_map_len domains u js st)"

definition many_vms_step ::
    "libvirt_cpu \<Rightarrow> nat \<Rightarrow> nat \<Rightarrow> nat list \<Rightarrow> int list \<Rightarrow> 'd VM_CPU_Usage \<Rightarrow> 'd many_state \<Rightarrow> 'd many_state outcome" where
  "many_vms_step env n_host_cpus cpu_map_len domains mapping u st =
     bnd (rd mapping (int (vm_id u))) (\<lambda>m.
     bnd (rd (ms_new_mapping st) m) (\<lambda>v.
       if v = 0 then ms_place env cpu_map_len domains u m st
       else many_vms_inner env cpu_map_len domains u [0..<n_host_cpus] st))"

definition min_workload :: "'d fpu \<Rightarrow> 'd list \<Rightarrow> nat" where
  "min_workload fp workloads =
     fst (fold (\<lambda>j (min_wl_p_cpu, min_wl). if fp_lt fp (workloads ! j) min_wl then (j, workloads ! j) else (min_wl_p_cpu, min_wl))
       [0..<length workloads] (0, DBL_MAX fp))"

definition least_loaded_step ::
    "'d fpu \<Rightarrow> libvirt_cpu \<Rightarrow> nat \<Rightarrow> nat list \<Rightarrow> 'd VM_CPU_Usage \<Rightarrow> 'd list \<times> pin list \<Rightarrow> ('d list \<times> pin list) outcome" where
  "least_loaded_step fp env cpu_map_len domains u = (\<lambda>(workloads, pins).
     let p = min_workload fp workloads in
     bnd (rd domains (int (vm_id u))) (\<lambda>domain.
     bnd (pin_vm_to_pcpu env cpu_map_len domain p pins) (\<lambda>pins.
     bnd (rd workloads (int p)) (\<lambda>w.
     bnd (wr workloads (int p) (fp_add fp w (cpu_usage u))) (\<lambda>workloads. Inr (workloads, pins))))))"

definition assign_many_vms ::
    "'d fpu \<Rightarrow> libvirt_cpu \<Rightarrow> nat \<Rightarrow> nat \<Rightarrow> nat list \<Rightarrow> int list \<Rightarrow> 'd VM_CPU_Usage list \<Rightarrow> pin list outcome" where
  "assign_many_vms fp env n_host_cpus cpu_map_len domains mapping usages =
     bnd (foldm (many_vms_step env n_host_cpus cpu_map_len domains mapping) (take n_host_cpus usages)
            \<lparr>ms_new_mapping = replicate n_host_cpus 0, ms_workloads = replicate n_host_cpus (fp_of_int fp 0), ms_pins = []\<rparr>)
       (\<lambda>st. bnd (foldm (least_loaded_step fp env cpu_map_len domains) (drop n_host_cpus usages)
                    (ms_workloads st, ms_pins st)) (\<lambda>(workloads, pins). Inr pins))"

section \<open>One iteration\<close>

type_synonym 'a qsort_fun = "('a \<Rightarrow> 'a \<Rightarrow> int) \<Rightarrow> 'a list \<Rightarrow> 'a list"

definition CPUScheduler ::
    "'d fpu \<Rightarrow> 'd VM_CPU_Usage qsort_fun \<Rightarrow> libvirt_cpu \<Rightarrow> nat \<Rightarrow> int \<Rightarrow> u64 list \<Rightarrow> (u64 list \<times> pin list) outcome" where
  "CPUScheduler fp qsort env n_host_cpus interval cpu_times =
     (case get_active_vm_cpu env of
        None \<Rightarrow> Inl BadVlaSize
      | Some domains \<Rightarrow>
          (let n_vms = length domains; cpu_map_len = VIR_CPU_MAPLEN n_host_cpus in
           bnd (get_vm_cpu_times env domains (replicate n_vms 0)) (\<lambda>current_cpu_times.
           bnd (rd cpu_times 0) (\<lambda>t0.
           if t0 = 0 then
             bnd (store_cpu_times current_cpu_times n_vms cpu_times) (\<lambda>cpu_times. Inr (cpu_times, []))
           else
             bnd (calculate_vm_cpu_usages fp interval cpu_times current_cpu_times n_vms) (\<lambda>usages.
             bnd (store_cpu_times current_cpu_times n_vms cpu_times) (\<lambda>cpu_times.
             bnd (get_cpu_mapping env domains (replicate n_vms 0)) (\<lambda>(mapping, reports).
             bnd (calculate_pcpu_workload fp usages mapping (replicate n_host_cpus (fp_of_int fp 0))) (\<lambda>workloads.
             if fp_lt fp (fp_of_int fp BALANCE_THRESHOLD) (calculate_std_dev fp workloads) then
               bnd (if n_vms \<le> n_host_cpus
                    then assign_few_vms env n_host_cpus cpu_map_len domains mapping
                    else assign_many_vms fp env n_host_cpus cpu_map_len domains mapping (qsort (cmp_vm_usage fp) usages))
                 (\<lambda>pins. Inr (cpu_times, pins))
             else Inr (cpu_times, [])))))))))"

text \<open>
  \<open>main\<close>: \<open>node\<close> is the number of host CPUs, if \<open>virNodeGetInfo\<close> succeeds; one iteration runs
  for every observation made before the signal handler sets \<open>is_exit\<close>. The result is the
  return value and the pins of every iteration.
\<close>

definition cpu_main ::
    "'d fpu \<Rightarrow> 'd VM_CPU_Usage qsort_fun \<Rightarrow> nat \<Rightarrow> int \<Rightarrow> bool \<Rightarrow> nat option \<Rightarrow> libvirt_cpu list \<Rightarrow> (nat \<times> pin list list) outcome" where
  "cpu_main fp qsort argc interval opened node envs =
     (if argc \<noteq> 2 then Inr (0, [])
      else if \<not> opened then Inr (1, [])
      else (case node of
          None \<Rightarrow> Inl (Exit 1)
        | Some n_host_cpus \<Rightarrow>
            bnd (foldm (\<lambda>env (cpu_times, log). bnd (CPUScheduler fp qsort env n_host_cpus interval cpu_times)
                          (\<lambda>(cpu_times, pins). Inr (cpu_times, log @ [pins])))
                   envs (replicate MAX_VM 0, []))
              (\<lambda>(cpu_times, log). Inr (0, log))))"

section \<open>What libvirt, qsort and the ordering of doubles promise\<close>

text \<open>The values in \<open>V\<close> are ordered; of doubles, any set without NaN is.\<close>

definition fp_ordered_on :: "'d fpu \<Rightarrow> 'd set \<Rightarrow> bool" where
  "fp_ordered_on fp V \<longleftrightarrow> (\<forall>x\<in>V. \<not> fp_lt fp x x) \<and>
     (\<forall>x\<in>V. \<forall>y\<in>V. \<forall>z\<in>V. fp_lt fp x y \<longrightarrow> fp_lt fp y z \<longrightarrow> fp_lt fp x z) \<and>
     (\<forall>x\<in>V. \<forall>y\<in>V. \<forall>z\<in>V. \<not> fp_lt fp x y \<longrightarrow> \<not> fp_lt fp y z \<longrightarrow> \<not> fp_lt fp x z) \<and>
     (\<forall>x\<in>V. \<forall>y\<in>V. fp_eq fp x y \<longleftrightarrow> \<not> fp_lt fp x y \<and> \<not> fp_lt fp y x)"

text \<open>A comparison function \<open>qsort\<close> may be called with on the elements of a list.\<close>

definition consistent :: "('a \<Rightarrow> 'a \<Rightarrow> int) \<Rightarrow> 'a list \<Rightarrow> bool" where
  "consistent cmp xs \<longleftrightarrow> (\<forall>x\<in>set xs. \<forall>y\<in>set xs. (cmp x y \<le> 0 \<or> cmp y x \<le> 0) \<and>
     (\<forall>z\<in>set xs. cmp x y \<le> 0 \<longrightarrow> cmp y z \<le> 0 \<longrightarrow> cmp x z \<le> 0))"

definition is_qsort :: "'a qsort_fun \<Rightarrow> bool" where
  "is_qsort qsort \<longleftrightarrow> (\<forall>cmp xs. mset (qsort cmp xs) = mset xs \<and>
     (consistent cmp xs \<longrightarrow> sorted_wrt (\<lambda>x y. cmp x y \<le> 0) (qsort cmp xs)))"

text \<open>Every query and every pin succeeds, and libvirt reports pCPUs of the host.\<close>

definition cpu_env_ok :: "libvirt_cpu \<Rightarrow> nat list \<Rightarrow> nat \<Rightarrow> bool" where
  "cpu_env_ok env domains n_host_cpus \<longleftrightarrow> CpuListAllDomains env = Some domains \<and>
     (\<forall>d\<in>set domains. DomainCPUStatsCount env d \<noteq> None \<and> DomainCPUStats env d \<noteq> None \<and>
        (\<exists>p maps. DomainGetVcpus env d = Some (p, maps) \<and> 0 \<le> p \<and> p < int n_host_cpus) \<and>
        (\<forall>m. DomainPinVcpu env d m))"

definition vm_time :: "libvirt_cpu \<Rightarrow> nat \<Rightarrow> u64" where
  "vm_time env d = cpu_time_param (take (the (DomainCPUStatsCount env d)) (the (DomainCPUStats env d)))"

definition vm_pcpu :: "libvirt_cpu \<Rightarrow> nat \<Rightarrow> int" where
  "vm_pcpu env d = fst (the (DomainGetVcpus env d))"

lemma fp_ordered_onD:
  assumes "fp_ordered_on fp V" and "x \<in> V" and "y \<in> V"
  shows "\<not> fp_lt fp x x" and "z \<in> V \<Longrightarrow> fp_lt fp x y \<Longrightarrow> fp_lt fp y z \<Longrightarrow> fp_lt fp x z"
    and "z \<in> V \<Longrightarrow> \<not> fp_lt fp x y \<Longrightarrow> \<not> fp_lt fp y z \<Longrightarrow> \<not> fp_lt fp x z"
    and "fp_eq fp x y \<longleftrightarrow> \<not> fp_lt fp x y \<and> \<not> fp_lt fp y x"
    and "\<not> fp_lt fp x y \<or> \<not> fp_lt fp y x"
  using assms unfolding fp_ordered_on_def by blast+

lemmas fp_orderedD = fp_ordered_onD [where V = UNIV, OF _ UNIV_I UNIV_I, simplified]

section \<open>The measuring loops\<close>

lemma map_nth_upt: "map (\<lambda>i. f (xs ! i)) [0..<length xs] = map f xs"
  by (rule nth_equalityI) simp_all

lemma cpu_env_okD:
  assumes "cpu_env_ok env domains n" and "d \<in> set domains"
  obtains c ps maps where "DomainCPUStatsCount env d = Some c" "DomainCPUStats env d = Some ps"
    "DomainGetVcpus env d = Some (vm_pcpu env d, maps)" "0 \<le> vm_pcpu env d" "vm_pcpu env d < int n"
    "\<And>m. DomainPinVcpu env d m"
proof -
  from assms obtain c ps p maps where "DomainCPUStatsCount env d = Some c" "DomainCPUStats env d = Some ps"
    "DomainGetVcpus env d = Some (p, maps)" "0 \<le> p" "p < int n" "\<forall>m. DomainPinVcpu env d m"
    unfolding cpu_env_ok_def by blast
  then show thesis using that by (simp add: vm_pcpu_def)
qed

lemma get_vm_cpu_times_ok:
  assumes "cpu_env_ok env domains n"
  shows "get_vm_cpu_times env domains (replicate (length domains) 0) = Inr (map (vm_time env) domains)"
proof -
  have "get_vm_cpu_time env domains i zs = Inr (zs[i := vm_time env (domains ! i)])"
    if "i < length domains" "length zs = length (replicate (length domains) (0 :: u64))" for i zs
    using that by (rule_tac cpu_env_okD [OF assms nth_mem [OF that(1)]])
      (simp add: get_vm_cpu_time_def vm_time_def)
  then have "get_vm_cpu_times env domains (replicate (length domains) 0)
      = Inr (map (\<lambda>i. vm_time env (domains ! i)) [0..<length domains] @ drop (length domains) (replicate (length domains) 0))"
    unfolding get_vm_cpu_times_def by (rule foldm_fill) simp_all
  then show ?thesis by (simp only: map_nth_upt) simp
qed

lemma store_cpu_times_ok:
  assumes "length cur = n" and "n \<le> length ts"
  shows "store_cpu_times cur n ts = Inr (cur @ drop n ts)"
  unfolding store_cpu_times_def
proof (subst foldm_fill [where g = "\<lambda>i. cur ! i"])
  show "Inr (map ((!) cur) [0..<n] @ drop n ts) = Inr (cur @ drop n ts)"
    using map_nth [of cur] assms(1) by simp
qed (use assms in simp_all)

lemma store_cpu_times_overrun:
  assumes "length cur = n" and "length ts < n"
  shows "store_cpu_times cur n ts = Inl OutOfBounds"
proof -
  obtain m where m: "[0..<n] = [0..<length ts] @ length ts # m"
    using assms(2) upt_add_eq_append [of 0 "length ts" "n - length ts"] by (simp add: upt_conv_Cons)
  have "foldm (\<lambda>i ts. bnd (rd cur (int i)) (wr ts (int i))) [0..<length ts] ts
      = Inr (map (\<lambda>i. cur ! i) [0..<length ts] @ drop (length ts) ts)"
    by (rule foldm_fill) (use assms in simp_all)
  then show ?thesis using assms unfolding store_cpu_times_def m foldm_append by (simp add: wr_def)
qed

definition usage_of :: "'d fpu \<Rightarrow> int \<Rightarrow> u64 list \<Rightarrow> u64 list \<Rightarrow> nat \<Rightarrow> 'd VM_CPU_Usage" where
  "usage_of fp interval ts cur i =
     \<lparr>cpu_usage = fp_div fp (fp_of_ull fp (100 * (cur ! i - ts ! i))) (fp_of_int fp (interval * 1000000000)), vm_id = i\<rparr>"

lemma usages_ok:
  assumes "n \<le> length cur" and "n \<le> length ts" and "\<bar>interval\<bar> \<le> 2"
  shows "calculate_vm_cpu_usages fp interval ts cur n = Inr (map (usage_of fp interval ts cur) [0..<n])"
proof -
  have "in_int (interval * 1000000000)" using assms(3) unfolding in_int_def INT_MAX_def INT_MIN_def by linarith
  then show ?thesis
    unfolding calculate_vm_cpu_usages_def
    by (subst foldm_collect [where g = "usage_of fp interval ts cur"])
      (use assms in \<open>simp_all add: vm_cpu_usage_def usage_of_def int_op_def\<close>)
qed

lemma usages_overflow:
  assumes "0 < n" and "n \<le> length cur" and "ts \<noteq> []" and "3 \<le> interval"
  shows "calculate_vm_cpu_usages fp interval ts cur n = Inl SignedOverflow"
proof -
  have "\<not> in_int (interval * 1000000000)" using assms(4) by (simp add: in_int_def INT_MAX_def)
  then show ?thesis
    using assms by (auto simp: calculate_vm_cpu_usages_def upt_conv_Cons vm_cpu_usage_def int_op_def rd_def)
qed

lemma get_cpu_mapping_ok:
  assumes "cpu_env_ok env domains n"
  shows "\<exists>reports. get_cpu_mapping env domains (replicate (length domains) 0) = Inr (map (vm_pcpu env) domains, reports)"
proof -
  let ?f = "\<lambda>i (mapping, reports). case DomainGetVcpus env (domains ! i) of
          None \<Rightarrow> Inl (Exit 1)
        | Some (cpu, cpumaps) \<Rightarrow>
            bnd (wr mapping (int i) cpu) (\<lambda>mapping.
              Inr (mapping, reports @ map (Pair i) (cpumap_mismatches 0 cpu cpumaps)))"
  let ?xs = "replicate (length domains) (0 :: int)"
  have "k \<le> length domains \<Longrightarrow> \<exists>reports. foldm ?f [0..<k] (?xs, []) =
     Inr (map (\<lambda>i. vm_pcpu env (domains ! i)) [0..<k] @ drop k ?xs, reports)" for k
  proof (induction k)
    case (Suc k)
    then obtain r where r: "foldm ?f [0..<k] (?xs, []) = Inr (map (\<lambda>i. vm_pcpu env (domains ! i)) [0..<k] @ drop k ?xs, r)"
      by auto
    have "domains ! k \<in> set domains" using Suc.prems by simp
    then obtain p maps where p: "DomainGetVcpus env (domains ! k) = Some (p, maps)"
      using cpu_env_okD [OF assms] by metis
    have "drop k ?xs = ?xs ! k # drop (Suc k) ?xs" using Suc.prems by (intro Cons_nth_drop_Suc [symmetric]) simp
    then show ?case using r p Suc.prems
      by (simp add: foldm_append list_update_append vm_pcpu_def del: drop_replicate)
  qed simp
  from this [of "length domains"] show ?thesis by (simp add: get_cpu_mapping_def map_nth_upt)
qed

section \<open>Pin maps\<close>

lemma pin_map_ok:
  assumes "p < n"
  shows "pin_map (VIR_CPU_MAPLEN n) p = Inr ((replicate (VIR_CPU_MAPLEN n) 0)[p div 8 := push_bit (p mod 8) 1])"
proof -
  have "p div 8 < VIR_CPU_MAPLEN n" using assms unfolding VIR_CPU_MAPLEN_def by linarith
  then show ?thesis by (simp add: pin_map_def)
qed

lemma pin_ok:
  assumes "cpu_env_ok env domains n" and "d \<in> set domains" and "p < n"
  shows "pin_vm_to_pcpu env (VIR_CPU_MAPLEN n) d p pins = Inr (pins @ [(d, p)])"
  using assms by (auto simp: pin_vm_to_pcpu_def pin_map_ok cpu_env_ok_def)

section \<open>Fewer VMs than pCPUs\<close>

text \<open>What holds before VM \<open>i\<close>: nobody has been pinned, or no pCPU is free any more.\<close>

definition few_inv :: "nat \<Rightarrow> int list \<times> pin list \<Rightarrow> bool" where
  "few_inv i = (\<lambda>(nm, pins). (\<forall>v\<in>set nm. 0 \<le> v \<and> v < int (max 1 i)) \<and>
     (pins = [] \<or> 0 \<notin> set nm) \<and> (\<forall>a\<in>set pins. \<forall>b\<in>set pins. fst a = fst b))"

lemma few_inner_occupies:
  assumes "foldm (few_vms_inner env len domains i) js st = Inr st'" and "0 < i" and "0 \<notin> set (fst st)"
  shows "st' = st"
  using assms
proof (induction js)
  case (Cons j js)
  have "few_vms_inner env len domains i j st = Inr st \<or> few_vms_inner env len domains i j st = Inl OutOfBounds"
  proof -
    obtain nm pins where st: "st = (nm, pins)" by (cases st)
    have "nm ! j \<noteq> 0" if "j < length nm" using Cons.prems(3) nth_mem [OF that] st by force
    then show ?thesis by (auto simp: st few_vms_inner_def rd_def)
  qed
  then show ?case using Cons by auto
qed simp

lemma few_inner_fills:
  assumes "foldm (few_vms_inner env len domains i) [0..<k] (nm, []) = Inr (nm', pins')" and "0 < i" and "k \<le> length nm"
    and "\<forall>v\<in>set nm. 0 \<le> v \<and> v < int i"
  shows "length nm' = length nm \<and> (\<forall>j<k. nm' ! j \<noteq> 0) \<and> (\<forall>v\<in>set nm'. 0 \<le> v \<and> v \<le> int i) \<and> (\<forall>a\<in>set pins'. fst a = domains ! i)"
  using assms
proof (induction k arbitrary: nm' pins')
  case 0
  then show ?case by force
next
  case (Suc k)
  then obtain nm1 pins1 where one: "foldm (few_vms_inner env len domains i) [0..<k] (nm, []) = Inr (nm1, pins1)"
    and two: "few_vms_inner env len domains i k (nm1, pins1) = Inr (nm', pins')"
    by (auto simp: foldm_append bnd_eq_Inr)
  have IH: "length nm1 = length nm" "\<forall>j<k. nm1 ! j \<noteq> 0" "\<forall>v\<in>set nm1. 0 \<le> v \<and> v \<le> int i" "\<forall>a\<in>set pins1. fst a = domains ! i"
    using Suc.IH [OF one Suc.prems(2) _ Suc.prems(4)] Suc.prems(3) by simp_all
  have k: "k < length nm1" using Suc.prems(3) IH(1) by simp
  show ?case
  proof (cases "nm1 ! k = 0")
    case True
    then have "nm' = nm1[k := int i]" "\<exists>p. pins' = pins1 @ [(domains ! i, p)]"
      using two k by (auto simp: few_vms_inner_def bnd_eq_Inr pin_vm_to_pcpu_def split: if_splits)
    then show ?thesis
      using IH k Suc.prems(2) set_update_subset_insert [of nm1 k "int i"] by (auto simp: nth_list_update less_Suc_eq)
  next
    case False
    then have "nm' = nm1" "pins' = pins1" using two k by (auto simp: few_vms_inner_def)
    then show ?thesis using IH False by (auto simp: less_Suc_eq)
  qed
qed

lemma few_step_inv:
  assumes "few_vms_step env n len domains mapping i st = Inr st'" and "few_inv i st" and "length (fst st) = n"
  shows "few_inv (Suc i) st' \<and> length (fst st') = n"
proof -
  obtain nm pins where st: "st = (nm, pins)" by (cases st)
  from assms(1) obtain m where m: "0 \<le> m" "m < int (length nm)"
    and step: "(if nm ! nat m = 0 then Inr (nm[nat m := int i], pins)
       else foldm (few_vms_inner env len domains i) [0..<n] (nm, pins)) = Inr st'"
    by (auto simp: few_vms_step_def st bnd_eq_Inr rd_eq_Inr wr_def split: if_splits)
  have nm: "\<forall>v\<in>set nm. 0 \<le> v \<and> v < int (max 1 i)" "pins = [] \<or> 0 \<notin> set nm" "\<forall>a\<in>set pins. \<forall>b\<in>set pins. fst a = fst b"
    using assms(2) unfolding few_inv_def st prod.case by blast+
  have mem: "nm ! nat m \<in> set nm" using m by (simp add: nat_less_iff)
  show ?thesis
  proof (cases "nm ! nat m = 0")
    case True
    then have "pins = []" using nm(2) mem by auto
    moreover have "st' = (nm[nat m := int i], [])" using step True \<open>pins = []\<close> by simp
    ultimately show ?thesis
      using nm(1) assms(3) set_update_subset_insert [of nm "nat m" "int i"] by (fastforce simp: few_inv_def st)
  next
    case False
    have "0 \<le> nm ! nat m" "nm ! nat m < int (max 1 i)" using nm(1) mem by blast+
    then have i: "1 < i" using False by linarith
    then have nmi: "\<forall>v\<in>set nm. 0 \<le> v \<and> v < int i" using nm(1) by simp
    have i: "0 < i" using i by simp
    have loop: "foldm (few_vms_inner env len domains i) [0..<n] (nm, pins) = Inr st'" using step False by simp
    show ?thesis
    proof (cases "pins = []")
      case True
      obtain nm' pins' where st': "st' = (nm', pins')" by (cases st')
      have *: "length nm' = length nm \<and> (\<forall>j<n. nm' ! j \<noteq> 0) \<and> (\<forall>v\<in>set nm'. 0 \<le> v \<and> v \<le> int i) \<and> (\<forall>a\<in>set pins'. fst a = domains ! i)"
        using few_inner_fills [OF _ i _ nmi] loop True st' assms(3) st by simp
      then have "0 \<notin> set nm'" using assms(3) st by (auto simp: in_set_conv_nth)
      moreover have "\<forall>v\<in>set nm'. 0 \<le> v \<and> v < int (max 1 (Suc i))" using * by auto
      moreover have "\<forall>a\<in>set pins'. \<forall>b\<in>set pins'. fst a = fst b" using * by auto
      ultimately show ?thesis using * assms(3) unfolding st' st few_inv_def prod.case fst_conv by metis
    next
      case False
      then have "0 \<notin> set nm" using nm(2) by blast
      then have st': "st' = (nm, pins)" using few_inner_occupies [OF loop i] by simp
      have "\<forall>v\<in>set nm. 0 \<le> v \<and> v < int (max 1 (Suc i))" using nmi by force
      then show ?thesis using nm(3) \<open>0 \<notin> set nm\<close> assms(3) unfolding st' st few_inv_def prod.case fst_conv by blast
    qed
  qed
qed

lemma few_loop_inv:
  "foldm (few_vms_step env n len domains mapping) [0..<k] (replicate n 0, []) = Inr st \<Longrightarrow> few_inv k st \<and> length (fst st) = n"
proof (induction k arbitrary: st)
  case 0
  then show ?case by (auto simp: few_inv_def)
next
  case (Suc k)
  then obtain st1 where "foldm (few_vms_step env n len domains mapping) [0..<k] (replicate n 0, []) = Inr st1"
    and "few_vms_step env n len domains mapping k st1 = Inr st"
    by (auto simp: foldm_append bnd_eq_Inr)
  then show ?case using Suc.IH few_step_inv by blast
qed

section \<open>More VMs than pCPUs\<close>

text \<open>\<open>used st\<close>: the pCPUs that \<open>new_mapping\<close> marks as taken.\<close>

definition ms_used :: "'d many_state \<Rightarrow> nat set" where
  "ms_used st = {j. j < length (ms_new_mapping st) \<and> ms_new_mapping st ! j \<noteq> 0}"

definition ms_ok :: "nat \<Rightarrow> nat \<Rightarrow> 'd many_state \<Rightarrow> bool" where
  "ms_ok n k st \<longleftrightarrow> length (ms_new_mapping st) = n \<and> length (ms_workloads st) = n \<and> card (ms_used st) \<le> k"

text \<open>A VM has been placed on pCPU \<open>p\<close>.\<close>

definition ms_placed :: "nat \<Rightarrow> nat list \<Rightarrow> 'd VM_CPU_Usage \<Rightarrow> 'd many_state \<Rightarrow> nat \<Rightarrow> 'd many_state" where
  "ms_placed n domains u st p = \<lparr>ms_new_mapping = (ms_new_mapping st)[p := int (vm_id u)],
     ms_workloads = (ms_workloads st)[p := cpu_usage u], ms_pins = ms_pins st @ [(domains ! vm_id u, p)]\<rparr>"

lemma ms_place_ok:
  assumes "cpu_env_ok env domains n" and "ms_ok n k st" and "vm_id u < length domains" and "p < n"
  shows "ms_place env (VIR_CPU_MAPLEN n) domains u (int p) st = Inr (ms_placed n domains u st p)"
    and "ms_ok n (Suc k) (ms_placed n domains u st p)"
proof -
  have "domains ! vm_id u \<in> set domains" using assms(3) by simp
  then show "ms_place env (VIR_CPU_MAPLEN n) domains u (int p) st = Inr (ms_placed n domains u st p)"
    using assms pin_ok [OF assms(1) _ assms(4)] by (simp add: ms_place_def ms_ok_def ms_placed_def)
  have "ms_used (ms_placed n domains u st p) \<subseteq> insert p (ms_used st)"
    by (auto simp: ms_used_def ms_placed_def nth_list_update split: if_splits)
  moreover have "finite (ms_used st)" by (simp add: ms_used_def)
  ultimately have "card (ms_used (ms_placed n domains u st p)) \<le> card (insert p (ms_used st))"
    by (intro card_mono) simp_all
  also have "\<dots> \<le> Suc (card (ms_used st))" using \<open>finite (ms_used st)\<close> by (simp add: card_insert_if)
  finally have "card (ms_used (ms_placed n domains u st p)) \<le> Suc (card (ms_used st))" .
  then show "ms_ok n (Suc k) (ms_placed n domains u st p)" using assms(2) by (simp add: ms_ok_def ms_placed_def)
qed

lemma many_inner_ok:
  assumes "cpu_env_ok env domains n" and "ms_ok n k st" and "vm_id u < length domains"
    and "\<forall>j\<in>set js. j < n" and "\<exists>j\<in>set js. ms_new_mapping st ! j = 0"
  shows "\<exists>p<n. many_vms_inner env (VIR_CPU_MAPLEN n) domains u js st = Inr (ms_placed n domains u st p) \<and> ms_new_mapping st ! p = 0"
  using assms
proof (induction js)
  case (Cons j js)
  have j: "j < n" "rd (ms_new_mapping st) (int j) = Inr (ms_new_mapping st ! j)"
    using Cons.prems(2,4) by (auto simp: ms_ok_def)
  show ?case
  proof (cases "ms_new_mapping st ! j = 0")
    case True
    then show ?thesis using j ms_place_ok(1) [OF Cons.prems(1-3) j(1)] by auto
  next
    case False
    then show ?thesis using Cons j by auto
  qed
qed simp

lemma many_step_ok:
  assumes "cpu_env_ok env domains n" and "ms_ok n k st" and "vm_id u < length domains" and "k < n"
    and "mapping = map (vm_pcpu env) domains"
  shows "\<exists>p<n. many_vms_step env n (VIR_CPU_MAPLEN n) domains mapping u st = Inr (ms_placed n domains u st p)
    \<and> ms_new_mapping st ! p = 0"
proof -
  have "domains ! vm_id u \<in> set domains" using assms(3) by simp
  then obtain m where m: "m < n" "vm_pcpu env (domains ! vm_id u) = int m"
    by (rule cpu_env_okD [OF assms(1)]) (metis nonneg_int_cases of_nat_less_iff)
  have rd: "rd mapping (int (vm_id u)) = Inr (int m)" using assms(3,5) m by simp
  have rd2: "rd (ms_new_mapping st) (int m) = Inr (ms_new_mapping st ! m)" using assms(2) m by (simp add: ms_ok_def)
  have "ms_used st \<noteq> {..<n}" using assms(2,4) card_lessThan [of n] unfolding ms_ok_def by (metis not_le)
  then have "\<exists>j\<in>set [0..<n]. ms_new_mapping st ! j = 0"
    using assms(2) by (auto simp: ms_used_def ms_ok_def)
  then show ?thesis
    using many_inner_ok [OF assms(1-3), of "[0..<n]"] ms_place_ok(1) [OF assms(1-3) m(1)] m(1)
    by (auto simp: many_vms_step_def rd rd2)
qed

lemma many_loop_ok:
  assumes "cpu_env_ok env domains n" and "mapping = map (vm_pcpu env) domains"
  shows "ms_ok n k st \<Longrightarrow> \<forall>u\<in>set us. vm_id u < length domains \<Longrightarrow> k + length us \<le> n \<Longrightarrow>
     \<exists>st'. foldm (many_vms_step env n (VIR_CPU_MAPLEN n) domains mapping) us st = Inr st' \<and>
       ms_ok n (k + length us) st' \<and>
       map fst (ms_pins st') = map fst (ms_pins st) @ map (\<lambda>u. domains ! vm_id u) us \<and>
       (set (ms_pins st') \<subseteq> set (ms_pins st) \<union> UNIV \<times> {..<n})"
proof (induction us arbitrary: k st)
  case (Cons u us)
  obtain p where p: "p < n"
    and step: "many_vms_step env n (VIR_CPU_MAPLEN n) domains mapping u st = Inr (ms_placed n domains u st p)"
    using many_step_ok [OF assms(1) Cons.prems(1) _ _ assms(2), of u] Cons.prems(2,3) by auto
  have ok: "ms_ok n (Suc k) (ms_placed n domains u st p)"
    using ms_place_ok(2) [OF assms(1) Cons.prems(1) _ p, of u] Cons.prems(2) by simp
  from Cons.IH [OF this] Cons.prems(2,3) obtain st' where
    "foldm (many_vms_step env n (VIR_CPU_MAPLEN n) domains mapping) us (ms_placed n domains u st p) = Inr st'"
    "ms_ok n (Suc k + length us) st'"
    "map fst (ms_pins st') = map fst (ms_pins (ms_placed n domains u st p)) @ map (\<lambda>u. domains ! vm_id u) us"
    "set (ms_pins st') \<subseteq> set (ms_pins (ms_placed n domains u st p)) \<union> UNIV \<times> {..<n}"
    by auto
  then show ?case using step p by (auto simp: ms_placed_def)
qed auto

section \<open>The least loaded pCPU\<close>

lemma min_fold:
  assumes "fp_ordered_on fp UNIV" and "\<forall>w\<in>set ws. fp_lt fp w (DBL_MAX fp)" and "k \<le> length ws"
  shows "\<exists>p m. fold (\<lambda>j (min_wl_p_cpu, min_wl). if fp_lt fp (ws ! j) min_wl then (j, ws ! j) else (min_wl_p_cpu, min_wl))
       [0..<k] (0, DBL_MAX fp) = (p, m) \<and> (if k = 0 then p = 0 \<and> m = DBL_MAX fp else p < k \<and> m = ws ! p)
     \<and> (\<forall>j<k. \<not> fp_lt fp (ws ! j) m) \<and> (\<forall>j<p. fp_lt fp m (ws ! j))"
  using assms(3)
proof (induction k)
  case (Suc k)
  then obtain p m where IH: "fold (\<lambda>j (min_wl_p_cpu, min_wl). if fp_lt fp (ws ! j) min_wl then (j, ws ! j) else (min_wl_p_cpu, min_wl))
       [0..<k] (0, DBL_MAX fp) = (p, m)" "if k = 0 then p = 0 \<and> m = DBL_MAX fp else p < k \<and> m = ws ! p"
     "\<forall>j<k. \<not> fp_lt fp (ws ! j) m" "\<forall>j<p. fp_lt fp m (ws ! j)" by auto
  note irr = fp_orderedD(1) [OF assms(1)] and tr = fp_orderedD(2) [OF assms(1)] and neg = fp_orderedD(3) [OF assms(1)]
  show ?case
  proof (cases "fp_lt fp (ws ! k) m")
    case True
    have "fp_lt fp (ws ! k) (ws ! j)" if "j < k" for j using True IH(3) that neg by blast
    moreover from this have "\<not> fp_lt fp (ws ! j) (ws ! k)" if "j < k" for j using that irr tr by blast
    ultimately show ?thesis using True IH(1) irr by (auto simp: less_Suc_eq)
  next
    case False
    have "fp_lt fp (ws ! k) (DBL_MAX fp)" using assms(2) Suc.prems by simp
    then have "k \<noteq> 0" using False IH(2) by metis
    then show ?thesis using False IH by (auto simp: less_Suc_eq)
  qed
qed simp

lemma min_workload_lt: "0 < length ws \<Longrightarrow> min_workload fp ws < length ws"
proof -
  have "k \<le> length ws \<Longrightarrow> 0 < length ws \<Longrightarrow> fst (fold (\<lambda>j (min_wl_p_cpu, min_wl). if fp_lt fp (ws ! j) min_wl then (j, ws ! j) else (min_wl_p_cpu, min_wl))
       [0..<k] (0, DBL_MAX fp)) < length ws" for k
    by (induction k) (auto split: prod.splits)
  then show "0 < length ws \<Longrightarrow> min_workload fp ws < length ws" by (simp add: min_workload_def)
qed

lemma least_loaded_loop_ok:
  assumes "cpu_env_ok env domains n" and "0 < n"
  shows "length ws = n \<Longrightarrow> \<forall>u\<in>set us. vm_id u < length domains \<Longrightarrow>
     \<exists>ws' pins'. foldm (least_loaded_step fp env (VIR_CPU_MAPLEN n) domains) us (ws, pins) = Inr (ws', pins') \<and>
       map fst pins' = map fst pins @ map (\<lambda>u. domains ! vm_id u) us \<and> set pins' \<subseteq> set pins \<union> UNIV \<times> {..<n}"
proof (induction us arbitrary: ws pins)
  case (Cons u us)
  let ?p = "min_workload fp ws"
  have p: "?p < n" using min_workload_lt [of ws fp] Cons.prems(1) assms(2) by simp
  have d: "vm_id u < length domains" "domains ! vm_id u \<in> set domains" using Cons.prems(2) by simp_all
  have "least_loaded_step fp env (VIR_CPU_MAPLEN n) domains u (ws, pins)
      = Inr (ws[?p := fp_add fp (ws ! ?p) (cpu_usage u)], pins @ [(domains ! vm_id u, ?p)])"
    using p d pin_ok [OF assms(1) d(2) p] Cons.prems(1) by (simp add: least_loaded_step_def Let_def)
  moreover from Cons.IH [of "ws[?p := fp_add fp (ws ! ?p) (cpu_usage u)]" "pins @ [(domains ! vm_id u, ?p)]"]
  obtain ws' pins' where "foldm (least_loaded_step fp env (VIR_CPU_MAPLEN n) domains) us
      (ws[?p := fp_add fp (ws ! ?p) (cpu_usage u)], pins @ [(domains ! vm_id u, ?p)]) = Inr (ws', pins')"
    "map fst pins' = map fst (pins @ [(domains ! vm_id u, ?p)]) @ map (\<lambda>u. domains ! vm_id u) us"
    "set pins' \<subseteq> set (pins @ [(domains ! vm_id u, ?p)]) \<union> UNIV \<times> {..<n}"
    using Cons.prems by auto
  ultimately show ?case using p by auto
qed simp

lemma assign_many_ok:
  assumes "cpu_env_ok env domains n" and "0 < n" and "\<forall>u\<in>set us. vm_id u < length domains"
  shows "\<exists>pins. assign_many_vms fp env n (VIR_CPU_MAPLEN n) domains (map (vm_pcpu env) domains) us = Inr pins \<and>
     map fst pins = map (\<lambda>u. domains ! vm_id u) us \<and> (\<forall>a\<in>set pins. snd a < n)"
proof -
  let ?st0 = "\<lparr>ms_new_mapping = replicate n 0, ms_workloads = replicate n (fp_of_int fp 0), ms_pins = []\<rparr>"
  have ok0: "ms_ok n 0 ?st0" by (simp add: ms_ok_def ms_used_def)
  obtain st where st: "foldm (many_vms_step env n (VIR_CPU_MAPLEN n) domains (map (vm_pcpu env) domains)) (take n us) ?st0 = Inr st"
    "ms_ok n (length (take n us)) st" "map fst (ms_pins st) = map (\<lambda>u. domains ! vm_id u) (take n us)"
    "set (ms_pins st) \<subseteq> UNIV \<times> {..<n}"
    using many_loop_ok [OF assms(1) refl ok0, of "take n us"] assms(3) by (auto dest: in_set_takeD)
  then have "length (ms_workloads st) = n" by (simp add: ms_ok_def)
  then obtain ws' pins' where "foldm (least_loaded_step fp env (VIR_CPU_MAPLEN n) domains) (drop n us) (ms_workloads st, ms_pins st) = Inr (ws', pins')"
    "map fst pins' = map fst (ms_pins st) @ map (\<lambda>u. domains ! vm_id u) (drop n us)" "set pins' \<subseteq> set (ms_pins st) \<union> UNIV \<times> {..<n}"
    using least_loaded_loop_ok [OF assms(1,2)] assms(3) by (metis in_set_dropD)
  moreover have "map (\<lambda>u. domains ! vm_id u) (take n us) @ map (\<lambda>u. domains ! vm_id u) (drop n us) = map (\<lambda>u. domains ! vm_id u) us"
    by (metis append_take_drop_id map_append)
  ultimately show ?thesis using st unfolding assign_many_vms_def by fastforce
qed

section \<open>Whole iterations\<close>

text \<open>Every pCPU gets the usages of the VMs mapped to it, added up in list order.\<close>

definition add_usages :: "'d fpu \<Rightarrow> (nat \<Rightarrow> int) \<Rightarrow> 'd VM_CPU_Usage list \<Rightarrow> 'd \<Rightarrow> nat \<Rightarrow> 'd" where
  "add_usages fp m us w p =
     fold (\<lambda>u w. if m (vm_id u) = int p then fp_add fp w (cpu_usage u) else w) us w"

lemma workload_ok:
  assumes "\<forall>u\<in>set us. vm_id u < length mapping" and "\<forall>p\<in>set mapping. 0 \<le> p \<and> p < int (length ws)"
  shows "calculate_pcpu_workload fp us mapping ws =
    Inr (map (\<lambda>p. add_usages fp ((!) mapping) us (ws ! p) p) [0..<length ws])"
  using assms
proof (induction us arbitrary: ws)
  case Nil
  then show ?case by (simp add: calculate_pcpu_workload_def add_usages_def map_nth)
next
  case (Cons u us)
  have "mapping ! vm_id u \<in> set mapping" using Cons.prems(1) by simp
  then obtain q where q: "mapping ! vm_id u = int q" "q < length ws"
    using Cons.prems(2) by (metis nonneg_int_cases of_nat_less_iff)
  let ?ws = "ws[q := fp_add fp (ws ! q) (cpu_usage u)]"
  have "calculate_pcpu_workload fp (u # us) mapping ws = calculate_pcpu_workload fp us mapping ?ws"
    using Cons.prems(1) q by (simp add: calculate_pcpu_workload_def rd_def wr_def)
  also have "\<dots> = Inr (map (\<lambda>p. add_usages fp ((!) mapping) us (?ws ! p) p) [0..<length ws])"
    using Cons.IH [of ?ws] Cons.prems by simp
  also have "map (\<lambda>p. add_usages fp ((!) mapping) us (?ws ! p) p) [0..<length ws] =
      map (\<lambda>p. add_usages fp ((!) mapping) (u # us) (ws ! p) p) [0..<length ws]"
    using q by (auto simp: add_usages_def)
  finally show ?case .
qed

lemma cmp_le_0:
  assumes "fp_ordered_on fp V" and "cpu_usage x \<in> V" and "cpu_usage y \<in> V"
  shows "cmp_vm_usage fp x y \<le> 0 \<longleftrightarrow> \<not> fp_lt fp (cpu_usage x) (cpu_usage y)"
  using fp_ordered_onD(5) [OF assms] by (auto simp: cmp_vm_usage_def fp_ordered_onD(4) [OF assms])

lemma cmp_consistent:
  assumes "fp_ordered_on fp V" and "cpu_usage ` set us \<subseteq> V"
  shows "consistent (cmp_vm_usage fp) us"
proof -
  have V: "cpu_usage u \<in> V" if "u \<in> set us" for u using assms(2) that by auto
  note le = cmp_le_0 [OF assms(1) V V]
  show ?thesis
    unfolding consistent_def
  proof (intro ballI conjI impI)
    fix x y z assume x: "x \<in> set us" and y: "y \<in> set us" and z: "z \<in> set us"
    show "cmp_vm_usage fp x y \<le> 0 \<or> cmp_vm_usage fp y x \<le> 0"
      using fp_ordered_onD(5) [OF assms(1) V [OF x] V [OF y]] by (simp only: le [OF x y] le [OF y x])
    assume "cmp_vm_usage fp x y \<le> 0" "cmp_vm_usage fp y z \<le> 0"
    then show "cmp_vm_usage fp x z \<le> 0"
      unfolding le [OF x y] le [OF y z] le [OF x z] by (rule fp_ordered_onD(3) [OF assms(1) V [OF x] V [OF y] V [OF z]])
  qed
qed

lemma consistentD:
  assumes "consistent cmp xs" and "x \<in> set xs" and "y \<in> set xs"
  shows "cmp x y \<le> 0 \<or> cmp y x \<le> 0" and "z \<in> set xs \<Longrightarrow> cmp x y \<le> 0 \<Longrightarrow> cmp y z \<le> 0 \<Longrightarrow> cmp x z \<le> 0"
  using assms unfolding consistent_def by blast+

lemma consistent_mono: "consistent cmp xs \<Longrightarrow> set ys \<subseteq> set xs \<Longrightarrow> consistent cmp ys"
  unfolding consistent_def by blast

lemma qsort_usages:
  assumes "is_qsort qsort" and "fp_ordered_on fp (cpu_usage ` set us)"
  shows "mset (qsort (cmp_vm_usage fp) us) = mset us"
    and "sorted_wrt (\<lambda>u v. \<not> fp_lt fp (cpu_usage u) (cpu_usage v)) (qsort (cmp_vm_usage fp) us)"
proof -
  show ms: "mset (qsort (cmp_vm_usage fp) us) = mset us" using assms(1) by (simp add: is_qsort_def)
  have "sorted_wrt (\<lambda>x y. cmp_vm_usage fp x y \<le> 0) (qsort (cmp_vm_usage fp) us)"
    using assms(1) cmp_consistent [OF assms(2) order_refl] by (simp add: is_qsort_def)
  then show "sorted_wrt (\<lambda>u v. \<not> fp_lt fp (cpu_usage u) (cpu_usage v)) (qsort (cmp_vm_usage fp) us)"
    by (rule sorted_wrt_mono_rel [rotated])
      (simp add: cmp_le_0 [OF assms(2)] mset_eq_setD [OF ms])
qed

lemma rd_first: "ts \<noteq> [] \<Longrightarrow> rd ts 0 = Inr (ts ! 0)"
  by (simp add: rd_def)

text \<open>The part of an iteration up to the decision whether the workload is balanced.\<close>

definition measured_usages :: "'d fpu \<Rightarrow> libvirt_cpu \<Rightarrow> nat list \<Rightarrow> int \<Rightarrow> u64 list \<Rightarrow> 'd VM_CPU_Usage list" where
  "measured_usages fp env domains interval ts =
     map (usage_of fp interval ts (map (vm_time env) domains)) [0..<length domains]"

definition measured_times :: "libvirt_cpu \<Rightarrow> nat list \<Rightarrow> u64 list \<Rightarrow> u64 list" where
  "measured_times env domains ts = map (vm_time env) domains @ drop (length domains) ts"

definition rebalance ::
    "'d fpu \<Rightarrow> 'd VM_CPU_Usage qsort_fun \<Rightarrow> libvirt_cpu \<Rightarrow> nat \<Rightarrow> nat list \<Rightarrow> 'd VM_CPU_Usage list \<Rightarrow> pin list outcome" where
  "rebalance fp qsort env n domains us =
     (if length domains \<le> n then assign_few_vms env n (VIR_CPU_MAPLEN n) domains (map (vm_pcpu env) domains)
      else assign_many_vms fp env n (VIR_CPU_MAPLEN n) domains (map (vm_pcpu env) domains) (qsort (cmp_vm_usage fp) us))"

text \<open>
  The usage of VM \<open>i\<close> that an iteration measures: the percentage of the interval that its CPU time
  has grown by since the last iteration; and the workload of pCPU \<open>p\<close>, the sum of the usages of the VMs
  that libvirt reports on it.
\<close>

definition measured_load :: "'d fpu \<Rightarrow> libvirt_cpu \<Rightarrow> nat list \<Rightarrow> int \<Rightarrow> u64 list \<Rightarrow> nat \<Rightarrow> 'd" where
  "measured_load fp env domains interval ts i =
     fp_div fp (fp_of_ull fp (100 * (vm_time env (domains ! i) - ts ! i))) (fp_of_int fp (interval * 1000000000))"

definition pcpu_load :: "'d fpu \<Rightarrow> libvirt_cpu \<Rightarrow> nat list \<Rightarrow> (nat \<Rightarrow> 'd) \<Rightarrow> nat \<Rightarrow> 'd" where
  "pcpu_load fp env domains load p =
     fold (\<lambda>i w. if vm_pcpu env (domains ! i) = int p then fp_add fp w (load i) else w)
       [0..<length domains] (fp_of_int fp 0)"

lemma measured_usages_load:
  "measured_usages fp env domains interval ts =
     map (\<lambda>i. \<lparr>cpu_usage = measured_load fp env domains interval ts i, vm_id = i\<rparr>) [0..<length domains]"
  by (simp add: measured_usages_def usage_of_def measured_load_def)

lemma add_usages_load:
  "add_usages fp ((!) (map (vm_pcpu env) domains)) (measured_usages fp env domains interval ts) (fp_of_int fp 0) p =
     pcpu_load fp env domains (measured_load fp env domains interval ts) p"
  by (auto simp: add_usages_def pcpu_load_def measured_usages_load fold_map comp_def intro!: fold_cong)

lemma CPUScheduler_measured:
  assumes env: "cpu_env_ok env domains n" and ts: "length domains \<le> length ts" "ts \<noteq> []" "ts ! 0 \<noteq> 0" and iv: "\<bar>interval\<bar> \<le> 2"
  shows "CPUScheduler fp qsort env n interval ts =
      (if fp_lt fp (fp_of_int fp BALANCE_THRESHOLD)
            (calculate_std_dev fp (map (pcpu_load fp env domains (measured_load fp env domains interval ts)) [0..<n])) then
         bnd (rebalance fp qsort env n domains (measured_usages fp env domains interval ts))
           (\<lambda>pins. Inr (measured_times env domains ts, pins))
       else Inr (measured_times env domains ts, []))"
proof -
  let ?cur = "map (vm_time env) domains" and ?n = "length domains"
  let ?us = "measured_usages fp env domains interval ts" and ?m = "map (vm_pcpu env) domains"
  have us: "calculate_vm_cpu_usages fp interval ts ?cur ?n = Inr ?us"
    unfolding measured_usages_def by (rule usages_ok) (use ts iv in simp_all)
  obtain r where map: "get_cpu_mapping env domains (replicate ?n 0) = Inr (?m, r)"
    using get_cpu_mapping_ok [OF env] by blast
  have "\<forall>p\<in>set ?m. 0 \<le> p \<and> p < int n"
    using cpu_env_okD [OF env] by (metis (no_types, lifting) image_iff list.set_map)
  then have "calculate_pcpu_workload fp ?us ?m (replicate n (fp_of_int fp 0)) =
      Inr (map (\<lambda>p. add_usages fp ((!) ?m) ?us (replicate n (fp_of_int fp 0) ! p) p) [0..<n])"
    using workload_ok [of ?us ?m "replicate n (fp_of_int fp 0)" fp]
    by (simp add: measured_usages_load)
  also have "map (\<lambda>p. add_usages fp ((!) ?m) ?us (replicate n (fp_of_int fp 0) ! p) p) [0..<n] =
      map (pcpu_load fp env domains (measured_load fp env domains interval ts)) [0..<n]"
    by (rule map_cong [OF refl]) (simp add: add_usages_load)
  finally have ws: "calculate_pcpu_workload fp ?us ?m (replicate n (fp_of_int fp 0)) =
      Inr (map (pcpu_load fp env domains (measured_load fp env domains interval ts)) [0..<n])" .
  have active: "get_active_vm_cpu env = Some domains" using env by (simp add: get_active_vm_cpu_def cpu_env_ok_def)
  show ?thesis
    by (simp add: CPUScheduler_def active get_vm_cpu_times_ok [OF env] rd_first [OF ts(2)] ts us ws
         store_cpu_times_ok map Let_def measured_times_def rebalance_def del: map_map)
qed

section \<open>Instances\<close>

text \<open>Exact real arithmetic in place of \<open>double\<close>, with the limits of \<open>double\<close>.\<close>

definition real_fpu :: "real fpu" where
  "real_fpu = \<lparr>fp_add = (+), fp_sub = (-), fp_mul = (*), fp_div = (/), fp_sqrt = sqrt, fp_lt = (<), fp_eq = (=),
     fp_of_ull = (\<lambda>x. real (unat x)), fp_of_int = of_int, DBL_MAX = 2 ^ 1024 - 2 ^ 971, DBL_MIN = 1 / 2 ^ 1022\<rparr>"

lemma fp_ordered_real: "fp_ordered_on real_fpu V"
  by (auto simp: fp_ordered_on_def real_fpu_def)

text \<open>Insertion sort meets the specification of \<open>qsort\<close>.\<close>

fun insort_cmp :: "('a \<Rightarrow> 'a \<Rightarrow> int) \<Rightarrow> 'a \<Rightarrow> 'a list \<Rightarrow> 'a list" where
  "insort_cmp cmp x [] = [x]"
| "insort_cmp cmp x (y # ys) = (if cmp x y \<le> 0 then x # y # ys else y # insort_cmp cmp x ys)"

definition sort_cmp :: "'a qsort_fun" where
  "sort_cmp cmp xs = foldr (insort_cmp cmp) xs []"

lemma insort_cmp_mset: "mset (insort_cmp cmp x ys) = add_mset x (mset ys)"
  by (induction ys) auto

lemma sort_cmp_mset: "mset (sort_cmp cmp xs) = mset xs"
  by (induction xs) (auto simp: sort_cmp_def insort_cmp_mset)

lemma insort_cmp_sorted:
  assumes "consistent cmp (x # ys)" and "sorted_wrt (\<lambda>x y. cmp x y \<le> 0) ys"
  shows "sorted_wrt (\<lambda>x y. cmp x y \<le> 0) (insort_cmp cmp x ys)"
  using assms
proof (induction ys)
  case (Cons y ys)
  have c: "consistent cmp (x # ys)" by (rule consistent_mono [OF Cons.prems(1)]) auto
  show ?case
  proof (cases "cmp x y \<le> 0")
    case True
    moreover have "cmp x z \<le> 0" if "z \<in> set ys" for z
      using consistentD(2) [OF Cons.prems(1), of x y z] Cons.prems(2) that True by simp
    ultimately show ?thesis using Cons.prems(2) by auto
  next
    case False
    then have "cmp y x \<le> 0" using consistentD(1) [OF Cons.prems(1), of x y] by simp
    moreover have "set (insort_cmp cmp x ys) = insert x (set ys)"
      using insort_cmp_mset [of cmp x ys] by (metis set_mset_add_mset_insert set_mset_mset)
    ultimately show ?thesis using False Cons.IH [OF c] Cons.prems(2) by auto
  qed
qed simp

lemma is_qsort_sort_cmp: "is_qsort sort_cmp"
  unfolding is_qsort_def
proof (intro allI conjI impI)
  fix cmp :: "'a \<Rightarrow> 'a \<Rightarrow> int" and xs
  show "mset (sort_cmp cmp xs) = mset xs" by (rule sort_cmp_mset)
  show "consistent cmp xs \<Longrightarrow> sorted_wrt (\<lambda>x y. cmp x y \<le> 0) (sort_cmp cmp xs)"
  proof (induction xs)
    case (Cons x xs)
    have "set (sort_cmp cmp xs) = set xs" by (rule mset_eq_setD) (rule sort_cmp_mset)
    then have "consistent cmp xs" "consistent cmp (x # sort_cmp cmp xs)"
      by (auto intro: consistent_mono [OF Cons.prems])
    then show ?case using insort_cmp_sorted [of cmp x "sort_cmp cmp xs"] Cons.IH by (simp add: sort_cmp_def)
  qed (simp add: sort_cmp_def)
qed

section \<open>Properties\<close>

lemma rebalance_many:
  assumes "cpu_env_ok env domains n" and "0 < n" and "n < length domains" and "is_qsort qsort"
    and "fp_ordered_on fp (measured_load fp env domains interval ts ` {..<length domains})"
  shows "\<exists>pins is. rebalance fp qsort env n domains (measured_usages fp env domains interval ts) = Inr pins \<and>
    mset is = mset [0..<length domains] \<and> map fst pins = map ((!) domains) is \<and>
    sorted_wrt (\<lambda>i j. \<not> fp_lt fp (measured_load fp env domains interval ts i) (measured_load fp env domains interval ts j)) is \<and>
    list_all (\<lambda>a. snd a < n) pins"
proof -
  let ?load = "measured_load fp env domains interval ts"
  let ?us = "measured_usages fp env domains interval ts"
  let ?qs = "qsort (cmp_vm_usage fp) ?us"
  have "cpu_usage ` set ?us = ?load ` {..<length domains}"
    by (auto simp: measured_usages_load image_image)
  then have qs: "mset ?qs = mset ?us" "sorted_wrt (\<lambda>u v. \<not> fp_lt fp (cpu_usage u) (cpu_usage v)) ?qs"
    using qsort_usages [of qsort fp ?us] assms(4,5) by simp_all
  have elem: "vm_id u < length domains \<and> cpu_usage u = ?load (vm_id u)" if "u \<in> set ?qs" for u
    using that unfolding mset_eq_setD [OF qs(1)] by (auto simp: measured_usages_load)
  then obtain pins where pins: "assign_many_vms fp env n (VIR_CPU_MAPLEN n) domains (map (vm_pcpu env) domains) ?qs = Inr pins"
    "map fst pins = map (\<lambda>u. domains ! vm_id u) ?qs" "\<forall>a\<in>set pins. snd a < n"
    using assign_many_ok [OF assms(1,2)] by blast
  have "mset (map vm_id ?qs) = mset (map vm_id ?us)" by (simp only: mset_map qs(1))
  also have "map vm_id ?us = [0..<length domains]" by (simp add: measured_usages_load comp_def)
  finally have perm: "mset (map vm_id ?qs) = mset [0..<length domains]" .
  have "sorted_wrt (\<lambda>i j. \<not> fp_lt fp (?load i) (?load j)) (map vm_id ?qs)"
    unfolding sorted_wrt_map using qs(2) by (rule sorted_wrt_mono_rel [rotated]) (use elem in auto)
  moreover have "rebalance fp qsort env n domains ?us = Inr pins" using assms(3) pins(1) by (simp add: rebalance_def)
  moreover have "map fst pins = map ((!) domains) (map vm_id ?qs)" using pins(2) by simp
  ultimately show ?thesis using perm pins(3) by (intro exI [of _ pins] exI [of _ "map vm_id ?qs"]) (simp add: list_all_iff)
qed


text \<open>Three VMs on a host with two pCPUs, all running on pCPU 0.\<close>

definition demo_cpu_env :: "libvirt_cpu" where
  "demo_cpu_env = \<lparr>CpuListAllDomains = Some [7, 8, 9], DomainCPUStatsCount = (\<lambda>_. Some 1),
     DomainCPUStats = (\<lambda>d. Some [(''cpu_time'', 1 + 1000000000 * of_nat d)]), DomainGetVcpus = (\<lambda>_. Some (0, [1])),
     DomainPinVcpu = (\<lambda>_ _. True)\<rparr>"

lemma demo_cpu_env_ok: "0 < n \<Longrightarrow> cpu_env_ok demo_cpu_env [7, 8, 9] n"
  by (simp add: cpu_env_ok_def demo_cpu_env_def)

lemma sqrt_gt_5: "25 < x \<Longrightarrow> 5 < sqrt (x :: real)"
  using real_sqrt_less_mono [of 25 x] real_sqrt_abs [of 5] by simp

lemma demo_load: "i < 3 \<Longrightarrow> measured_load real_fpu demo_cpu_env [7, 8, 9] 1 (replicate 32 1) i = 700 + 100 * real i"
  by (auto simp: measured_load_def vm_time_def cpu_time_param_def demo_cpu_env_def real_fpu_def less_Suc_eq numeral_3_eq_3)

lemma demo_pcpu_load:
  "pcpu_load real_fpu demo_cpu_env [7, 8, 9] load p = (if p = 0 then load 0 + load 1 + load 2 else 0)"
  by (simp add: pcpu_load_def upt_rec vm_pcpu_def demo_cpu_env_def real_fpu_def numeral_2_eq_2)

lemma demo_loads:
  "map (pcpu_load real_fpu demo_cpu_env [7, 8, 9] (measured_load real_fpu demo_cpu_env [7, 8, 9] 1 (replicate 32 1)))
      [0..<2] = [2400, 0]"
  "map (pcpu_load real_fpu demo_cpu_env [7, 8, 9] (measured_load real_fpu demo_cpu_env [7, 8, 9] 1 (replicate 32 1)))
      [0..<4] = [2400, 0, 0, 0]"
  by (simp_all add: demo_pcpu_load demo_load upt_rec)

lemma real_lt: "fp_lt real_fpu x y \<longleftrightarrow> x < y"
  by (simp add: real_fpu_def)

lemma demo_unbalanced:
  "fp_lt real_fpu (fp_of_int real_fpu BALANCE_THRESHOLD) (calculate_std_dev real_fpu [2400, 0])"
  "fp_lt real_fpu (fp_of_int real_fpu BALANCE_THRESHOLD) (calculate_std_dev real_fpu [2400, 0, 0, 0])"
  using sqrt_gt_5 [of 1440000] sqrt_gt_5 [of 1080000]
  by (simp_all add: calculate_std_dev_def real_fpu_def BALANCE_THRESHOLD_def Let_def)

lemma demo_order:
  assumes ms: "mset is = mset [0..<length [7 :: nat, 8, 9]]"
    and srt: "sorted_wrt (\<lambda>i j. \<not> fp_lt real_fpu (measured_load real_fpu demo_cpu_env [7, 8, 9] 1 (replicate 32 1) i)
      (measured_load real_fpu demo_cpu_env [7, 8, 9] 1 (replicate 32 1) j)) is"
  shows "is = [2, 1, 0]"
proof -
  have "length [7 :: nat, 8, 9] = 3" by simp
  with ms have is3: "mset is = mset [0..<3]" by (simp only:)
  have lt: "i < 3" if "i \<in> set is" for i
    using that mset_eq_setD [OF is3] by simp
  have "sorted_wrt (\<lambda>i j. j \<le> i) is"
    using srt by (rule sorted_wrt_mono_rel [rotated]) (simp add: demo_load [OF lt] real_lt)
  then have "sorted (rev is)" by (simp add: sorted_wrt_rev)
  moreover have "mset (rev is) = mset [0..<3]" using is3 by simp
  ultimately have "rev is = sort [0..<3]" by (intro properties_for_sort [symmetric])
  also have "\<dots> = [0, 1, 2]" by (simp add: upt_rec)
  finally show ?thesis by (metis append.simps(1,2) rev.simps(1,2) rev_rev_ident)
qed


text \<open>
  Among the VMs beyond the number of pCPUs, each goes to the first of the pCPUs with the
  least workload, provided no workload reaches \<open>DBL_MAX\<close>.
\<close>

theorem min_workload_is_least:
  assumes "fp_ordered_on fp UNIV" and "workloads \<noteq> []" and "\<forall>w\<in>set workloads. fp_lt fp w (DBL_MAX fp)"
  shows "min_workload fp workloads < length workloads
    \<and> (\<forall>j<length workloads. \<not> fp_lt fp (workloads ! j) (workloads ! min_workload fp workloads))
    \<and> (\<forall>j<min_workload fp workloads. fp_lt fp (workloads ! min_workload fp workloads) (workloads ! j))"
proof -
  obtain p m where "fold (\<lambda>j (min_wl_p_cpu, min_wl). if fp_lt fp (workloads ! j) min_wl then (j, workloads ! j) else (min_wl_p_cpu, min_wl))
       [0..<length workloads] (0, DBL_MAX fp) = (p, m)" "p < length workloads" "m = workloads ! p"
     "\<forall>j<length workloads. \<not> fp_lt fp (workloads ! j) m" "\<forall>j<p. fp_lt fp m (workloads ! j)"
    using min_fold [OF assms(1,3) order_refl] assms(2) by auto
  then show ?thesis by (simp add: min_workload_def)
qed

theorem min_workload_is_least_witness:
  "min_workload real_fpu [30, 10, 20, 10] < 4
    \<and> \<not> fp_lt real_fpu 10 ([30, 10, 20, 10] ! min_workload real_fpu [30, 10, 20, 10])
    \<and> min_workload real_fpu [30, 10, 20, 10] = 1"
proof -
  note least = min_workload_is_least [OF fp_ordered_real, of "[30, 10, 20, 10]"]
  have "\<forall>w\<in>set [30, 10, 20, 10 :: real]. fp_lt real_fpu w (DBL_MAX real_fpu)" by (simp add: real_fpu_def)
  then have "\<forall>j<length [30, 10, 20, 10 :: real]. \<not> fp_lt real_fpu ([30, 10, 20, 10] ! j) ([30, 10, 20, 10] ! min_workload real_fpu [30, 10, 20, 10])"
    and "min_workload real_fpu [30, 10, 20, 10] < length [30, 10, 20, 10 :: real]"
    using least by simp_all
  moreover have "min_workload real_fpu [30, 10, 20, 10] = 1"
    by (simp add: min_workload_def real_fpu_def upt_rec)
  ultimately show ?thesis by (auto dest!: spec [of _ "3 :: nat"])
qed

text \<open>
  With at most as many VMs as pCPUs, an iteration pins at most one of the VMs, however many
  share a pCPU: the loop that looks for a free pCPU does not stop at the first one, so the
  first VM in conflict occupies all of them.
\<close>

theorem few_vms_move_at_most_one:
  assumes "CPUScheduler fp qsort env n_host_cpus interval cpu_times = Inr (cpu_times', pins)"
    and "CpuListAllDomains env = Some domains" and "length domains \<le> n_host_cpus"
  shows "\<forall>a\<in>set pins. \<forall>b\<in>set pins. fst a = fst b"
proof -
  have few: "\<forall>a\<in>set ps. \<forall>b\<in>set ps. fst a = fst b"
    if r: "assign_few_vms env n_host_cpus len domains mapping = Inr ps" for len mapping ps
  proof -
    obtain nm where "foldm (few_vms_step env n_host_cpus len domains mapping) [0..<length domains] (replicate n_host_cpus 0, []) = Inr (nm, ps)"
      using r by (auto simp: assign_few_vms_def bnd_eq_Inr split: prod.splits)
    from few_loop_inv [OF this] show ?thesis unfolding few_inv_def prod.case by blast
  qed
  from assms show ?thesis
    by (auto simp: CPUScheduler_def get_active_vm_cpu_def bnd_eq_Inr Let_def dest!: few split: if_splits prod.splits)
qed

text \<open>Three VMs that share pCPU 0 of four: VM 2 is pinned to the other three pCPUs in turn.\<close>

lemma demo_few: "assign_few_vms demo_cpu_env 4 1 [7, 8, 9] [0, 0, 0] = Inr [(9, 1), (9, 2), (9, 3)]"
  by (simp add: assign_few_vms_def few_vms_step_def few_vms_inner_def pin_vm_to_pcpu_def pin_map_def demo_cpu_env_def
      upt_rec rd_def wr_def)

lemma demo_few_run: "CPUScheduler real_fpu sort_cmp demo_cpu_env 4 1 (replicate 32 1)
    = Inr (measured_times demo_cpu_env [7, 8, 9] (replicate 32 1), [(9, 1), (9, 2), (9, 3)])"
proof -
  have vp: "map (vm_pcpu demo_cpu_env) [7, 8, 9] = [0, 0, 0]" by (simp add: vm_pcpu_def demo_cpu_env_def)
  have reb: "rebalance real_fpu sort_cmp demo_cpu_env 4 [7, 8, 9] us = Inr [(9, 1), (9, 2), (9, 3)]" for us
    using demo_few by (simp add: rebalance_def vp [simplified] VIR_CPU_MAPLEN_def)
  show ?thesis
    using CPUScheduler_measured [OF demo_cpu_env_ok, of 4 "replicate 32 1" 1 real_fpu sort_cmp] demo_unbalanced(2)
    unfolding demo_loads(2) reb by simp
qed

theorem few_vms_move_at_most_one_witness:
  "CPUScheduler real_fpu sort_cmp demo_cpu_env 4 1 (replicate 32 1)
    = Inr (measured_times demo_cpu_env [7, 8, 9] (replicate 32 1), [(9, 1), (9, 2), (9, 3)])
   \<and> list_all (\<lambda>a. list_all (\<lambda>b. fst a = fst b) [(9, 1), (9, 2), (9 :: nat, 3 :: nat)]) [(9, 1), (9, 2), (9, 3 :: nat)]"
  using few_vms_move_at_most_one [OF demo_few_run, of "[7, 8, 9]"] demo_few_run
  by (simp add: demo_cpu_env_def)

text \<open>
  The CPU map passed to \<open>virDomainPinVcpu\<close> for a pCPU of the host has \<open>VIR_CPU_MAPLEN\<close>
  bytes, and exactly the bit of that pCPU is set in it.
\<close>

theorem pin_map_one_hot:
  assumes "p_cpu < n_host_cpus"
  shows "\<exists>cpumaps. pin_map (VIR_CPU_MAPLEN n_host_cpus) p_cpu = Inr cpumaps
    \<and> length cpumaps = VIR_CPU_MAPLEN n_host_cpus
    \<and> (\<forall>q < 8 * VIR_CPU_MAPLEN n_host_cpus. bit (cpumaps ! (q div 8)) (q mod 8) \<longleftrightarrow> q = p_cpu)"
proof (intro exI conjI allI impI)
  let ?m = "(replicate (VIR_CPU_MAPLEN n_host_cpus) 0)[p_cpu div 8 := push_bit (p_cpu mod 8) (1 :: u8)]"
  show "pin_map (VIR_CPU_MAPLEN n_host_cpus) p_cpu = Inr ?m" by (rule pin_map_ok [OF assms])
  fix q assume q: "q < 8 * VIR_CPU_MAPLEN n_host_cpus"
  have lt: "q div 8 < VIR_CPU_MAPLEN n_host_cpus" using q by (simp add: less_mult_imp_div_less mult.commute)
  have "bit (push_bit (p_cpu mod 8) (1 :: u8)) (q mod 8) \<longleftrightarrow> q mod 8 = p_cpu mod 8"
    by (auto simp: bit_exp_iff)
  moreover have "q = p_cpu \<longleftrightarrow> q div 8 = p_cpu div 8 \<and> q mod 8 = p_cpu mod 8"
    by (metis div_mult_mod_eq)
  moreover have "?m ! (q div 8) = (if q div 8 = p_cpu div 8 then push_bit (p_cpu mod 8) 1 else 0)"
    using lt by (cases "p_cpu div 8 < VIR_CPU_MAPLEN n_host_cpus") (simp_all add: nth_list_update list_update_beyond)
  ultimately show "bit (?m ! (q div 8)) (q mod 8) \<longleftrightarrow> q = p_cpu"
    by (cases "q div 8 = p_cpu div 8") simp_all
qed simp

theorem pin_map_one_hot_witness:
  "\<exists>cpumaps. pin_map (VIR_CPU_MAPLEN 12) 9 = Inr cpumaps \<and> length cpumaps = VIR_CPU_MAPLEN 12
    \<and> (\<forall>q < 8 * VIR_CPU_MAPLEN 12. bit (cpumaps ! (q div 8)) (q mod 8) \<longleftrightarrow> q = 9)"
  by (rule pin_map_one_hot) simp

text \<open>
  \<open>interval * 1000000000\<close> is computed in \<open>int\<close>: for an interval of three seconds or more the
  second iteration that sees a VM stops with a signed overflow.
\<close>

theorem CPUScheduler_interval_overflow:
  assumes "cpu_env_ok env domains n_host_cpus" and "domains \<noteq> []" and "cpu_times \<noteq> []" and "cpu_times ! 0 \<noteq> 0"
    and "3 \<le> interval"
  shows "CPUScheduler fp qsort env n_host_cpus interval cpu_times = Inl SignedOverflow"
proof -
  have "get_active_vm_cpu env = Some domains" using assms(1) by (simp add: get_active_vm_cpu_def cpu_env_ok_def)
  moreover have "calculate_vm_cpu_usages fp interval cpu_times (map (vm_time env) domains) (length domains) = Inl SignedOverflow"
    by (rule usages_overflow) (use assms(2,3,5) in simp_all)
  ultimately show ?thesis
    by (simp add: CPUScheduler_def get_vm_cpu_times_ok [OF assms(1)] rd_first [OF assms(3)] assms(4) Let_def)
qed

theorem CPUScheduler_interval_overflow_witness:
  "CPUScheduler real_fpu sort_cmp demo_cpu_env 4 3 (replicate 32 1) = Inl SignedOverflow"
  by (rule CPUScheduler_interval_overflow [OF demo_cpu_env_ok]) simp_all

text \<open>
  While the first entry of \<open>cpu_times\<close> is 0, an iteration moves no VM and only stores the
  measured times, if there are at most as many VMs as entries; with more VMs it writes
  behind the end of the array.
\<close>

theorem CPUScheduler_first_iteration:
  assumes "cpu_env_ok env domains n_host_cpus" and "cpu_times \<noteq> []" and "cpu_times ! 0 = 0"
  shows "CPUScheduler fp qsort env n_host_cpus interval cpu_times =
    (if length domains \<le> length cpu_times then Inr (measured_times env domains cpu_times, []) else Inl OutOfBounds)"
proof -
  have "get_active_vm_cpu env = Some domains" using assms(1) by (simp add: get_active_vm_cpu_def cpu_env_ok_def)
  then show ?thesis
    by (simp add: CPUScheduler_def get_vm_cpu_times_ok [OF assms(1)] rd_first [OF assms(2)] assms(3) Let_def
        store_cpu_times_ok store_cpu_times_overrun measured_times_def)
qed

theorem CPUScheduler_first_iteration_witness:
  "CPUScheduler real_fpu sort_cmp demo_cpu_env 2 1 (replicate MAX_VM 0) =
    (if length [7 :: nat, 8, 9] \<le> length (replicate MAX_VM (0 :: u64))
     then Inr (measured_times demo_cpu_env [7, 8, 9] (replicate MAX_VM 0), []) else Inl OutOfBounds)"
  by (rule CPUScheduler_first_iteration [OF demo_cpu_env_ok]) (simp_all add: MAX_VM_def)

text \<open>
  In exact arithmetic, \<open>calculate_std_dev\<close> is the square root of the mean squared deviation
  from the mean, and it is 0 exactly when all pCPUs carry the same workload.
\<close>

theorem calculate_std_dev_exact:
  assumes "workloads \<noteq> []"
  shows "calculate_std_dev real_fpu workloads =
      sqrt ((\<Sum>w\<leftarrow>workloads. (w - sum_list workloads / length workloads)\<^sup>2) / length workloads)
    \<and> (calculate_std_dev real_fpu workloads = 0 \<longleftrightarrow> (\<forall>v\<in>set workloads. \<forall>w\<in>set workloads. v = w))"
proof -
  let ?n = "real (length workloads)" and ?m = "sum_list workloads / real (length workloads)"
  have f1: "fold (\<lambda>w acc. acc + w) ws a = a + sum_list ws" for ws :: "real list" and a
    by (induction ws arbitrary: a) simp_all
  have f2: "fold (\<lambda>w acc. acc + (w - m) * (w - m)) ws a = a + (\<Sum>w\<leftarrow>ws. (w - m)\<^sup>2)" for ws :: "real list" and a m
    by (induction ws arbitrary: a) (simp_all add: power2_eq_square)
  have eq: "calculate_std_dev real_fpu workloads = sqrt ((\<Sum>w\<leftarrow>workloads. (w - ?m)\<^sup>2) / ?n)"
    by (simp add: calculate_std_dev_def real_fpu_def Let_def f1 f2)
  have n: "0 < ?n" using assms by simp
  have "(\<Sum>w\<leftarrow>workloads. (w - ?m)\<^sup>2) = 0 \<longleftrightarrow> (\<forall>w\<in>set workloads. w = ?m)"
    by (subst sum_list_nonneg_eq_0_iff) auto
  moreover have "(\<forall>w\<in>set workloads. w = ?m) \<longleftrightarrow> (\<forall>v\<in>set workloads. \<forall>w\<in>set workloads. v = w)"
  proof
    assume all: "\<forall>v\<in>set workloads. \<forall>w\<in>set workloads. v = w"
    then have "\<forall>w\<in>set workloads. w = hd workloads" using assms by simp
    then have r: "workloads = replicate (length workloads) (hd workloads)" by (simp add: replicate_length_same)
    have "sum_list workloads = ?n * hd workloads" by (subst r) (simp add: sum_list_replicate)
    then show "\<forall>w\<in>set workloads. w = ?m" using all assms n by simp
  qed metis
  ultimately show ?thesis using eq n by simp
qed

theorem calculate_std_dev_exact_witness:
  "calculate_std_dev real_fpu [1, 3] =
      sqrt ((\<Sum>w\<leftarrow>[1, 3]. (w - sum_list [1, 3] / length [1 :: real, 3])\<^sup>2) / length [1 :: real, 3])
    \<and> (calculate_std_dev real_fpu [1, 3] = 0 \<longleftrightarrow> (\<forall>v\<in>set [1 :: real, 3]. \<forall>w\<in>set [1, 3]. v = w))"
  by (rule calculate_std_dev_exact) simp

end
