(* ===== verification/BarrierSpec.thy ===== *)
theory BarrierSpec
  imports AOS_Prelude
begin

text \<open>
  What the harnesses of \<^verbatim>\<open>project2\<close> rely on: a group of \<open>n\<close> participants (threads or MPI
  processes) calls a barrier a number of times; \<open>entered s i\<close> and \<open>left s i\<close> count the calls
  that participant \<open>i\<close> has begun and completed. The locale \<open>barrier\<close> is the safety contract,
  \<open>terminating_barrier\<close> adds that a run of the harness ends. Each barrier algorithm
  interprets them on its own step relation.
\<close>

locale barrier =
  fixes n :: nat
    and start :: "'s \<Rightarrow> bool" and step :: "'s \<Rightarrow> 's \<Rightarrow> bool"
    and entered :: "'s \<Rightarrow> nat \<Rightarrow> nat" and left :: "'s \<Rightarrow> nat \<Rightarrow> nat"
  assumes bracket: "reachable start step s \<Longrightarrow> i < n \<Longrightarrow> left s i \<le> entered s i \<and> entered s i \<le> Suc (left s i)"
    and safe: "reachable start step s \<Longrightarrow> i < n \<Longrightarrow> j < n \<Longrightarrow> left s i \<le> entered s j"
begin

text \<open>Participants are never more than one phase apart.\<close>

lemma phases_close:
  assumes "reachable start step s" and "i < n" and "j < n"
  shows "entered s i \<le> Suc (entered s j)" and "left s i \<le> Suc (left s j)"
  using bracket [OF assms(1,2)] bracket [OF assms(1,3)] safe [OF assms] by linarith+

text \<open>Nobody completes a call before everybody has begun it.\<close>

lemma all_entered:
  assumes "reachable start step s" and "i < n" and "k \<le> left s i"
  shows "\<forall>j<n. k \<le> entered s j"
  using safe [OF assms(1,2)] assms(3) by (meson le_trans)

end

locale terminating_barrier = barrier n start step entered left
  for n :: nat and start :: "'s \<Rightarrow> bool" and step :: "'s \<Rightarrow> 's \<Rightarrow> bool"
    and entered :: "'s \<Rightarrow> nat \<Rightarrow> nat" and left :: "'s \<Rightarrow> nat \<Rightarrow> nat" +
  fixes iters :: nat and rank :: "'s \<Rightarrow> nat"
  assumes rank_decreases: "reachable start step s \<Longrightarrow> step s t \<Longrightarrow> rank t < rank s"
    and stuck_done: "reachable start step s \<Longrightarrow> (\<And>t. \<not> step s t) \<Longrightarrow> i < n \<Longrightarrow> left s i = iters"
begin

lemma reach_closed: "step\<^sup>*\<^sup>* s t \<Longrightarrow> reachable start step s \<Longrightarrow> reachable start step t"
  by (induction rule: rtranclp_induct) (auto intro: reachable_step)

text \<open>Every run ends, and it ends with all participants through all their calls.\<close>

lemma run_completes:
  assumes "reachable start step s"
  shows "\<exists>t. step\<^sup>*\<^sup>* s t \<and> (\<forall>i<n. left t i = iters)"
  using assms
proof (induction "rank s" arbitrary: s rule: less_induct)
  case less
  show ?case
  proof (cases "\<exists>t. step s t")
    case True
    then obtain t where t: "step s t" by blast
    with less.prems have "reachable start step t" by (rule reachable_step)
    from less.hyps [OF rank_decreases [OF less.prems t] this] t show ?thesis
      by (meson converse_rtranclp_into_rtranclp)
  next
    case False
    then show ?thesis using stuck_done [OF less.prems] by blast
  qed
qed

lemma run_length:
  assumes "reachable start step s" and "(step ^^ k) s t"
  shows "k + rank t \<le> rank s"
  using assms
proof (induction k arbitrary: t)
  case (Suc k)
  then obtain u where u: "(step ^^ k) s u" "step u t" by auto
  then have "reachable start step u"
    using Suc.prems(1) reach_closed relpowp_imp_rtranclp by metis
  from rank_decreases [OF this u(2)] Suc.IH [OF Suc.prems(1) u(1)] show ?case by simp
qed simp

lemma blocked_iff_done:
  assumes "reachable start step s" and "\<not> (\<exists>t. step s t)"
  shows "\<forall>i<n. left s i = iters"
  using stuck_done [OF assms(1)] assms(2) by blast

end

section \<open>Counting the remaining steps\<close>

text \<open>
  Steps that are left to a participant that is \<open>w\<close> steps into its call number \<open>i\<close> of \<open>N\<close>, when
  a call has at most \<open>c\<close> steps.
\<close>

definition steps_todo :: "nat \<Rightarrow> nat \<Rightarrow> nat \<Rightarrow> nat \<Rightarrow> nat" where
  "steps_todo c N i w = c * (N - i) - w"

lemma steps_todo_call:
  assumes "i < N" and "w < c"
  shows "steps_todo c N (Suc i) 0 < steps_todo c N i w" and "v < w \<Longrightarrow> steps_todo c N i w < steps_todo c N i v"
proof -
  have "N - i = Suc (N - Suc i)" using assms(1) by simp
  then have e: "c * (N - i) = c * (N - Suc i) + c" by simp
  show "steps_todo c N (Suc i) 0 < steps_todo c N i w" "v < w \<Longrightarrow> steps_todo c N i w < steps_todo c N i v"
    unfolding steps_todo_def e using assms(2) by linarith+
qed

lemma sum_one_less:
  fixes f g :: "nat \<Rightarrow> nat"
  assumes "i < n" and "f i < g i" and "\<And>j. j \<noteq> i \<Longrightarrow> f j = g j"
  shows "(\<Sum>j<n. f j) < (\<Sum>j<n. g j)"
proof (rule sum_strict_mono_ex1)
  show "\<forall>j\<in>{..<n}. f j \<le> g j" using assms(2,3) by (metis order.strict_implies_order order_refl)
  show "\<exists>j\<in>{..<n}. f j < g j" using assms(1,2) by blast
qed simp

end
