(* ===== verification/SenseBarrier.thy ===== *)
theory SenseBarrier
  imports BarrierSpec
begin

text \<open>
  The centralised sense-reversing barrier of \<^verbatim>\<open>project2/omp/gtmp1.c\<close>, driven by the loop of
  \<^verbatim>\<open>project2/omp/harness.c\<close>: every OpenMP thread calls \<open>gtmp_barrier\<close> \<open>num_iter\<close> times.

  Each access to a shared variable (\<open>sense\<close>, the atomic \<open>__sync_fetch_and_sub\<close> on \<open>count\<close>, the
  two stores of the last thread) is a step of its own. A spinning thread leaves its loop in a
  step that is enabled once it reads the sense it waits for; its unsuccessful reads change
  nothing and are no steps. Memory is sequentially consistent.
\<close>

section \<open>State and steps\<close>

datatype sb_pc =
    SB_loop            \<comment> \<open>at the head of the harness loop\<close>
  | SB_read            \<comment> \<open>\<open>my_sense = !sense\<close>\<close>
  | SB_sub bool        \<comment> \<open>\<open>__sync_fetch_and_sub(&count, 1) == 1\<close>\<close>
  | SB_reset bool      \<comment> \<open>\<open>count = num_threads\<close>\<close>
  | SB_flip bool       \<comment> \<open>\<open>sense = my_sense\<close>\<close>
  | SB_spin bool       \<comment> \<open>\<open>while (sense != my_sense)\<close>\<close>

record sb_state =
  sb_count :: int
  sb_sense :: bool
  sb_num_threads :: int
  sb_iter :: "nat \<Rightarrow> nat"
  sb_pc :: "nat \<Rightarrow> sb_pc"

definition sb_gtmp_init :: "nat \<Rightarrow> sb_state" where
  "sb_gtmp_init n = \<lparr>sb_count = int n, sb_sense = False, sb_num_threads = int n,
     sb_iter = (\<lambda>_. 0), sb_pc = (\<lambda>_. SB_loop)\<rparr>"

definition sb_goto :: "nat \<Rightarrow> sb_pc \<Rightarrow> sb_state \<Rightarrow> sb_state" where
  "sb_goto i p s = s\<lparr>sb_pc := (sb_pc s)(i := p)\<rparr>"

definition sb_return :: "nat \<Rightarrow> sb_state \<Rightarrow> sb_state" where
  "sb_return i s = s\<lparr>sb_pc := (sb_pc s)(i := SB_loop), sb_iter := (sb_iter s)(i := Suc (sb_iter s i))\<rparr>"

text \<open>One step of thread \<open>i\<close>; \<open>None\<close> when it spins or has finished its loop.\<close>

definition sb_gtmp_barrier :: "nat \<Rightarrow> nat \<Rightarrow> sb_state \<Rightarrow> sb_state option" where
  "sb_gtmp_barrier num_iter i s = (case sb_pc s i of
     SB_loop \<Rightarrow> if sb_iter s i < num_iter then Some (sb_goto i SB_read s) else None
   | SB_read \<Rightarrow> Some (sb_goto i (SB_sub (\<not> sb_sense s)) s)
   | SB_sub my_sense \<Rightarrow>
       Some (sb_goto i (if sb_count s = 1 then SB_reset my_sense else SB_spin my_sense)
               (s\<lparr>sb_count := sb_count s - 1\<rparr>))
   | SB_reset my_sense \<Rightarrow> Some (sb_goto i (SB_flip my_sense) (s\<lparr>sb_count := sb_num_threads s\<rparr>))
   | SB_flip my_sense \<Rightarrow> Some (sb_return i (s\<lparr>sb_sense := my_sense\<rparr>))
   | SB_spin my_sense \<Rightarrow> if sb_sense s = my_sense then Some (sb_return i s) else None)"

inductive sb_step :: "nat \<Rightarrow> nat \<Rightarrow> sb_state \<Rightarrow> sb_state \<Rightarrow> bool" for n num_iter where
  sb_thread: "i < n \<Longrightarrow> sb_gtmp_barrier num_iter i s = Some t \<Longrightarrow> sb_step n num_iter s t"

abbreviation sb_start :: "nat \<Rightarrow> sb_state \<Rightarrow> bool" where
  "sb_start n s \<equiv> s = sb_gtmp_init n"

definition sb_left :: "sb_state \<Rightarrow> nat \<Rightarrow> nat" where
  "sb_left s i = sb_iter s i"

definition sb_entered :: "sb_state \<Rightarrow> nat \<Rightarrow> nat" where
  "sb_entered s i = (if sb_pc s i = SB_loop then sb_iter s i else Suc (sb_iter s i))"

section \<open>Invariant\<close>

text \<open>A thread has arrived once it has decremented the counter in the current phase.\<close>

fun sb_last :: "sb_pc \<Rightarrow> bool" where
  "sb_last (SB_reset m) = True"
| "sb_last (SB_flip m) = True"
| "sb_last _ = False"

definition sb_arrived :: "sb_state \<Rightarrow> nat \<Rightarrow> bool" where
  "sb_arrived s i \<longleftrightarrow> sb_pc s i = SB_spin (\<not> sb_sense s) \<or> sb_last (sb_pc s i)"

definition sb_ok :: "sb_state \<Rightarrow> nat \<Rightarrow> nat \<Rightarrow> bool" where
  "sb_ok s e i \<longleftrightarrow>
     sb_iter s i = e \<and> (sb_pc s i \<in> {SB_loop, SB_read, SB_sub (\<not> sb_sense s), SB_spin (\<not> sb_sense s),
        SB_reset (\<not> sb_sense s), SB_flip (\<not> sb_sense s)}) \<or>
     Suc (sb_iter s i) = e \<and> sb_pc s i = SB_spin (sb_sense s)"

definition sb_flipping :: "nat \<Rightarrow> sb_state \<Rightarrow> bool" where
  "sb_flipping n s \<longleftrightarrow> (\<exists>i<n. sb_pc s i = SB_flip (\<not> sb_sense s))"

definition sb_count_ok :: "nat \<Rightarrow> sb_state \<Rightarrow> bool" where
  "sb_count_ok n s \<longleftrightarrow>
     sb_count s = (if sb_flipping n s then int n else int n - int (card {i. i < n \<and> sb_arrived s i}))"

definition sb_last_ok :: "nat \<Rightarrow> sb_state \<Rightarrow> bool" where
  "sb_last_ok n s \<longleftrightarrow>
     (if \<exists>i<n. sb_last (sb_pc s i)
      then \<exists>i<n. sb_last (sb_pc s i) \<and> (\<forall>j<n. j \<noteq> i \<longrightarrow> sb_pc s j = SB_spin (\<not> sb_sense s))
      else 0 < n \<longrightarrow> (\<exists>i<n. \<not> sb_arrived s i))"

definition sb_inv :: "nat \<Rightarrow> nat \<Rightarrow> sb_state \<Rightarrow> bool" where
  "sb_inv n num_iter s \<longleftrightarrow> sb_num_threads s = int n \<and> (\<exists>e. \<forall>i<n. sb_ok s e i) \<and>
     (\<forall>i<n. sb_pc s i \<noteq> SB_loop \<longrightarrow> sb_iter s i < num_iter) \<and> (\<forall>i<n. sb_iter s i \<le> num_iter) \<and>
     sb_count_ok n s \<and> sb_last_ok n s"

section \<open>The invariant is inductive\<close>

lemma sb_inv_init: "sb_inv n num_iter (sb_gtmp_init n)"
  by (auto simp: sb_inv_def sb_gtmp_init_def sb_ok_def sb_count_ok_def sb_last_ok_def sb_flipping_def sb_arrived_def)

text \<open>While a thread is resetting the barrier, every other thread waits for it.\<close>

lemma sb_last_others:
  assumes "sb_inv n num_iter s" and "i < n" and "sb_last (sb_pc s i)" and "j < n" and "j \<noteq> i"
  shows "sb_pc s j = SB_spin (\<not> sb_sense s)"
proof -
  obtain k where k: "k < n" "sb_last (sb_pc s k)" "\<forall>j<n. j \<noteq> k \<longrightarrow> sb_pc s j = SB_spin (\<not> sb_sense s)"
    using assms(1,2,3) by (auto simp: sb_inv_def sb_last_ok_def split: if_splits)
  then have "k = i" using assms(2,3) by (metis sb_last.simps(6))
  with k(3) assms(4,5) show ?thesis by simp
qed

lemma sb_no_last:
  assumes "sb_inv n num_iter s" and "i < n" and "\<not> sb_arrived s i"
  shows "\<not> (\<exists>k<n. sb_last (sb_pc s k))" "\<not> sb_flipping n s"
proof -
  show *: "\<not> (\<exists>k<n. sb_last (sb_pc s k))"
  proof
    assume "\<exists>k<n. sb_last (sb_pc s k)"
    then obtain k where k: "k < n" "sb_last (sb_pc s k)" by blast
    then have "i \<noteq> k" using assms(3) by (auto simp: sb_arrived_def)
    with sb_last_others [OF assms(1) k assms(2)] assms(3) show False by (simp add: sb_arrived_def)
  qed
  then show "\<not> sb_flipping n s" by (auto simp: sb_flipping_def)
qed

text \<open>A step that moves one thread without making it arrive and leaves counter and sense alone.\<close>

lemma sb_inv_quiet:
  assumes inv: "sb_inv n num_iter s" and i: "i < n" "\<not> sb_arrived s i"
    and t: "sb_count t = sb_count s" "sb_sense t = sb_sense s" "sb_num_threads t = sb_num_threads s"
      "sb_pc t = (sb_pc s)(i := p)" "sb_iter t = (sb_iter s)(i := k)"
    and p: "\<not> sb_arrived t i" and ok: "\<And>e. sb_ok s e i \<Longrightarrow> sb_ok t e i"
    and bd: "k \<le> num_iter" "p \<noteq> SB_loop \<Longrightarrow> k < num_iter"
  shows "sb_inv n num_iter t"
proof -
  have arr: "sb_arrived t j = sb_arrived s j" for j
    using i(2) p by (cases "j = i") (auto simp: sb_arrived_def t)
  note nl = sb_no_last [OF inv i]
  have npl: "\<not> sb_last p" using p by (auto simp: sb_arrived_def t)
  then have lt: "\<not> (\<exists>k<n. sb_last (sb_pc t k))" using nl(1) by (auto simp: t)
  then have ft: "\<not> sb_flipping n t" by (auto simp: sb_flipping_def)
  have "sb_count_ok n t" using inv nl(2) ft by (simp add: sb_inv_def sb_count_ok_def t(1) arr)
  moreover have "sb_last_ok n t" using inv nl(1) lt by (auto simp: sb_inv_def sb_last_ok_def arr)
  moreover obtain e where "\<forall>j<n. sb_ok s e j" using inv by (auto simp: sb_inv_def)
  then have "sb_ok t e j" if "j < n" for j
    using ok that by (cases "j = i") (auto simp: sb_ok_def t)
  then have "\<exists>e. \<forall>j<n. sb_ok t e j" by blast
  ultimately show ?thesis using inv bd by (auto simp: sb_inv_def t)
qed

lemma sb_inv_sub:
  assumes inv: "sb_inv n num_iter s" and i: "i < n" and pc: "sb_pc s i = SB_sub m"
    and t: "t = sb_goto i (if sb_count s = 1 then SB_reset m else SB_spin m) (s\<lparr>sb_count := sb_count s - 1\<rparr>)"
  shows "sb_inv n num_iter t"
proof -
  have na: "\<not> sb_arrived s i" by (simp add: sb_arrived_def pc)
  note nl = sb_no_last [OF inv i na]
  obtain e where e: "\<forall>j<n. sb_ok s e j" using inv by (auto simp: sb_inv_def)
  then have m: "m = (\<not> sb_sense s)" and ie: "sb_iter s i = e" using i pc by (auto simp: sb_ok_def)
  let ?p = "if sb_count s = 1 then SB_reset m else SB_spin m"
  have t': "sb_pc t = (sb_pc s)(i := ?p)" "sb_sense t = sb_sense s" "sb_iter t = sb_iter s"
    "sb_count t = sb_count s - 1" "sb_num_threads t = sb_num_threads s"
    by (simp_all add: t sb_goto_def)
  have cnt: "sb_count s = int n - int (card {j. j < n \<and> sb_arrived s j})"
    using inv nl(2) by (simp add: sb_inv_def sb_count_ok_def)
  have card: "card {j. j < n \<and> sb_arrived t j} = Suc (card {j. j < n \<and> sb_arrived s j})"
    by (rule card_upd_in [where k = i]) (use i na in \<open>auto simp: sb_arrived_def t' m\<close>)
  have nf: "\<not> sb_flipping n t" using nl(1) by (auto simp: sb_flipping_def t')
  have "sb_count_ok n t" using nf cnt card by (simp add: sb_count_ok_def t')
  moreover have "sb_last_ok n t"
  proof (cases "sb_count s = 1")
    case True
    then have "card {j. j < n \<and> sb_arrived t j} = n" using cnt card by linarith
    then have "\<forall>j<n. sb_arrived t j" by (simp add: card_all_iff)
    then have oth: "\<forall>j<n. j \<noteq> i \<longrightarrow> sb_pc t j = SB_spin (\<not> sb_sense t)"
      using nl(1) by (auto simp: sb_arrived_def t')
    have "sb_last (sb_pc t i)" using True by (simp add: t')
    with oth i show ?thesis by (auto simp: sb_last_ok_def)
  next
    case False
    then have "card {j. j < n \<and> sb_arrived t j} \<noteq> n" using cnt card by linarith
    then have "\<exists>j<n. \<not> sb_arrived t j" using card_all_iff [of n "sb_arrived t"] by blast
    moreover have "\<not> (\<exists>j<n. sb_last (sb_pc t j))" using nl(1) False by (auto simp: t')
    ultimately show ?thesis by (auto simp: sb_last_ok_def)
  qed
  moreover have "\<forall>j<n. sb_ok t e j" using e ie by (auto simp: sb_ok_def t' m)
  ultimately show ?thesis using inv i pc by (auto simp: sb_inv_def t')
qed

lemma sb_inv_reset:
  assumes inv: "sb_inv n num_iter s" and i: "i < n" and pc: "sb_pc s i = SB_reset m"
    and t: "t = sb_goto i (SB_flip m) (s\<lparr>sb_count := sb_num_threads s\<rparr>)"
  shows "sb_inv n num_iter t"
proof -
  obtain e where e: "\<forall>j<n. sb_ok s e j" using inv by (auto simp: sb_inv_def)
  then have m: "m = (\<not> sb_sense s)" and ie: "sb_iter s i = e" using i pc by (auto simp: sb_ok_def)
  have t': "sb_pc t = (sb_pc s)(i := SB_flip m)" "sb_sense t = sb_sense s" "sb_iter t = sb_iter s"
    "sb_count t = sb_num_threads s" "sb_num_threads t = sb_num_threads s"
    by (simp_all add: t sb_goto_def)
  have oth: "\<forall>j<n. j \<noteq> i \<longrightarrow> sb_pc t j = SB_spin (\<not> sb_sense t)"
    using sb_last_others [OF inv i] pc by (simp add: t')
  have "sb_flipping n t" using i by (auto simp: sb_flipping_def t' m)
  then have "sb_count_ok n t" using inv by (simp add: sb_inv_def sb_count_ok_def t')
  moreover have "sb_last (sb_pc t i)" by (simp add: t')
  with oth i have "sb_last_ok n t" by (auto simp: sb_last_ok_def)
  moreover have "\<forall>j<n. sb_ok t e j" using e ie by (auto simp: sb_ok_def t' m)
  ultimately show ?thesis using inv i pc by (auto simp: sb_inv_def t')
qed

text \<open>Flipping the sense opens the next phase: nobody has arrived in it yet.\<close>

lemma sb_inv_flip:
  assumes inv: "sb_inv n num_iter s" and i: "i < n" and pc: "sb_pc s i = SB_flip m"
    and t: "t = sb_return i (s\<lparr>sb_sense := m\<rparr>)"
  shows "sb_inv n num_iter t"
proof -
  obtain e where e: "\<forall>j<n. sb_ok s e j" using inv by (auto simp: sb_inv_def)
  then have m: "m = (\<not> sb_sense s)" and ie: "sb_iter s i = e" using i pc by (auto simp: sb_ok_def)
  have t': "sb_pc t = (sb_pc s)(i := SB_loop)" "sb_sense t = m" "sb_iter t = (sb_iter s)(i := Suc e)"
    "sb_count t = sb_count s" "sb_num_threads t = sb_num_threads s"
    by (simp_all add: t sb_return_def ie)
  have oth: "sb_pc s j = SB_spin m" if "j < n" "j \<noteq> i" for j
    using sb_last_others [OF inv i] pc that by (simp add: m)
  have na: "\<not> sb_arrived t j" if "j < n" for j
    using oth [OF that] by (cases "j = i") (auto simp: sb_arrived_def t')
  then have nl: "\<not> (\<exists>j<n. sb_last (sb_pc t j))" by (auto simp: sb_arrived_def)
  then have "\<not> sb_flipping n t" by (auto simp: sb_flipping_def)
  moreover have "{j. j < n \<and> sb_arrived t j} = {}" using na by auto
  moreover have "sb_flipping n s" using i pc m by (auto simp: sb_flipping_def)
  ultimately have "sb_count_ok n t" using inv by (simp add: sb_inv_def sb_count_ok_def t')
  moreover have "sb_last_ok n t" using nl na i by (auto simp: sb_last_ok_def)
  moreover have "\<forall>j<n. sb_ok t (Suc e) j" using e oth by (auto simp: sb_ok_def t' m)
  ultimately show ?thesis using inv i pc by (auto simp: sb_inv_def t' Suc_le_eq ie [symmetric])
qed

lemma sb_inv_step:
  assumes inv: "sb_inv n num_iter s" and st: "sb_step n num_iter s t"
  shows "sb_inv n num_iter t"
  using st
proof cases
  case (sb_thread i)
  note step = sb_thread(2)[unfolded sb_gtmp_barrier_def]
  have it: "sb_pc s i \<noteq> SB_loop \<Longrightarrow> sb_iter s i < num_iter" and le: "sb_iter s i \<le> num_iter"
    using inv sb_thread(1) by (auto simp: sb_inv_def)
  show ?thesis
  proof (cases "sb_pc s i")
    case SB_loop
    then have t: "t = sb_goto i SB_read s" "sb_iter s i < num_iter"
      using step by (auto split: if_splits)
    show ?thesis
      by (rule sb_inv_quiet [OF inv sb_thread(1), where p = SB_read and k = "sb_iter s i"])
        (use SB_loop t in \<open>auto simp: sb_arrived_def sb_goto_def sb_ok_def\<close>)
  next
    case SB_read
    then have t: "t = sb_goto i (SB_sub (\<not> sb_sense s)) s" using step by simp
    show ?thesis
      by (rule sb_inv_quiet [OF inv sb_thread(1), where p = "SB_sub (\<not> sb_sense s)" and k = "sb_iter s i"])
        (use SB_read t it in \<open>auto simp: sb_arrived_def sb_goto_def sb_ok_def\<close>)
  next
    case (SB_sub m)
    then show ?thesis using sb_inv_sub [OF inv sb_thread(1) SB_sub] step by simp
  next
    case (SB_reset m)
    then show ?thesis using sb_inv_reset [OF inv sb_thread(1) SB_reset] step by simp
  next
    case (SB_flip m)
    then show ?thesis using sb_inv_flip [OF inv sb_thread(1) SB_flip] step by simp
  next
    case (SB_spin m)
    then have t: "t = sb_return i s" "sb_sense s = m" using step by (auto split: if_splits)
    show ?thesis
      by (rule sb_inv_quiet [OF inv sb_thread(1), where p = SB_loop and k = "Suc (sb_iter s i)"])
        (use SB_spin t it in \<open>auto simp: sb_arrived_def sb_return_def sb_ok_def\<close>)
  qed
qed

interpretation sbi: inductive_invariant "sb_start n" "sb_step n num_iter" "sb_inv n num_iter"
  by unfold_locales (auto simp: sb_inv_init intro: sb_inv_step)

section \<open>Termination measure\<close>

fun sb_weight :: "sb_pc \<Rightarrow> nat" where
  "sb_weight SB_loop = 0"
| "sb_weight SB_read = 1"
| "sb_weight (SB_sub m) = 2"
| "sb_weight (SB_reset m) = 3"
| "sb_weight (SB_flip m) = 4"
| "sb_weight (SB_spin m) = 4"

text \<open>A call of the barrier takes at most five steps of the calling thread.\<close>

definition sb_todo :: "nat \<Rightarrow> sb_state \<Rightarrow> nat \<Rightarrow> nat" where
  "sb_todo num_iter s i = 5 * (num_iter - sb_iter s i) - sb_weight (sb_pc s i)"

definition sb_rank :: "nat \<Rightarrow> nat \<Rightarrow> sb_state \<Rightarrow> nat" where
  "sb_rank n num_iter s = (\<Sum>i<n. sb_todo num_iter s i)"

lemma sb_rank_decreases:
  assumes inv: "sb_inv n num_iter s" and st: "sb_step n num_iter s t"
  shows "sb_rank n num_iter t < sb_rank n num_iter s"
  using st
proof cases
  case (sb_thread i)
  have it: "sb_pc s i \<noteq> SB_loop \<Longrightarrow> sb_iter s i < num_iter"
    using inv sb_thread(1) by (auto simp: sb_inv_def)
  have "sb_todo num_iter t i < sb_todo num_iter s i"
    using sb_thread(2) it
    by (auto simp: sb_gtmp_barrier_def sb_todo_def sb_goto_def sb_return_def split: sb_pc.splits if_splits)
  moreover have "sb_todo num_iter t j = sb_todo num_iter s j" if "j \<noteq> i" for j
    using sb_thread(2) that
    by (auto simp: sb_gtmp_barrier_def sb_todo_def sb_goto_def sb_return_def split: sb_pc.splits if_splits)
  ultimately show ?thesis unfolding sb_rank_def by (rule sum_one_less [OF sb_thread(1)])
qed

text \<open>A thread that cannot move has finished its loop or waits for the current phase to end.\<close>

lemma sb_stuck_done:
  assumes inv: "sb_inv n num_iter s" and stuck: "\<And>t. \<not> sb_step n num_iter s t" and "i < n"
  shows "sb_iter s i = num_iter"
proof (rule ccontr)
  assume i: "sb_iter s i \<noteq> num_iter"
  have none: "sb_gtmp_barrier num_iter j s = None" if "j < n" for j
    using stuck sb_thread [OF that] by (cases "sb_gtmp_barrier num_iter j s") auto
  obtain e where e: "\<forall>j<n. sb_ok s e j" using inv by (auto simp: sb_inv_def)
  have le: "\<forall>j<n. sb_iter s j \<le> num_iter" and lt: "\<forall>j<n. sb_pc s j \<noteq> SB_loop \<longrightarrow> sb_iter s j < num_iter"
    using inv by (auto simp: sb_inv_def)
  have shape: "sb_pc s j = SB_loop \<and> sb_iter s j = num_iter \<or> sb_pc s j = SB_spin (\<not> sb_sense s)" if "j < n" for j
    using none [OF that] le that
    by (auto simp: sb_gtmp_barrier_def split: sb_pc.splits if_splits)
  then have nl: "\<not> (\<exists>j<n. sb_last (sb_pc s j))" by fastforce
  have spin: "sb_pc s i = SB_spin (\<not> sb_sense s)" using shape [OF assms(3)] i by blast
  then have "e = sb_iter s i" using e assms(3) by (auto simp: sb_ok_def)
  then have en: "e < num_iter" using lt spin assms(3) by auto
  obtain j where j: "j < n" "\<not> sb_arrived s j"
    using inv nl assms(3) by (auto simp: sb_inv_def sb_last_ok_def split: if_splits)
  then have "sb_pc s j = SB_loop \<and> sb_iter s j = num_iter" using shape [of j] by (auto simp: sb_arrived_def)
  moreover from this e j(1) have "sb_iter s j = e" by (auto simp: sb_ok_def)
  ultimately show False using en by simp
qed

interpretation sb: terminating_barrier n "sb_start n" "sb_step n num_iter" sb_entered sb_left num_iter "sb_rank n num_iter"
proof unfold_locales
  fix s i j
  assume r: "reachable (sb_start n) (sb_step n num_iter) s"
  note inv = sbi.inv_reachable [OF r]
  obtain e where e: "\<forall>j<n. sb_ok s e j" using inv by (auto simp: sb_inv_def)
  show "sb_left s i \<le> sb_entered s i \<and> sb_entered s i \<le> Suc (sb_left s i)"
    by (simp add: sb_left_def sb_entered_def)
  show "sb_left s i \<le> sb_entered s j" if "i < n" "j < n"
  proof -
    have "sb_iter s i \<le> e" using e that(1) by (auto simp: sb_ok_def)
    moreover have "e \<le> sb_entered s j" using e that(2) by (auto simp: sb_ok_def sb_entered_def)
    ultimately show ?thesis by (simp add: sb_left_def)
  qed
  show "sb_left s i = num_iter" if "\<And>t. \<not> sb_step n num_iter s t" "i < n"
    using sb_stuck_done [OF inv that] by (simp add: sb_left_def)
  show "sb_rank n num_iter t < sb_rank n num_iter s" if "sb_step n num_iter s t" for t
    by (rule sb_rank_decreases [OF inv that])
qed

section \<open>Properties\<close>

text \<open>
  C20: In every reachable state of the sense-reversing barrier, a thread that has completed its
  \<open>k\<close>-th call has been matched by the \<open>k\<close>-th call of every other thread, and no two threads are
  more than one call apart.
\<close>

theorem sense_barrier_safe:
  assumes "reachable (sb_start n) (sb_step n num_iter) s" and "i < n" and "j < n"
  shows "sb_left s i \<le> sb_entered s j \<and> sb_left s i \<le> Suc (sb_left s j)"
  using sb.safe [OF assms] sb.phases_close(2) [OF assms] by blast

lemma sb_start_reachable: "reachable (sb_start n) (sb_step n num_iter) (sb_gtmp_init n)"
  by (rule reachable_start) simp

theorem sense_barrier_safe_witness:
  "sb_left (sb_gtmp_init 4) 0 \<le> sb_entered (sb_gtmp_init 4) 3 \<and> sb_left (sb_gtmp_init 4) 0 \<le> Suc (sb_left (sb_gtmp_init 4) 3)"
  by (rule sense_barrier_safe [OF sb_start_reachable [of 4 10]]) simp_all

text \<open>
  C27: The harness of the sense-reversing barrier cannot hang: whatever has happened, some
  continuation leads every thread through its \<open>num_iter\<close> calls, a run has at most
  \<open>5 * n * num_iter\<close> steps, and it stops only when every thread is through.
\<close>

theorem sense_barrier_completes:
  assumes "reachable (sb_start n) (sb_step n num_iter) s"
  shows "(\<exists>t. (sb_step n num_iter)\<^sup>*\<^sup>* s t \<and> (\<forall>i<n. sb_left t i = num_iter))
    \<and> (\<forall>k t. (sb_step n num_iter ^^ k) (sb_gtmp_init n) t \<longrightarrow> k \<le> 5 * n * num_iter)
    \<and> ((\<nexists>t. sb_step n num_iter s t) \<longrightarrow> (\<forall>i<n. sb_left s i = num_iter))"
proof -
  have rank0: "sb_rank n num_iter (sb_gtmp_init n) = 5 * n * num_iter"
    by (simp add: sb_rank_def sb_todo_def sb_gtmp_init_def)
  have "k \<le> 5 * n * num_iter" if "(sb_step n num_iter ^^ k) (sb_gtmp_init n) t" for k t
    using sb.run_length [OF sb_start_reachable that] rank0 by simp
  then show ?thesis using sb.run_completes [OF assms] sb.blocked_iff_done [OF assms] by blast
qed

theorem sense_barrier_completes_witness:
  "\<exists>t. (sb_step 4 10)\<^sup>*\<^sup>* (sb_gtmp_init 4) t \<and> (\<forall>i<4. sb_left t i = 10)"
  using sense_barrier_completes [OF sb_start_reachable [of 4 10]] by blast

end
