(* ===== verification/TreeBarrier.thy ===== *)
theory TreeBarrier
  imports BarrierSpec
begin

text \<open>
  What the two tree barriers of \<^verbatim>\<open>project2\<close> (\<^verbatim>\<open>omp/gtmp2.c\<close>, \<^verbatim>\<open>mpi/gtmpi2.c\<close>) have in common.
  Participant \<open>c > 0\<close> reports its arrival to \<open>(c - 1) / 4\<close> and is woken by \<open>(c - 1) / 2\<close>.
  In a state that satisfies the invariant of an algorithm, four counters describe
  participant \<open>i\<close>: its completed calls, the calls in which it has collected its children,
  those in which it has reported its arrival, and those in which it has been woken.
\<close>

locale tree_barrier =
  fixes n :: nat and inv :: "'s \<Rightarrow> bool"
    and iter :: "'s \<Rightarrow> nat \<Rightarrow> nat" and collected :: "'s \<Rightarrow> nat \<Rightarrow> nat"
    and arrived :: "'s \<Rightarrow> nat \<Rightarrow> nat" and woken :: "'s \<Rightarrow> nat \<Rightarrow> nat"
  assumes iter_le_woken: "inv s \<Longrightarrow> i < n \<Longrightarrow> iter s i \<le> woken s i"
    and arrived_le_collected: "inv s \<Longrightarrow> i < n \<Longrightarrow> arrived s i \<le> collected s i"
    and collected_le_child: "inv s \<Longrightarrow> c < n \<Longrightarrow> 0 < c \<Longrightarrow> collected s ((c - 1) div 4) \<le> arrived s c"
    and woken_le_parent: "inv s \<Longrightarrow> c < n \<Longrightarrow> 0 < c \<Longrightarrow> woken s c \<le> woken s ((c - 1) div 2)"
    and root_woken: "inv s \<Longrightarrow> 0 < n \<Longrightarrow> woken s 0 \<le> arrived s 0"
begin

lemma woken_le_root:
  assumes "inv s"
  shows "i < n \<Longrightarrow> woken s i \<le> woken s 0"
proof (induction i rule: less_induct)
  case (less i)
  show ?case
  proof (cases "i = 0")
    case False
    then have "(i - 1) div 2 < i" "(i - 1) div 2 < n" using less.prems by auto
    then show ?thesis
      using less.IH [of "(i - 1) div 2"] woken_le_parent [OF assms less.prems] False by fastforce
  qed simp
qed

lemma root_le_collected:
  assumes "inv s"
  shows "i < n \<Longrightarrow> collected s 0 \<le> collected s i"
proof (induction i rule: less_induct)
  case (less i)
  show ?case
  proof (cases "i = 0")
    case False
    then have "(i - 1) div 4 < i" "(i - 1) div 4 < n" using less.prems by auto
    then show ?thesis
      using less.IH [of "(i - 1) div 4"] collected_le_child [OF assms less.prems]
        arrived_le_collected [OF assms less.prems] False by fastforce
  qed simp
qed

text \<open>Nobody is woken before everybody has arrived.\<close>

lemma woken_le_arrived:
  assumes "inv s" and "i < n" and "j < n"
  shows "woken s i \<le> arrived s j"
proof -
  have root: "woken s i \<le> arrived s 0"
    using woken_le_root [OF assms(1,2)] root_woken [OF assms(1)] assms(2) by force
  show ?thesis
  proof (cases "j = 0")
    case False
    then have p: "(j - 1) div 4 < n" using assms(3) by auto
    have "arrived s 0 \<le> collected s 0" using arrived_le_collected [OF assms(1)] assms(2) by force
    also have "\<dots> \<le> collected s ((j - 1) div 4)" by (rule root_le_collected [OF assms(1) p])
    also have "\<dots> \<le> arrived s j" using collected_le_child [OF assms(1,3)] False by simp
    finally show ?thesis using root by simp
  qed (use root in simp)
qed

lemma woken_le_collected:
  assumes "inv s" and "i < n" and "j < n"
  shows "woken s i \<le> collected s j"
  using woken_le_arrived [OF assms] arrived_le_collected [OF assms(1,3)] by simp

lemma iter_le_arrived:
  assumes "inv s" and "i < n" and "j < n"
  shows "iter s i \<le> arrived s j"
  using iter_le_woken [OF assms(1,2)] woken_le_arrived [OF assms] by simp

text \<open>
  If every participant is done, waits for a child that has not arrived, or spins until its
  wake-up parent signals it, then every participant is done.
\<close>

lemma no_wait_cycle:
  assumes inv: "inv s" and i: "i < n"
    and shape: "\<And>i. i < n \<Longrightarrow> iter s i = N \<and> arrived s i = N \<or> waiting i \<or> spinning i"
    and waiting: "\<And>p. p < n \<Longrightarrow> waiting p \<Longrightarrow>
       iter s p < N \<and> arrived s p = iter s p \<and> (\<exists>c. p < c \<and> c < n \<and> arrived s c = iter s p)"
    and spinning: "\<And>i. i < n \<Longrightarrow> spinning i \<Longrightarrow>
       iter s i < N \<and> 0 < i \<and> arrived s i = Suc (iter s i) \<and> iter s ((i - 1) div 2) = iter s i"
  shows "iter s i = N"
proof -
  have behind: False if "i < n" "spinning i" "q < n" "iter s i < woken s q" for i q
    using that
  proof (induction i rule: less_induct)
    case (less i)
    note sp = spinning [OF less.prems(1,2)]
    let ?w = "(i - 1) div 2"
    have w: "?w < i" "?w < n" using sp less.prems(1) by auto
    from shape [OF w(2)] consider "iter s ?w = N" | "waiting ?w" | "spinning ?w" by blast
    then show False
    proof cases
      case 2
      then show ?thesis using waiting [OF w(2) 2] sp woken_le_arrived [OF inv less.prems(3) w(2)] less.prems(4) by simp
    next
      case 3
      then show ?thesis using less.IH [OF w 3 less.prems(3)] sp less.prems(4) by simp
    qed (use sp in auto)
  qed
  have no_wait: False if "p < n" "waiting p" for p
    using that
  proof (induction "n - p" arbitrary: p rule: less_induct)
    case less
    from waiting [OF less.prems] obtain c where c: "p < c" "c < n" "arrived s c = iter s p" and N: "iter s p < N"
      by blast
    from shape [OF c(2)] consider "arrived s c = N" | "waiting c" | "spinning c" by blast
    then show False
    proof cases
      case 2
      then show ?thesis using less.hyps [OF diff_less_mono2 [OF c(1) less.prems(1)] c(2)] by simp
    next
      case 3
      then have "iter s c < iter s p" using spinning [OF c(2) 3] c(3) by simp
      then show ?thesis using behind [OF c(2) 3 less.prems(1)] iter_le_woken [OF inv less.prems(1)] by simp
    qed (use c N in simp)
  qed
  have no_spin: False if "i < n" "spinning i" for i
    using that
  proof (induction i rule: less_induct)
    case (less i)
    note sp = spinning [OF less.prems]
    have w: "(i - 1) div 2 < i" "(i - 1) div 2 < n" using sp less.prems(1) by auto
    show False using shape [OF w(2)] no_wait [OF w(2)] less.IH [OF w] sp by auto
  qed
  show ?thesis using shape [OF i] no_wait [OF i] no_spin [OF i] by blast
qed

end

end
