(* ===== verification/McsBarrier.thy ===== *)
theory McsBarrier
  imports TreeBarrier
begin

text \<open>
  The MCS tree barrier of \<^verbatim>\<open>project2/omp/gtmp2.c\<close> with the node type of
  \<^verbatim>\<open>project2/omp/gtmp.h\<close>, driven by the loop of \<^verbatim>\<open>project2/omp/harness.c\<close>.

  A node is a record with the fields of \<open>mp_mcs_barrier_node\<close>. The unions \<open>hc\<close> and \<open>cn\<close> are
  their four bytes; the \<open>int\<close> view is non-zero when a byte is, and copying it copies the
  bytes. A pointer into a \<open>cn\<close> array is the pair of node and byte index, a pointer to a
  \<open>parent_sense\<close> is the node index, \<open>NULL\<close> is \<open>None\<close>. Each access to memory of another
  thread is a step of its own; a spinning loop is left in a step that is enabled when its
  condition is false. Memory is sequentially consistent.
\<close>

section \<open>Nodes and their initialisation\<close>

record mcs_node =
  parent_ptr :: "(nat \<times> nat) option"
  wakeup_ptrs :: "nat option list"
  mcs_sense :: int
  parent_sense :: int
  hc :: "int list"
  cn :: "int list"

text \<open>The loop that marks the children of the arrival tree.\<close>

function mcs_init_wait :: "nat \<Rightarrow> nat \<Rightarrow> nat \<Rightarrow> mcs_node \<Rightarrow> mcs_node" where
  "mcs_init_wait num_threads j k node =
     (if j < num_threads \<and> k < 4
      then mcs_init_wait num_threads (j + 1) (k + 1) (node\<lparr>hc := (hc node)[k := 1], cn := (cn node)[k := 1]\<rparr>)
      else node)"
  by pat_completeness auto
termination by (relation "measure (\<lambda>(n, j, k, node). 4 - k)") auto

text \<open>The two loops over \<open>wakeup_ptrs\<close>; the second one starts where the first one stops.\<close>

function mcs_init_null :: "nat \<Rightarrow> mcs_node \<Rightarrow> mcs_node" where
  "mcs_init_null k node =
     (if k < 2 then mcs_init_null (k + 1) (node\<lparr>wakeup_ptrs := (wakeup_ptrs node)[k := None]\<rparr>) else node)"
  by pat_completeness auto
termination by (relation "measure (\<lambda>(k, node). 2 - k)") auto

function mcs_init_wakeup :: "nat \<Rightarrow> nat \<Rightarrow> nat \<Rightarrow> mcs_node \<Rightarrow> mcs_node" where
  "mcs_init_wakeup num_threads j k node =
     (if j < num_threads \<and> k < 2
      then mcs_init_wakeup num_threads (j + 1) (k + 1) (node\<lparr>wakeup_ptrs := (wakeup_ptrs node)[k := Some j]\<rparr>)
      else mcs_init_null k node)"
  by pat_completeness auto
termination by (relation "measure (\<lambda>(n, j, k, node). 2 - k)") auto

declare mcs_init_wait.simps [simp del] mcs_init_null.simps [simp del] mcs_init_wakeup.simps [simp del]

text \<open>Initialisation of node \<open>i\<close>, whose memory holds the arbitrary node \<open>node\<close>.\<close>

definition mcs_init_node :: "nat \<Rightarrow> nat \<Rightarrow> mcs_node \<Rightarrow> mcs_node" where
  "mcs_init_node num_threads i node =
     (let node = node\<lparr>mcs_sense := 1, parent_sense := 0, hc := [0, 0, 0, 0], cn := [0, 0, 0, 0]\<rparr>;
          node = mcs_init_wait num_threads (i * 4 + 1) 0 node;
          node = node\<lparr>parent_ptr := if i \<noteq> 0 then Some ((i - 1) div 4, (i - 1) mod 4) else None\<rparr>
      in mcs_init_wakeup num_threads (i * 2 + 1) 0 node)"

text \<open>\<open>mem\<close> is the memory that \<open>posix_memalign\<close> provides, \<open>ret\<close> the value it returns.\<close>

definition mcs_gtmp_init :: "nat \<Rightarrow> (nat \<Rightarrow> mcs_node) \<Rightarrow> nat \<Rightarrow> mcs_node list outcome" where
  "mcs_gtmp_init ret mem num_threads =
     (if ret \<noteq> 0 then Inl (Exit ret)
      else Inr (map (\<lambda>i. mcs_init_node num_threads i (mem i)) [0..<num_threads]))"

section \<open>State and steps\<close>

datatype mcs_pc =
    MCS_loop           \<comment> \<open>at the head of the harness loop\<close>
  | MCS_wait           \<comment> \<open>\<open>while (node->cn.value)\<close>\<close>
  | MCS_reset          \<comment> \<open>\<open>node->cn.value = node->hc.value\<close>\<close>
  | MCS_parent         \<comment> \<open>\<open>if (node->parent_ptr) *(node->parent_ptr) = 0\<close>\<close>
  | MCS_spin           \<comment> \<open>\<open>while (node->parent_sense != node->sense)\<close>\<close>
  | MCS_wake nat       \<comment> \<open>at the head of the loop over \<open>wakeup_ptrs\<close>\<close>

record mcs_state =
  mcs_nodes :: "mcs_node list"
  mcs_iter :: "nat \<Rightarrow> nat"
  mcs_pc :: "nat \<Rightarrow> mcs_pc"

definition mcs_goto :: "nat \<Rightarrow> mcs_pc \<Rightarrow> mcs_state \<Rightarrow> mcs_state" where
  "mcs_goto i p s = s\<lparr>mcs_pc := (mcs_pc s)(i := p)\<rparr>"

definition mcs_upd :: "nat \<Rightarrow> (mcs_node \<Rightarrow> mcs_node) \<Rightarrow> mcs_state \<Rightarrow> mcs_state" where
  "mcs_upd i f s = s\<lparr>mcs_nodes := (mcs_nodes s)[i := f (mcs_nodes s ! i)]\<rparr>"

text \<open>One step of thread \<open>i\<close>; \<open>None\<close> when it spins or has finished its loop.\<close>

definition mcs_gtmp_barrier :: "nat \<Rightarrow> nat \<Rightarrow> mcs_state \<Rightarrow> mcs_state option" where
  "mcs_gtmp_barrier num_iter i s = (let node = mcs_nodes s ! i in case mcs_pc s i of
     MCS_loop \<Rightarrow> if mcs_iter s i < num_iter then Some (mcs_goto i MCS_wait s) else None
   | MCS_wait \<Rightarrow> if list_ex (\<lambda>b. b \<noteq> 0) (cn node) then None else Some (mcs_goto i MCS_reset s)
   | MCS_reset \<Rightarrow> Some (mcs_goto i MCS_parent (mcs_upd i (\<lambda>nd. nd\<lparr>cn := hc nd\<rparr>) s))
   | MCS_parent \<Rightarrow> (case parent_ptr node of
        None \<Rightarrow> Some (mcs_goto i (MCS_wake 0) s)
      | Some (p, k) \<Rightarrow> Some (mcs_goto i MCS_spin (mcs_upd p (\<lambda>nd. nd\<lparr>cn := (cn nd)[k := 0]\<rparr>) s)))
   | MCS_spin \<Rightarrow> if parent_sense node = mcs_sense node then Some (mcs_goto i (MCS_wake 0) s) else None
   | MCS_wake j \<Rightarrow>
       if j < 2 then
         (case wakeup_ptrs node ! j of
            None \<Rightarrow> Some (mcs_goto i (MCS_wake (Suc j)) s)
          | Some c \<Rightarrow> Some (mcs_goto i (MCS_wake (Suc j)) (mcs_upd c (\<lambda>nd. nd\<lparr>parent_sense := mcs_sense node\<rparr>) s)))
       else Some (mcs_goto i MCS_loop (mcs_upd i (\<lambda>nd. nd\<lparr>mcs_sense := if mcs_sense nd = 0 then 1 else 0\<rparr>) s)
                   \<lparr>mcs_iter := (mcs_iter s)(i := Suc (mcs_iter s i))\<rparr>))"

inductive mcs_step :: "nat \<Rightarrow> nat \<Rightarrow> mcs_state \<Rightarrow> mcs_state \<Rightarrow> bool" for n num_iter where
  mcs_thread: "i < n \<Longrightarrow> mcs_gtmp_barrier num_iter i s = Some t \<Longrightarrow> mcs_step n num_iter s t"

text \<open>The harness starts the threads after a successful \<open>gtmp_init\<close>.\<close>

definition mcs_start :: "nat \<Rightarrow> mcs_state \<Rightarrow> bool" where
  "mcs_start n s \<longleftrightarrow> (\<exists>mem. mcs_gtmp_init 0 mem n = Inr (mcs_nodes s)
     \<and> (\<forall>i<n. length (wakeup_ptrs (mem i)) = 2)) \<and> mcs_iter s = (\<lambda>_. 0) \<and> mcs_pc s = (\<lambda>_. MCS_loop)"

definition mcs_left :: "mcs_state \<Rightarrow> nat \<Rightarrow> nat" where
  "mcs_left s i = mcs_iter s i"

definition mcs_entered :: "mcs_state \<Rightarrow> nat \<Rightarrow> nat" where
  "mcs_entered s i = (if mcs_pc s i = MCS_loop then mcs_iter s i else Suc (mcs_iter s i))"

section \<open>The initialised trees\<close>

lemma upt_2_4: "[0..<2] = [0, 1 :: nat]" "[0..<4] = [0, 1, 2, 3 :: nat]"
  by (simp_all add: upt_rec)

lemma mcs_init_wait_eq:
  assumes "hc node = [0, 0, 0, 0]" and "cn node = [0, 0, 0, 0]"
  shows "mcs_init_wait n j 0 node = node\<lparr>hc := map (\<lambda>k. of_bool (j + k < n)) [0..<4],
    cn := map (\<lambda>k. of_bool (j + k < n)) [0..<4]\<rparr>"
proof -
  consider "n \<le> j" | "n = j + 1" | "n = j + 2" | "n = j + 3" | "j + 4 \<le> n" by linarith
  then show ?thesis
    by cases (simp_all add: mcs_init_wait.simps assms upt_2_4 numeral_3_eq_3)
qed

lemma mcs_init_wakeup_eq:
  assumes "length (wakeup_ptrs node) = 2"
  shows "mcs_init_wakeup n j 0 node =
    node\<lparr>wakeup_ptrs := map (\<lambda>k. if j + k < n then Some (j + k) else None) [0..<2]\<rparr>"
proof -
  obtain a b where w: "wakeup_ptrs node = [a, b]"
    using assms by (metis (no_types, opaque_lifting) Suc_length_conv length_0_conv numeral_2_eq_2)
  consider "n \<le> j" | "n = j + 1" | "j + 2 \<le> n" by linarith
  then show ?thesis
    by cases (simp_all add: mcs_init_wakeup.simps mcs_init_null.simps w upt_2_4)
qed

definition mcs_has_child :: "nat \<Rightarrow> nat \<Rightarrow> int list" where
  "mcs_has_child n i = map (\<lambda>k. of_bool (i * 4 + 1 + k < n)) [0..<4]"

lemma mcs_init_node_fields:
  assumes "length (wakeup_ptrs node) = 2"
  shows "mcs_init_node n i node = \<lparr>
    parent_ptr = (if i \<noteq> 0 then Some ((i - 1) div 4, (i - 1) mod 4) else None),
    wakeup_ptrs = map (\<lambda>k. if i * 2 + 1 + k < n then Some (i * 2 + 1 + k) else None) [0..<2],
    mcs_sense = 1, parent_sense = 0, hc = mcs_has_child n i, cn = mcs_has_child n i\<rparr>"
  using assms by (simp add: mcs_init_node_def Let_def mcs_init_wait_eq mcs_init_wakeup_eq mcs_has_child_def)

section \<open>Invariant\<close>

definition mcs_collected :: "mcs_state \<Rightarrow> nat \<Rightarrow> nat" where
  "mcs_collected s i = mcs_iter s i + (case mcs_pc s i of MCS_parent \<Rightarrow> 1 | MCS_spin \<Rightarrow> 1 | MCS_wake j \<Rightarrow> 1 | _ \<Rightarrow> 0)"

definition mcs_arrived :: "mcs_state \<Rightarrow> nat \<Rightarrow> nat" where
  "mcs_arrived s i = mcs_iter s i + (case mcs_pc s i of MCS_spin \<Rightarrow> 1 | MCS_wake j \<Rightarrow> 1 | _ \<Rightarrow> 0)"

definition mcs_woken :: "mcs_state \<Rightarrow> nat \<Rightarrow> nat" where
  "mcs_woken s i = mcs_iter s i + (case mcs_pc s i of MCS_wake j \<Rightarrow> 1 | _ \<Rightarrow> 0)"

text \<open>How often the wake-up parent of \<open>c\<close> has signalled it.\<close>

definition mcs_signalled :: "mcs_state \<Rightarrow> nat \<Rightarrow> nat" where
  "mcs_signalled s c = mcs_iter s ((c - 1) div 2) +
     (case mcs_pc s ((c - 1) div 2) of MCS_wake j \<Rightarrow> of_bool ((c - 1) mod 2 < j) | _ \<Rightarrow> 0)"

lemmas mcs_counts = mcs_collected_def mcs_arrived_def mcs_woken_def mcs_signalled_def

definition mcs_static :: "nat \<Rightarrow> mcs_state \<Rightarrow> bool" where
  "mcs_static n s \<longleftrightarrow> length (mcs_nodes s) = n \<and> (\<forall>i<n.
     parent_ptr (mcs_nodes s ! i) = (if i \<noteq> 0 then Some ((i - 1) div 4, (i - 1) mod 4) else None) \<and>
     wakeup_ptrs (mcs_nodes s ! i) = map (\<lambda>k. if i * 2 + 1 + k < n then Some (i * 2 + 1 + k) else None) [0..<2] \<and>
     hc (mcs_nodes s ! i) = mcs_has_child n i)"

definition mcs_local :: "nat \<Rightarrow> nat \<Rightarrow> mcs_state \<Rightarrow> bool" where
  "mcs_local n num_iter s \<longleftrightarrow> (\<forall>i<n. mcs_iter s i \<le> num_iter \<and>
     (mcs_pc s i \<noteq> MCS_loop \<longrightarrow> mcs_iter s i < num_iter) \<and> (mcs_pc s i = MCS_spin \<longrightarrow> 0 < i) \<and>
     (\<forall>j. mcs_pc s i = MCS_wake j \<longrightarrow> j \<le> 2))"

text \<open>A byte of \<open>cn\<close> is set while the child has not reported in the phase that is collected.\<close>

definition mcs_flags :: "nat \<Rightarrow> mcs_state \<Rightarrow> bool" where
  "mcs_flags n s \<longleftrightarrow> (\<forall>i<n. cn (mcs_nodes s ! i) =
     map (\<lambda>k. of_bool (i * 4 + 1 + k < n \<and> mcs_arrived s (i * 4 + 1 + k) = mcs_collected s i)) [0..<4])"

definition mcs_senses :: "nat \<Rightarrow> mcs_state \<Rightarrow> bool" where
  "mcs_senses n s \<longleftrightarrow> (\<forall>i<n. mcs_sense (mcs_nodes s ! i) = of_bool (even (mcs_iter s i)) \<and>
     (0 < i \<longrightarrow> parent_sense (mcs_nodes s ! i) = of_bool (odd (mcs_signalled s i))))"

definition mcs_edge :: "mcs_state \<Rightarrow> nat \<Rightarrow> bool" where
  "mcs_edge s c \<longleftrightarrow> mcs_collected s ((c - 1) div 4) \<le> mcs_arrived s c \<and>
     mcs_arrived s c \<le> Suc (mcs_collected s ((c - 1) div 4)) \<and>
     (mcs_pc s ((c - 1) div 4) = MCS_reset \<longrightarrow> mcs_arrived s c = Suc (mcs_collected s ((c - 1) div 4))) \<and>
     mcs_woken s c \<le> mcs_signalled s c"

definition mcs_inv :: "nat \<Rightarrow> nat \<Rightarrow> mcs_state \<Rightarrow> bool" where
  "mcs_inv n num_iter s \<longleftrightarrow> mcs_static n s \<and> mcs_local n num_iter s \<and> mcs_flags n s \<and> mcs_senses n s \<and>
     (\<forall>c<n. 0 < c \<longrightarrow> mcs_edge s c)"

lemma mcs_inv_start:
  assumes "mcs_start n s"
  shows "mcs_inv n num_iter s"
proof -
  obtain mem where "mcs_gtmp_init 0 mem n = Inr (mcs_nodes s)"
    and mem: "\<And>i. i < n \<Longrightarrow> length (wakeup_ptrs (mem i)) = 2"
    and s: "mcs_iter s = (\<lambda>_. 0)" "mcs_pc s = (\<lambda>_. MCS_loop)"
    using assms unfolding mcs_start_def by blast
  then have nodes: "mcs_nodes s = map (\<lambda>i. mcs_init_node n i (mem i)) [0..<n]"
    by (simp add: mcs_gtmp_init_def)
  have len: "length (mcs_nodes s) = n" by (simp add: nodes)
  have nd: "mcs_nodes s ! i = \<lparr>
    parent_ptr = (if i \<noteq> 0 then Some ((i - 1) div 4, (i - 1) mod 4) else None),
    wakeup_ptrs = map (\<lambda>k. if i * 2 + 1 + k < n then Some (i * 2 + 1 + k) else None) [0..<2],
    mcs_sense = 1, parent_sense = 0, hc = mcs_has_child n i, cn = mcs_has_child n i\<rparr>" if "i < n" for i
    using that mcs_init_node_fields [OF mem [OF that]] by (simp add: nodes)
  show ?thesis
    by (simp add: mcs_inv_def mcs_static_def mcs_local_def mcs_flags_def mcs_senses_def mcs_edge_def
        mcs_counts s len nd mcs_has_child_def)
qed

lemma mcs_signalled_le_woken: "mcs_signalled s c \<le> mcs_woken s ((c - 1) div 2)"
  by (auto simp: mcs_counts split: mcs_pc.splits)

interpretation mcst: tree_barrier n "mcs_inv n num_iter" mcs_iter mcs_collected mcs_arrived mcs_woken
proof unfold_locales
  fix s i c
  assume inv: "mcs_inv n num_iter s"
  show "mcs_iter s i \<le> mcs_woken s i" by (simp add: mcs_woken_def)
  show "mcs_arrived s i \<le> mcs_collected s i" by (simp add: mcs_counts split: mcs_pc.splits)
  show "mcs_collected s ((c - 1) div 4) \<le> mcs_arrived s c" "mcs_woken s c \<le> mcs_woken s ((c - 1) div 2)" if "c < n" "0 < c"
    using inv that mcs_signalled_le_woken [of s c] by (auto simp: mcs_inv_def mcs_edge_def intro: le_trans)
  show "mcs_woken s 0 \<le> mcs_arrived s 0" by (simp add: mcs_counts split: mcs_pc.splits)
qed

section \<open>The invariant is inductive\<close>

definition mcs_shape :: "mcs_node \<Rightarrow> (nat \<times> nat) option \<times> nat option list \<times> int list" where
  "mcs_shape nd = (parent_ptr nd, wakeup_ptrs nd, hc nd)"

lemma mcs_upd_shape:
  "(\<And>nd. mcs_shape (f nd) = mcs_shape nd) \<Longrightarrow> map mcs_shape (mcs_nodes (mcs_upd p f s)) = map mcs_shape (mcs_nodes s)"
  by (cases "p < length (mcs_nodes s)") (simp_all add: mcs_upd_def map_update list_update_same_conv list_update_beyond)

lemma mcs_step_shape:
  assumes "mcs_gtmp_barrier num_iter i s = Some t"
  shows "map mcs_shape (mcs_nodes t) = map mcs_shape (mcs_nodes s)"
  using assms
  by (auto simp: mcs_gtmp_barrier_def Let_def mcs_goto_def mcs_upd_shape mcs_shape_def
      split: mcs_pc.splits if_splits option.splits)

lemma mcs_static_step:
  assumes "mcs_static n s" and "mcs_gtmp_barrier num_iter i s = Some t"
  shows "mcs_static n t"
proof -
  note m = mcs_step_shape [OF assms(2)]
  have len: "length (mcs_nodes t) = length (mcs_nodes s)" using m by (rule map_eq_imp_length_eq)
  have "mcs_shape (mcs_nodes t ! i) = mcs_shape (mcs_nodes s ! i)" if "i < length (mcs_nodes s)" for i
    using m that len by (metis nth_map)
  then show ?thesis using assms(1) len by (auto simp: mcs_static_def mcs_shape_def)
qed

lemma mcs_local_step:
  assumes "mcs_static n s" and "mcs_local n num_iter s" and "i < n" and "mcs_gtmp_barrier num_iter i s = Some t"
  shows "mcs_local n num_iter t"
  using assms
  by (auto simp: mcs_static_def mcs_local_def mcs_gtmp_barrier_def Let_def mcs_goto_def mcs_upd_def Suc_le_eq
      split: mcs_pc.splits if_splits option.splits)

text \<open>A step that changes neither the counters nor the flags of any node.\<close>

lemma mcs_inv_quiet:
  assumes inv: "mcs_inv n num_iter s" and loc: "mcs_static n t" "mcs_local n num_iter t"
    and cnt: "\<And>x. mcs_collected t x = mcs_collected s x" "\<And>x. mcs_arrived t x = mcs_arrived s x"
      "\<And>x. mcs_woken t x = mcs_woken s x" "\<And>x. mcs_signalled t x = mcs_signalled s x"
    and nodes: "\<And>x. x < n \<Longrightarrow> cn (mcs_nodes t ! x) = cn (mcs_nodes s ! x)"
      "\<And>x. x < n \<Longrightarrow> parent_sense (mcs_nodes t ! x) = parent_sense (mcs_nodes s ! x)"
      "\<And>x. x < n \<Longrightarrow> mcs_sense (mcs_nodes t ! x) = of_bool (even (mcs_iter t x))"
    and rst: "\<And>c. c < n \<Longrightarrow> 0 < c \<Longrightarrow> mcs_pc t ((c - 1) div 4) = MCS_reset \<Longrightarrow>
       mcs_arrived s c = Suc (mcs_collected s ((c - 1) div 4))"
  shows "mcs_inv n num_iter t"
  using inv loc rst by (simp add: mcs_inv_def mcs_flags_def mcs_senses_def mcs_edge_def cnt nodes)

lemma mcs_index:
  fixes c :: nat
  assumes "0 < c" and "0 < m"
  obtains k where "k < m" "c = Suc ((c - 1) div m * m + k)" "(c - 1) mod m = k"
  using that [of "(c - 1) mod m"] assms by simp

lemma mcs_inv_wait:
  assumes inv: "mcs_inv n num_iter s" and t: "t = mcs_goto i MCS_reset s"
    and loc: "mcs_static n t" "mcs_local n num_iter t" and i: "i < n" and pc: "mcs_pc s i = MCS_wait"
    and zero: "\<not> list_ex (\<lambda>b. b \<noteq> 0) (cn (mcs_nodes s ! i))"
  shows "mcs_inv n num_iter t"
proof (rule mcs_inv_quiet [OF inv loc])
  fix c assume c: "c < n" "0 < c" "mcs_pc t ((c - 1) div 4) = MCS_reset"
  show "mcs_arrived s c = Suc (mcs_collected s ((c - 1) div 4))"
  proof (cases "(c - 1) div 4 = i")
    case True
    obtain k where k: "k < 4" "c = Suc (i * 4 + k)" using mcs_index [OF c(2), of 4] True by auto
    have "cn (mcs_nodes s ! i) ! k = of_bool (mcs_arrived s c = mcs_collected s i)"
      and len: "length (cn (mcs_nodes s ! i)) = 4"
      using inv i c(1) k by (simp_all add: mcs_inv_def mcs_flags_def)
    then have "mcs_arrived s c \<noteq> mcs_collected s i"
      using zero k(1) by (auto simp: list_ex_length)
    then show ?thesis using inv c True by (auto simp: mcs_inv_def mcs_edge_def)
  next
    case False
    then show ?thesis using inv c by (auto simp: mcs_inv_def mcs_edge_def t mcs_goto_def)
  qed
qed (use inv in \<open>auto simp: t mcs_goto_def mcs_counts pc mcs_inv_def mcs_senses_def\<close>)

lemma mcs_inv_reset:
  assumes inv: "mcs_inv n num_iter s" and t: "t = mcs_goto i MCS_parent (mcs_upd i (\<lambda>nd. nd\<lparr>cn := hc nd\<rparr>) s)"
    and loc: "mcs_static n t" "mcs_local n num_iter t" and i: "i < n" and pc: "mcs_pc s i = MCS_reset"
  shows "mcs_inv n num_iter t"
proof -
  have len: "length (mcs_nodes s) = n" and hc: "hc (mcs_nodes s ! i) = mcs_has_child n i"
    using inv i by (auto simp: mcs_inv_def mcs_static_def)
  have nd: "mcs_nodes t ! x = (if x = i then (mcs_nodes s ! i)\<lparr>cn := mcs_has_child n i\<rparr> else mcs_nodes s ! x)" if "x < n" for x
    using that by (simp add: t mcs_goto_def mcs_upd_def len hc nth_list_update)
  have it: "mcs_iter t = mcs_iter s" and pct: "mcs_pc t = (mcs_pc s)(i := MCS_parent)"
    by (simp_all add: t mcs_goto_def mcs_upd_def)
  have col: "mcs_collected t x = (if x = i then Suc (mcs_collected s x) else mcs_collected s x)" for x
    by (simp add: mcs_counts it pct pc)
  have cnt: "mcs_arrived t x = mcs_arrived s x" "mcs_woken t x = mcs_woken s x" "mcs_signalled t x = mcs_signalled s x" for x
    by (simp_all add: mcs_counts it pct pc)
  have ch: "mcs_arrived s c = Suc (mcs_collected s i)" if "c < n" "0 < c" "(c - 1) div 4 = i" for c
    using inv that pc by (auto simp: mcs_inv_def mcs_edge_def)
  then have chk: "mcs_arrived s (Suc (i * 4 + k)) = Suc (mcs_collected s i)" if "Suc (i * 4 + k) < n" "k < 4" for k
    using that by simp
  have "mcs_flags n t"
    using inv by (auto simp: mcs_inv_def mcs_flags_def nd col cnt mcs_has_child_def chk)
  moreover have "mcs_senses n t" using inv by (auto simp: mcs_inv_def mcs_senses_def nd cnt it)
  moreover have "\<forall>c<n. 0 < c \<longrightarrow> mcs_edge t c"
    using inv ch by (auto simp: mcs_inv_def mcs_edge_def col cnt pct)
  ultimately show ?thesis using loc by (simp add: mcs_inv_def)
qed

lemma mcs_flags_report:
  assumes fl: "mcs_flags n s" and i: "i < n" "i = Suc (p * 4 + k)" "k < 4" and p: "p < n"
    and eq: "mcs_arrived s i = mcs_collected s p"
    and nd: "\<And>x. x < n \<Longrightarrow> mcs_nodes t ! x = (if x = p then (mcs_nodes s ! p)\<lparr>cn := (cn (mcs_nodes s ! p))[k := 0]\<rparr>
      else mcs_nodes s ! x)"
    and arr: "\<And>x. mcs_arrived t x = (if x = i then Suc (mcs_arrived s x) else mcs_arrived s x)"
    and col: "\<And>x. mcs_collected t x = mcs_collected s x"
  shows "mcs_flags n t"
  unfolding mcs_flags_def
proof (intro allI impI)
  fix x assume x: "x < n"
  have old: "cn (mcs_nodes s ! x) = map (\<lambda>k. of_bool (x * 4 + 1 + k < n \<and> mcs_arrived s (x * 4 + 1 + k) = mcs_collected s x)) [0..<4]"
    using fl x by (simp add: mcs_flags_def)
  show "cn (mcs_nodes t ! x) = map (\<lambda>k. of_bool (x * 4 + 1 + k < n \<and> mcs_arrived t (x * 4 + 1 + k) = mcs_collected t x)) [0..<4]"
  proof (cases "x = p")
    case True
    show ?thesis
    proof (rule nth_equalityI)
      fix m assume "m < length (cn (mcs_nodes t ! x))"
      then have m: "m < 4" using x True old by (simp add: nd)
      have "Suc (p * 4 + m) = i \<longleftrightarrow> m = k" using i(2) by simp
      then show "cn (mcs_nodes t ! x) ! m =
          map (\<lambda>k. of_bool (x * 4 + 1 + k < n \<and> mcs_arrived t (x * 4 + 1 + k) = mcs_collected t x)) [0..<4] ! m"
        using m eq [unfolded i(2)] x True old by (simp add: nd arr col nth_list_update)
    qed (use x True old in \<open>simp add: nd\<close>)
  next
    case False
    then have "Suc (x * 4 + m) \<noteq> i" if "m < 4" for m
      using i(2,3) that by (metis Suc_inject div_mult_self3 div_less add.commute add_cancel_left_right zero_neq_numeral)
    then show ?thesis using False x old by (simp add: nd arr col)
  qed
qed

lemma mcs_inv_report:
  assumes inv: "mcs_inv n num_iter s" and i: "i < n" "i = Suc (p * 4 + k)" "k < 4" and pc: "mcs_pc s i = MCS_parent"
    and t: "t = mcs_goto i MCS_spin (mcs_upd p (\<lambda>nd. nd\<lparr>cn := (cn nd)[k := 0]\<rparr>) s)"
    and loc: "mcs_static n t" "mcs_local n num_iter t"
  shows "mcs_inv n num_iter t"
proof -
  have p: "p < n" "p \<noteq> i" "(i - 1) div 4 = p" using i by auto
  have len: "length (mcs_nodes s) = n" using inv by (auto simp: mcs_inv_def mcs_static_def)
  have nd: "mcs_nodes t ! x = (if x = p then (mcs_nodes s ! p)\<lparr>cn := (cn (mcs_nodes s ! p))[k := 0]\<rparr>
      else mcs_nodes s ! x)" if "x < n" for x
    using that by (simp add: t mcs_goto_def mcs_upd_def len nth_list_update)
  have it: "mcs_iter t = mcs_iter s" and pct: "mcs_pc t = (mcs_pc s)(i := MCS_spin)"
    by (simp_all add: t mcs_goto_def mcs_upd_def)
  have arr: "mcs_arrived t x = (if x = i then Suc (mcs_arrived s x) else mcs_arrived s x)" for x
    by (simp add: mcs_counts it pct pc)
  have cnt: "mcs_collected t x = mcs_collected s x" "mcs_woken t x = mcs_woken s x" "mcs_signalled t x = mcs_signalled s x" for x
    by (simp_all add: mcs_counts it pct pc)
  have "mcs_arrived s i = mcs_woken s i" by (simp add: mcs_counts pc)
  then have eq: "mcs_arrived s i = mcs_collected s p"
    using mcst.woken_le_collected [OF inv i(1) p(1)] mcst.collected_le_child [OF inv i(1)] p(3) i(2) by simp
  have edge: "mcs_edge s c" if "c < n" "0 < c" for c using inv that by (simp add: mcs_inv_def)
  have "mcs_edge t c" if c: "c < n" "0 < c" for c
  proof (cases "c = i")
    case True
    have "mcs_pc s p \<noteq> MCS_reset" using edge [OF c] eq p(3) by (auto simp: mcs_edge_def True)
    then show ?thesis using edge [OF c] eq p by (auto simp: mcs_edge_def arr cnt pct True)
  next
    case False
    then show ?thesis using edge [OF c] by (simp add: mcs_edge_def arr cnt pct)
  qed
  moreover have "mcs_flags n t"
    using mcs_flags_report [OF _ i p(1) eq nd arr cnt(1)] inv by (simp add: mcs_inv_def)
  moreover have "mcs_senses n t" using inv by (simp add: mcs_inv_def mcs_senses_def nd cnt it)
  ultimately show ?thesis using loc by (simp add: mcs_inv_def)
qed

text \<open>A thread passes its spin loop only after its wake-up parent has signalled it.\<close>

lemma mcs_inv_woken:
  assumes inv: "mcs_inv n num_iter s" and t: "t = mcs_goto i (MCS_wake 0) s"
    and loc: "mcs_static n t" "mcs_local n num_iter t" and i: "i < n"
    and pc: "mcs_pc s i = MCS_spin \<and> parent_sense (mcs_nodes s ! i) = mcs_sense (mcs_nodes s ! i)
      \<or> mcs_pc s i = MCS_parent \<and> i = 0"
  shows "mcs_inv n num_iter t"
proof -
  have s: "mcs_iter t = mcs_iter s" "mcs_pc t = (mcs_pc s)(i := MCS_wake 0)" "mcs_nodes t = mcs_nodes s"
    by (simp_all add: t mcs_goto_def)
  have cnt: "mcs_collected t x = mcs_collected s x" "mcs_signalled t x = mcs_signalled s x" for x
    using pc by (auto simp: mcs_counts s)
  have arr: "mcs_arrived t x = mcs_arrived s x" "mcs_woken t x = (if x = i then Suc (mcs_woken s x) else mcs_woken s x)" if "0 < x" for x
    using pc that by (auto simp: mcs_counts s)
  have sg: "Suc (mcs_woken s i) \<le> mcs_signalled s i" if "0 < i"
  proof -
    have e: "mcs_woken s i \<le> mcs_signalled s i" "mcs_woken s i = mcs_iter s i"
      using inv i that pc by (auto simp: mcs_inv_def mcs_edge_def mcs_counts)
    have "odd (mcs_signalled s i) \<longleftrightarrow> even (mcs_iter s i)"
      using inv i that pc by (auto simp: mcs_inv_def mcs_senses_def of_bool_def split: if_splits)
    then show ?thesis using e by (metis le_neq_implies_less Suc_leI)
  qed
  have "mcs_flags n t" using inv arr by (simp add: mcs_inv_def mcs_flags_def s cnt)
  moreover have "mcs_senses n t" using inv by (simp add: mcs_inv_def mcs_senses_def cnt s)
  moreover have "mcs_edge t c" if c: "c < n" "0 < c" for c
    using inv c sg by (auto simp: mcs_inv_def mcs_edge_def arr cnt s)
  ultimately show ?thesis using loc by (simp add: mcs_inv_def)
qed

lemma mcs_inv_signal:
  assumes inv: "mcs_inv n num_iter s" and i: "i < n" and pc: "mcs_pc s i = MCS_wake j" and j: "j < 2"
    and c: "c = Suc (i * 2 + j)" "c < n"
    and t: "t = mcs_goto i (MCS_wake (Suc j)) (mcs_upd c (\<lambda>nd. nd\<lparr>parent_sense := mcs_sense (mcs_nodes s ! i)\<rparr>) s)"
    and loc: "mcs_static n t" "mcs_local n num_iter t"
  shows "mcs_inv n num_iter t"
proof -
  have len: "length (mcs_nodes s) = n" and sn: "mcs_sense (mcs_nodes s ! i) = of_bool (even (mcs_iter s i))"
    using inv i by (auto simp: mcs_inv_def mcs_static_def mcs_senses_def)
  have nd: "mcs_nodes t ! x = (if x = c then (mcs_nodes s ! c)\<lparr>parent_sense := of_bool (even (mcs_iter s i))\<rparr>
      else mcs_nodes s ! x)" if "x < n" for x
    using that by (simp add: t mcs_goto_def mcs_upd_def len nth_list_update sn)
  have it: "mcs_iter t = mcs_iter s" and pct: "mcs_pc t = (mcs_pc s)(i := MCS_wake (Suc j))"
    by (simp_all add: t mcs_goto_def mcs_upd_def)
  have cnt: "mcs_collected t x = mcs_collected s x" "mcs_woken t x = mcs_woken s x" "mcs_arrived t x = mcs_arrived s x" for x
    by (simp_all add: mcs_counts it pct pc)
  have cw: "(c - 1) div 2 = i" "(c - 1) mod 2 = j" using c(1) j by auto
  have sgc: "mcs_signalled t c = Suc (mcs_iter s i)" "mcs_signalled s c = mcs_iter s i"
    unfolding mcs_signalled_def cw by (simp_all add: it pct pc)
  have sg: "mcs_signalled t x = mcs_signalled s x" if x: "x \<noteq> c" "0 < x" for x
  proof (cases "(x - 1) div 2 = i")
    case True
    obtain k where k: "k < 2" "x = Suc (i * 2 + k)" "(x - 1) mod 2 = k"
      using mcs_index [OF x(2), of 2] True by auto
    then have "k \<noteq> j" using x(1) c(1) by auto
    then show ?thesis unfolding mcs_signalled_def True k(3) by (auto simp: it pct pc)
  next
    case False
    then show ?thesis by (simp add: mcs_signalled_def it pct)
  qed
  have "mcs_flags n t" using inv by (simp add: mcs_inv_def mcs_flags_def nd cnt)
  moreover have "mcs_senses n t"
    using inv by (auto simp: mcs_inv_def mcs_senses_def nd it sgc sg)
  moreover have "mcs_edge t x" if x: "x < n" "0 < x" for x
  proof -
    have "mcs_signalled s x \<le> mcs_signalled t x" using sg [of x] sgc x(2) by (cases "x = c") auto
    then show ?thesis using inv x by (auto simp: mcs_inv_def mcs_edge_def cnt pct pc intro: le_trans)
  qed
  ultimately show ?thesis using loc by (simp add: mcs_inv_def)
qed

lemma mcs_inv_flip:
  assumes inv: "mcs_inv n num_iter s" and i: "i < n" and pc: "mcs_pc s i = MCS_wake j" and j: "\<not> j < 2"
    and t: "t = (mcs_goto i MCS_loop (mcs_upd i (\<lambda>nd. nd\<lparr>mcs_sense := if mcs_sense nd = 0 then 1 else 0\<rparr>) s))
       \<lparr>mcs_iter := (mcs_iter s)(i := Suc (mcs_iter s i))\<rparr>"
    and loc: "mcs_static n t" "mcs_local n num_iter t"
  shows "mcs_inv n num_iter t"
proof -
  have len: "length (mcs_nodes s) = n" using inv by (auto simp: mcs_inv_def mcs_static_def)
  have s: "mcs_iter t = (mcs_iter s)(i := Suc (mcs_iter s i))" "mcs_pc t = (mcs_pc s)(i := MCS_loop)"
    by (simp_all add: t mcs_goto_def mcs_upd_def)
  have nd: "mcs_nodes t ! x = (if x = i then (mcs_nodes s ! i)\<lparr>mcs_sense := of_bool (odd (mcs_iter s i))\<rparr>
      else mcs_nodes s ! x)" if "x < n" for x
    using that inv i by (auto simp: t mcs_goto_def mcs_upd_def len nth_list_update mcs_inv_def mcs_senses_def)
  have half: "(x - Suc 0) mod 2 < j" for x :: nat using j by (meson mod_less_divisor not_less order_less_le_trans zero_less_numeral)
  show ?thesis
    by (rule mcs_inv_quiet [OF inv loc])
      (use inv in \<open>auto simp: mcs_counts s pc half nd mcs_inv_def mcs_senses_def mcs_edge_def split: if_splits\<close>)
qed

lemma mcs_inv_step:
  assumes inv: "mcs_inv n num_iter s" and st: "mcs_step n num_iter s t"
  shows "mcs_inv n num_iter t"
  using st
proof cases
  case (mcs_thread i)
  note i = mcs_thread(1) and step = mcs_thread(2)[unfolded mcs_gtmp_barrier_def Let_def]
  have st: "mcs_static n s" "mcs_local n num_iter s" using inv by (simp_all add: mcs_inv_def)
  have loc: "mcs_static n t" "mcs_local n num_iter t"
    using mcs_static_step [OF st(1) mcs_thread(2)] mcs_local_step [OF st i mcs_thread(2)] by simp_all
  have par: "parent_ptr (mcs_nodes s ! i) = (if i \<noteq> 0 then Some ((i - 1) div 4, (i - 1) mod 4) else None)"
    and wk: "wakeup_ptrs (mcs_nodes s ! i) = map (\<lambda>k. if i * 2 + 1 + k < n then Some (i * 2 + 1 + k) else None) [0..<2]"
    using st(1) i by (simp_all add: mcs_static_def)
  note woken = mcs_inv_woken [OF inv _ loc i]
  have quiet: "mcs_inv n num_iter (mcs_goto i p s)"
    if t: "t = mcs_goto i p s" and cnt: "mcs_pc s i = MCS_loop \<and> p = MCS_wait
      \<or> (\<exists>j. mcs_pc s i = MCS_wake j \<and> p = MCS_wake (Suc j) \<and> n \<le> i * 2 + 1 + j)" for p
  proof -
    have s: "mcs_iter t = mcs_iter s" "mcs_pc t = (mcs_pc s)(i := p)" "mcs_nodes t = mcs_nodes s"
      using t by (simp_all add: mcs_goto_def)
    have cs: "mcs_collected t x = mcs_collected s x" "mcs_arrived t x = mcs_arrived s x" "mcs_woken t x = mcs_woken s x" for x
      using cnt by (auto simp: mcs_counts s)
    have sg: "mcs_signalled t x = mcs_signalled s x" if x: "x < n" "0 < x" for x
    proof (cases "(x - 1) div 2 = i")
      case True
      obtain k where k: "k < 2" "x = Suc (i * 2 + k)" "(x - 1) mod 2 = k"
        using mcs_index [OF x(2), of 2] True by auto
      then show ?thesis unfolding mcs_signalled_def True k(3) using cnt x(1) by (auto simp: s)
    qed (simp add: mcs_signalled_def s)
    have "mcs_pc s x = MCS_reset" if "mcs_pc t x = MCS_reset" for x
      using that cnt by (auto simp: s split: if_splits)
    then have "mcs_inv n num_iter t"
      using inv loc by (auto simp: mcs_inv_def mcs_flags_def mcs_senses_def mcs_edge_def cs sg s(1,3))
    then show ?thesis by (simp add: t)
  qed
  show ?thesis
  proof (cases "mcs_pc s i")
    case MCS_loop
    then show ?thesis using step quiet [of MCS_wait] by (simp split: if_splits)
  next
    case MCS_wait
    then show ?thesis using step mcs_inv_wait [OF inv _ loc i MCS_wait] by (simp split: if_splits)
  next
    case MCS_reset
    then show ?thesis using step mcs_inv_reset [OF inv _ loc i MCS_reset] by simp
  next
    case MCS_parent
    show ?thesis
    proof (cases "i = 0")
      case True
      then show ?thesis using step MCS_parent par woken by simp
    next
      case False
      obtain k where k: "k < 4" "i = Suc ((i - 1) div 4 * 4 + k)" "(i - 1) mod 4 = k"
        using mcs_index [of i 4] False by auto
      then show ?thesis using step MCS_parent par False mcs_inv_report [OF inv i k(2,1) MCS_parent _ loc] by simp
    qed
  next
    case MCS_spin
    then show ?thesis using step woken by (simp split: if_splits)
  next
    case (MCS_wake j)
    show ?thesis
    proof (cases "j < 2")
      case True
      have wj: "wakeup_ptrs (mcs_nodes s ! i) ! j = (if Suc (i * 2 + j) < n then Some (Suc (i * 2 + j)) else None)"
        using True by (simp add: wk)
      show ?thesis
      proof (cases "Suc (i * 2 + j) < n")
        case c: True
        show ?thesis using step MCS_wake True wj c mcs_inv_signal [OF inv i MCS_wake True refl c _ loc] by simp
      next
        case False
        then show ?thesis using step MCS_wake True wj quiet [of "MCS_wake (Suc j)"] by simp
      qed
    next
      case False
      then show ?thesis using step MCS_wake mcs_inv_flip [OF inv i MCS_wake False _ loc] by simp
    qed
  qed
qed

interpretation mcsi: inductive_invariant "mcs_start n" "mcs_step n num_iter" "mcs_inv n num_iter"
  by unfold_locales (auto intro: mcs_inv_start mcs_inv_step)

section \<open>Termination\<close>

fun mcs_weight :: "mcs_pc \<Rightarrow> nat" where
  "mcs_weight MCS_loop = 0"
| "mcs_weight MCS_wait = 1"
| "mcs_weight MCS_reset = 2"
| "mcs_weight MCS_parent = 3"
| "mcs_weight MCS_spin = 4"
| "mcs_weight (MCS_wake j) = j + 5"

text \<open>A call takes at most eight steps of the calling thread.\<close>

definition mcs_rank :: "nat \<Rightarrow> nat \<Rightarrow> mcs_state \<Rightarrow> nat" where
  "mcs_rank n num_iter s = (\<Sum>i<n. steps_todo 8 num_iter (mcs_iter s i) (mcs_weight (mcs_pc s i)))"

lemma mcs_rank_decreases:
  assumes inv: "mcs_inv n num_iter s" and st: "mcs_step n num_iter s t"
  shows "mcs_rank n num_iter t < mcs_rank n num_iter s"
  using st
proof cases
  case (mcs_thread i)
  note step = mcs_thread(2)[unfolded mcs_gtmp_barrier_def Let_def]
  have it: "mcs_pc s i \<noteq> MCS_loop \<Longrightarrow> mcs_iter s i < num_iter"
    and wj: "mcs_pc s i = MCS_wake j \<Longrightarrow> j \<le> 2" for j
    using inv mcs_thread(1) by (auto simp: mcs_inv_def mcs_local_def)
  let ?w = "\<lambda>s i. (mcs_iter s i, mcs_weight (mcs_pc s i))"
  have adv: "?w t i = (Suc (mcs_iter s i), 0) \<and> mcs_iter s i < num_iter \<or>
      mcs_iter t i = mcs_iter s i \<and> mcs_iter s i < num_iter \<and> mcs_weight (mcs_pc s i) < mcs_weight (mcs_pc t i) \<and> mcs_weight (mcs_pc t i) < 8"
    using step it wj
    by (cases "mcs_pc s i") (auto simp: mcs_goto_def mcs_upd_def split: if_splits option.splits)
  have w8: "mcs_weight (mcs_pc s i) < 8" using wj by (cases "mcs_pc s i") (auto simp: le_less_trans)
  have "steps_todo 8 num_iter (mcs_iter t i) (mcs_weight (mcs_pc t i)) < steps_todo 8 num_iter (mcs_iter s i) (mcs_weight (mcs_pc s i))"
    using adv w8 steps_todo_call [of "mcs_iter s i" num_iter] by auto
  moreover have "steps_todo 8 num_iter (mcs_iter t j) (mcs_weight (mcs_pc t j)) = steps_todo 8 num_iter (mcs_iter s j) (mcs_weight (mcs_pc s j))"
    if "j \<noteq> i" for j
  proof -
    have "mcs_iter t j = mcs_iter s j \<and> mcs_pc t j = mcs_pc s j"
      using step that by (cases "mcs_pc s i") (auto simp: mcs_goto_def mcs_upd_def split: if_splits option.splits)
    then show ?thesis by simp
  qed
  ultimately show ?thesis unfolding mcs_rank_def by (rule sum_one_less [OF mcs_thread(1)])
qed

lemma mcs_stuck_done:
  assumes inv: "mcs_inv n num_iter s" and stuck: "\<And>t. \<not> mcs_step n num_iter s t" and i: "i < n"
  shows "mcs_iter s i = num_iter"
proof (rule mcst.no_wait_cycle [OF inv i, where waiting = "\<lambda>i. mcs_pc s i = MCS_wait" and spinning = "\<lambda>i. mcs_pc s i = MCS_spin"])
  have none: "mcs_gtmp_barrier num_iter j s = None" if "j < n" for j
    using stuck mcs_thread [OF that] by (cases "mcs_gtmp_barrier num_iter j s") auto
  have loc: "mcs_iter s j \<le> num_iter" "mcs_pc s j \<noteq> MCS_loop \<Longrightarrow> mcs_iter s j < num_iter" "mcs_pc s j = MCS_spin \<Longrightarrow> 0 < j" if "j < n" for j
    using inv that by (auto simp: mcs_inv_def mcs_local_def)
  show shape: "mcs_iter s j = num_iter \<and> mcs_arrived s j = num_iter \<or> mcs_pc s j = MCS_wait \<or> mcs_pc s j = MCS_spin" if "j < n" for j
    using none [OF that] loc [OF that]
    by (cases "mcs_pc s j") (auto simp: mcs_gtmp_barrier_def Let_def mcs_arrived_def split: if_splits option.splits)
  show "mcs_iter s p < num_iter \<and> mcs_arrived s p = mcs_iter s p \<and> (\<exists>c. p < c \<and> c < n \<and> mcs_arrived s c = mcs_iter s p)"
    if p: "p < n" "mcs_pc s p = MCS_wait" for p
  proof -
    have "list_ex (\<lambda>b. b \<noteq> 0) (cn (mcs_nodes s ! p))"
      using none [OF p(1)] p(2) by (auto simp: mcs_gtmp_barrier_def Let_def split: if_splits)
    moreover have "cn (mcs_nodes s ! p) = map (\<lambda>k. of_bool (p * 4 + 1 + k < n \<and> mcs_arrived s (p * 4 + 1 + k) = mcs_collected s p)) [0..<4]"
      using inv p(1) by (simp add: mcs_inv_def mcs_flags_def)
    ultimately obtain k where "p * 4 + 1 + k < n" "mcs_arrived s (p * 4 + 1 + k) = mcs_collected s p"
      by (auto simp: list_ex_iff)
    then show ?thesis using loc(2) [OF p(1)] p(2) by (intro conjI exI [of _ "p * 4 + 1 + k"]) (auto simp: mcs_counts)
  qed
  show "mcs_iter s j < num_iter \<and> 0 < j \<and> mcs_arrived s j = Suc (mcs_iter s j) \<and> mcs_iter s ((j - 1) div 2) = mcs_iter s j"
    if j: "j < n" "mcs_pc s j = MCS_spin" for j
  proof -
    have w: "(j - 1) div 2 < n" "0 < j" using j(1) loc(3) [OF j] by auto
    have sig: "mcs_signalled s j = mcs_iter s ((j - 1) div 2)"
      using none [OF w(1)] loc(2) [OF w(1)] by (auto simp: mcs_signalled_def mcs_gtmp_barrier_def Let_def split: mcs_pc.splits if_splits option.splits)
    have "parent_sense (mcs_nodes s ! j) \<noteq> mcs_sense (mcs_nodes s ! j)"
      using none [OF j(1)] j(2) by (auto simp: mcs_gtmp_barrier_def Let_def split: if_splits)
    then have "odd (mcs_signalled s j) \<longleftrightarrow> odd (mcs_iter s j)"
      using inv j(1) w(2) by (auto simp: mcs_inv_def mcs_senses_def)
    moreover have "mcs_iter s j \<le> mcs_signalled s j"
      using inv j w(2) by (auto simp: mcs_inv_def mcs_edge_def mcs_woken_def)
    moreover have "mcs_signalled s j \<le> Suc (mcs_iter s j)"
      using mcs_signalled_le_woken [of s j] mcst.woken_le_arrived [OF inv w(1) j(1)] j(2) by (simp add: mcs_arrived_def)
    ultimately have "mcs_signalled s j = mcs_iter s j" by (metis even_Suc le_SucE le_antisym)
    then show ?thesis using loc(2) [OF j(1)] j(2) w(2) sig by (simp add: mcs_arrived_def)
  qed
qed

interpretation mcs: terminating_barrier n "mcs_start n" "mcs_step n num_iter" mcs_entered mcs_left num_iter "mcs_rank n num_iter"
proof unfold_locales
  fix s i j t
  assume "reachable (mcs_start n) (mcs_step n num_iter) s"
  note inv = mcsi.inv_reachable [OF this]
  show "mcs_left s i \<le> mcs_entered s i \<and> mcs_entered s i \<le> Suc (mcs_left s i)"
    by (simp add: mcs_left_def mcs_entered_def)
  have "mcs_arrived s j \<le> mcs_entered s j"
    by (auto simp: mcs_arrived_def mcs_entered_def split: mcs_pc.splits)
  then show "i < n \<Longrightarrow> j < n \<Longrightarrow> mcs_left s i \<le> mcs_entered s j"
    using mcst.iter_le_arrived [OF inv] by (auto simp: mcs_left_def intro: le_trans)
  show "(\<And>t. \<not> mcs_step n num_iter s t) \<Longrightarrow> i < n \<Longrightarrow> mcs_left s i = num_iter"
    using mcs_stuck_done [OF inv] by (simp add: mcs_left_def)
  show "mcs_step n num_iter s t \<Longrightarrow> mcs_rank n num_iter t < mcs_rank n num_iter s"
    by (rule mcs_rank_decreases [OF inv])
qed

section \<open>Properties\<close>

text \<open>The state in which the harness starts its threads, for memory that was zeroed.\<close>

definition mcs_boot :: "nat \<Rightarrow> mcs_state" where
  "mcs_boot n = \<lparr>mcs_nodes = map (\<lambda>i. mcs_init_node n i
       \<lparr>parent_ptr = None, wakeup_ptrs = [None, None], mcs_sense = 0, parent_sense = 0,
        hc = [0, 0, 0, 0], cn = [0, 0, 0, 0]\<rparr>) [0..<n],
     mcs_iter = (\<lambda>_. 0), mcs_pc = (\<lambda>_. MCS_loop)\<rparr>"

lemma mcs_boot_start: "mcs_start n (mcs_boot n)"
  by (auto simp: mcs_start_def mcs_gtmp_init_def mcs_boot_def)

lemma mcs_boot_reachable: "reachable (mcs_start n) (mcs_step n num_iter) (mcs_boot n)"
  by (intro reachable_start mcs_boot_start)

text \<open>
  C14: The arrival and wake-up trees built by \<open>gtmp_init\<close> make the MCS barrier safe: whatever the
  allocated memory held before, in every reachable state no thread has left its \<open>k\<close>-th call
  before every thread has begun its \<open>k\<close>-th call.
\<close>

theorem mcs_barrier_safe:
  assumes "reachable (mcs_start n) (mcs_step n num_iter) s" and "i < n" and "j < n"
  shows "mcs_left s i \<le> mcs_entered s j \<and> mcs_left s i \<le> Suc (mcs_left s j)"
  using mcs.safe [OF assms] mcs.phases_close(2) [OF assms] by blast

theorem mcs_barrier_safe_witness:
  "mcs_left (mcs_boot 8) 0 \<le> mcs_entered (mcs_boot 8) 7 \<and> mcs_left (mcs_boot 8) 0 \<le> Suc (mcs_left (mcs_boot 8) 7)"
  by (rule mcs_barrier_safe [OF mcs_boot_reachable [of 8 10]]) simp_all

text \<open>
  C24: The MCS barrier cannot deadlock: from every reachable state all threads can complete
  their \<open>num_iter\<close> calls, a run has at most \<open>8 * n * num_iter\<close> steps, and it stops only when
  all threads are through.
\<close>

theorem mcs_barrier_completes:
  assumes "reachable (mcs_start n) (mcs_step n num_iter) s"
  shows "(\<exists>t. (mcs_step n num_iter)\<^sup>*\<^sup>* s t \<and> (\<forall>i<n. mcs_left t i = num_iter))
    \<and> (\<forall>k s0 t. mcs_start n s0 \<longrightarrow> (mcs_step n num_iter ^^ k) s0 t \<longrightarrow> k \<le> 8 * n * num_iter)
    \<and> ((\<nexists>t. mcs_step n num_iter s t) \<longrightarrow> (\<forall>i<n. mcs_left s i = num_iter))"
proof -
  have "k \<le> 8 * n * num_iter" if "mcs_start n s0" "(mcs_step n num_iter ^^ k) s0 t" for k s0 t
  proof -
    have "mcs_rank n num_iter s0 = 8 * n * num_iter"
      using that(1) by (simp add: mcs_start_def mcs_rank_def steps_todo_def)
    then show ?thesis using mcs.run_length [OF reachable_start [where start = "mcs_start n", OF that(1)] that(2)] by simp
  qed
  then show ?thesis using mcs.run_completes [OF assms] mcs.blocked_iff_done [OF assms] by blast
qed

theorem mcs_barrier_completes_witness:
  "\<exists>t. (mcs_step 8 10)\<^sup>*\<^sup>* (mcs_boot 8) t \<and> (\<forall>i<8. mcs_left t i = 10)"
  using mcs_barrier_completes [OF mcs_boot_reachable [of 8 10]] by blast

end
