(* ===== verification/MpiModel.thy ===== *)
theory MpiModel
  imports AOS_Prelude
begin

text \<open>
  What the barriers use of MPI. The library is not part of the repository: it is the record
  \<open>'n mpi_net\<close>, an argument of the definitions, over an unknown type \<open>'n\<close> of network states.
  Its laws \<open>mpi_ok\<close> are the documented behaviour of the calls for empty messages with one
  tag: messages of a pair of processes do not overtake each other and are not lost, so
  \<open>net_pend\<close>, the number of messages sent from one process to another and not yet received,
  is all that can be observed. \<open>MPI_Isend\<close> never blocks; \<open>MPI_Recv\<close> returns when there is a
  message from its source. A receive from \<open>MPI_ANY_SOURCE\<close> is a receive from a source that
  the step chooses.
\<close>

record 'n mpi_net =
  net_init :: 'n
  MPI_Isend :: "nat \<Rightarrow> int \<Rightarrow> 'n \<Rightarrow> 'n"
  MPI_Recv :: "int \<Rightarrow> nat \<Rightarrow> 'n \<Rightarrow> 'n option"
  net_pend :: "'n \<Rightarrow> nat \<Rightarrow> nat \<Rightarrow> nat"

definition mpi_ok :: "'n mpi_net \<Rightarrow> bool" where
  "mpi_ok N \<longleftrightarrow> (\<forall>a b. net_pend N (net_init N) a b = 0) \<and>
     (\<forall>x src dst a b. net_pend N (MPI_Isend N src (int dst) x) a b = net_pend N x a b + of_bool (a = src \<and> b = dst)) \<and>
     (\<forall>x src dst. MPI_Recv N (int src) dst x = None \<longleftrightarrow> net_pend N x src dst = 0) \<and>
     (\<forall>x y src dst a b. MPI_Recv N (int src) dst x = Some y \<longrightarrow>
        net_pend N y a b = net_pend N x a b - of_bool (a = src \<and> b = dst))"

lemma mpi_init_apply: "mpi_ok N \<Longrightarrow> net_pend N (net_init N) a b = 0"
  by (simp add: mpi_ok_def)

lemma mpi_isend_apply:
  "mpi_ok N \<Longrightarrow> net_pend N (MPI_Isend N src (int dst) x) a b = net_pend N x a b + of_bool (a = src \<and> b = dst)"
  by (simp add: mpi_ok_def)

lemma mpi_recv_None: "mpi_ok N \<Longrightarrow> MPI_Recv N (int src) dst x = None \<longleftrightarrow> net_pend N x src dst = 0"
  by (simp add: mpi_ok_def)

lemma mpi_recv_Some:
  assumes "mpi_ok N" and "MPI_Recv N (int src) dst x = Some y"
  shows "0 < net_pend N x src dst" and "net_pend N y a b = net_pend N x a b - of_bool (a = src \<and> b = dst)"
proof -
  show "0 < net_pend N x src dst" using mpi_recv_None [OF assms(1), of src dst x] assms(2) by simp
  show "net_pend N y a b = net_pend N x a b - of_bool (a = src \<and> b = dst)"
    using assms unfolding mpi_ok_def by blast
qed

text \<open>A network that meets the laws: a counter for every pair of processes.\<close>

definition counting_net :: "(nat \<Rightarrow> nat \<Rightarrow> nat) mpi_net" where
  "counting_net = \<lparr>net_init = (\<lambda>_ _. 0),
     MPI_Isend = (\<lambda>src dst c. c(src := (c src)(nat dst := Suc (c src (nat dst))))),
     MPI_Recv = (\<lambda>src dst c. if 0 < c (nat src) dst
        then Some (c(nat src := (c (nat src))(dst := c (nat src) dst - 1))) else None),
     net_pend = (\<lambda>c. c)\<rparr>"

lemma counting_net_ok: "mpi_ok counting_net"
  by (auto simp: mpi_ok_def counting_net_def split: if_splits)

text \<open>The laws can be carried by the start condition of a transition system.\<close>

lemma reachable_with:
  assumes "reachable start step s" and "C"
  shows "reachable (\<lambda>s. C \<and> start s) step s"
  using assms(1) by (induction rule: reachable.induct) (auto intro: reachable.intros assms(2))

end
