(* ===== verification/DisseminationBarrier.thy ===== *)
theory DisseminationBarrier
  imports BarrierSpec MpiModel "HOL-Library.Log_Nat" "HOL-Library.Signed_Division"
begin

text \<open>
  The dissemination barrier of \<^verbatim>\<open>project2/mpi/gtmpi1.c\<close>, called \<open>num_iter\<close> times by each of
  \<open>P\<close> MPI processes (\<^verbatim>\<open>project2/mpi/harness.c\<close> calls it once).

  MPI is the argument \<open>N\<close> of the definitions, see \<^verbatim>\<open>MpiModel\<close>. \<open>ceil(log2(P))\<close> is
  \<^const>\<open>ceillog2\<close>; the C operator \<open>%\<close> is \<open>smod\<close>, which rounds towards zero.
\<close>

section \<open>State and steps\<close>

datatype db_pc =
    DB_loop            \<comment> \<open>at the head of the harness loop\<close>
  | DB_round nat       \<comment> \<open>at the head of the loop over the rounds\<close>
  | DB_recv nat        \<comment> \<open>at \<open>MPI_Recv\<close> of a round\<close>

record 'n db_state =
  db_iter :: "nat \<Rightarrow> nat"
  db_pc :: "nat \<Rightarrow> db_pc"
  db_net :: 'n

definition db_num_rounds :: "nat \<Rightarrow> nat" where
  "db_num_rounds num_processes = ceillog2 num_processes"

definition db_send_to :: "nat \<Rightarrow> nat \<Rightarrow> nat \<Rightarrow> int" where
  "db_send_to num_process rank rnd = (int rank + 2 ^ rnd) smod int num_process"

definition db_recv_from :: "nat \<Rightarrow> nat \<Rightarrow> nat \<Rightarrow> int" where
  "db_recv_from num_process rank rnd = (int rank - 2 ^ rnd + int num_process) smod int num_process"

definition db_start_state :: "'n mpi_net \<Rightarrow> 'n db_state" where
  "db_start_state N = \<lparr>db_iter = (\<lambda>_. 0), db_pc = (\<lambda>_. DB_loop), db_net = net_init N\<rparr>"

text \<open>One step of process \<open>rank\<close>; \<open>None\<close> when it waits for a message or has finished.\<close>

definition db_gtmpi_barrier :: "'n mpi_net \<Rightarrow> nat \<Rightarrow> nat \<Rightarrow> nat \<Rightarrow> 'n db_state \<Rightarrow> 'n db_state option" where
  "db_gtmpi_barrier N P num_iter rank s = (case db_pc s rank of
     DB_loop \<Rightarrow>
       if db_iter s rank < num_iter then Some (s\<lparr>db_pc := (db_pc s)(rank := DB_round 0)\<rparr>) else None
   | DB_round rnd \<Rightarrow>
       if rnd < db_num_rounds P
       then Some (s\<lparr>db_pc := (db_pc s)(rank := DB_recv rnd),
                    db_net := MPI_Isend N rank (db_send_to P rank rnd) (db_net s)\<rparr>)
       else Some (s\<lparr>db_pc := (db_pc s)(rank := DB_loop),
                    db_iter := (db_iter s)(rank := Suc (db_iter s rank))\<rparr>)
   | DB_recv rnd \<Rightarrow>
       (case MPI_Recv N (db_recv_from P rank rnd) rank (db_net s) of
          None \<Rightarrow> None
        | Some net \<Rightarrow> Some (s\<lparr>db_pc := (db_pc s)(rank := DB_round (Suc rnd)), db_net := net\<rparr>)))"

inductive db_step :: "'n mpi_net \<Rightarrow> nat \<Rightarrow> nat \<Rightarrow> 'n db_state \<Rightarrow> 'n db_state \<Rightarrow> bool" for N P num_iter where
  db_process: "p < P \<Longrightarrow> db_gtmpi_barrier N P num_iter p s = Some t \<Longrightarrow> db_step N P num_iter s t"

abbreviation db_start :: "'n mpi_net \<Rightarrow> 'n db_state \<Rightarrow> bool" where
  "db_start N s \<equiv> mpi_ok N \<and> s = db_start_state N"

abbreviation db_pend :: "'n mpi_net \<Rightarrow> 'n db_state \<Rightarrow> nat \<Rightarrow> nat \<Rightarrow> nat" where
  "db_pend N s \<equiv> net_pend N (db_net s)"

definition db_left :: "'n db_state \<Rightarrow> nat \<Rightarrow> nat" where
  "db_left s i = db_iter s i"

definition db_entered :: "'n db_state \<Rightarrow> nat \<Rightarrow> nat" where
  "db_entered s i = (if db_pc s i = DB_loop then db_iter s i else Suc (db_iter s i))"

section \<open>Who signals whom\<close>

abbreviation db_to :: "nat \<Rightarrow> nat \<Rightarrow> nat \<Rightarrow> nat" where
  "db_to P p r \<equiv> (p + 2 ^ r) mod P"

lemma db_offset_less: "r < db_num_rounds P \<Longrightarrow> 2 ^ r < P"
  using ceillog2_le_iff [of P r] by (cases "P = 0") (auto simp: db_num_rounds_def)

lemma db_rounds_cover: "P \<le> 2 ^ db_num_rounds P"
  by (simp add: db_num_rounds_def le_two_power_ceillog2)

lemma smod_nonneg: "0 \<le> a \<Longrightarrow> 0 < b \<Longrightarrow> a smod b = a mod (b :: int)"
  by (cases "a = 0") (simp_all add: smod_int_alt_def)

lemma db_send_to_nat:
  assumes "p < P"
  shows "db_send_to P p r = int (db_to P p r)"
  using assms by (simp add: db_send_to_def smod_nonneg zmod_int)

abbreviation db_from :: "nat \<Rightarrow> nat \<Rightarrow> nat \<Rightarrow> nat" where
  "db_from P p r \<equiv> (p + (P - 2 ^ r)) mod P"

lemma db_recv_from_nat:
  assumes "p < P" and "r < db_num_rounds P"
  shows "db_recv_from P p r = int (db_from P p r)"
proof -
  have lt: "2 ^ r < P" by (rule db_offset_less [OF assms(2)])
  then have "int p - 2 ^ r + int P = int (p + (P - 2 ^ r))" by (simp add: of_nat_diff)
  then show ?thesis
    using assms(1) by (simp only: db_recv_from_def) (simp add: smod_nonneg zmod_int)
qed

lemma db_to_from:
  assumes "p < P" and "r < db_num_rounds P"
  shows "db_to P (db_from P p r) r = p" and "db_from P (db_to P p r) r = p"
proof -
  have lt: "2 ^ r < P" by (rule db_offset_less [OF assms(2)])
  then have "p + (P - 2 ^ r) + 2 ^ r = p + P" "p + 2 ^ r + (P - 2 ^ r) = p + P" by simp_all
  then show "db_to P (db_from P p r) r = p" "db_from P (db_to P p r) r = p"
    using assms(1) by (metis mod_add_left_eq mod_add_self2 mod_less)+
qed

lemma mod_add_inj:
  fixes P :: nat
  assumes "(p + a) mod P = (p + b) mod P" and "a < P" and "b < P"
  shows "a = b"
proof -
  have "P dvd b - a" if "a \<le> b"
    using assms(1) that mod_eq_dvd_iff_nat [of "p + a" "p + b" P] by simp
  moreover have "P dvd a - b" if "b \<le> a"
    using assms(1) that mod_eq_dvd_iff_nat [of "p + b" "p + a" P] by simp
  ultimately show ?thesis using assms(2,3)
    by (metis diff_is_0_eq dvd_imp_le le_antisym less_imp_diff_less linorder_not_le nat_le_linear zero_less_diff)
qed

lemma db_to_inj:
  assumes "db_to P p r = db_to P p k" and "r < db_num_rounds P" and "k < db_num_rounds P"
  shows "r = k"
  using mod_add_inj [OF assms(1) db_offset_less [OF assms(2)] db_offset_less [OF assms(3)]] by simp

section \<open>Invariant\<close>

text \<open>How often a process has sent and received in round \<open>r\<close>.\<close>

definition db_sent :: "'n db_state \<Rightarrow> nat \<Rightarrow> nat \<Rightarrow> nat" where
  "db_sent s r p = db_iter s p +
     (case db_pc s p of DB_loop \<Rightarrow> 0 | DB_round k \<Rightarrow> of_bool (r < k) | DB_recv k \<Rightarrow> of_bool (r \<le> k))"

definition db_rcvd :: "'n db_state \<Rightarrow> nat \<Rightarrow> nat \<Rightarrow> nat" where
  "db_rcvd s r p = db_iter s p +
     (case db_pc s p of DB_loop \<Rightarrow> 0 | DB_round k \<Rightarrow> of_bool (r < k) | DB_recv k \<Rightarrow> of_bool (r < k))"

text \<open>A channel belongs to one round, and holds what was sent in it and not yet received.\<close>

definition db_chan :: "'n mpi_net \<Rightarrow> nat \<Rightarrow> 'n db_state \<Rightarrow> bool" where
  "db_chan N P s \<longleftrightarrow> (\<forall>p<P. \<forall>r<db_num_rounds P.
     db_pend N s p (db_to P p r) + db_rcvd s r (db_to P p r) = db_sent s r p)"

definition db_local :: "nat \<Rightarrow> nat \<Rightarrow> 'n db_state \<Rightarrow> nat \<Rightarrow> bool" where
  "db_local P num_iter s p \<longleftrightarrow> db_iter s p \<le> num_iter \<and>
     (case db_pc s p of DB_loop \<Rightarrow> True
      | DB_round k \<Rightarrow> k \<le> db_num_rounds P \<and> db_iter s p < num_iter
      | DB_recv k \<Rightarrow> k < db_num_rounds P \<and> db_iter s p < num_iter)"

definition db_inv :: "'n mpi_net \<Rightarrow> nat \<Rightarrow> nat \<Rightarrow> 'n db_state \<Rightarrow> bool" where
  "db_inv N P num_iter s \<longleftrightarrow> mpi_ok N \<and> db_chan N P s \<and> (\<forall>p<P. db_local P num_iter s p)"

lemma db_inv_start: "mpi_ok N \<Longrightarrow> db_inv N P num_iter (db_start_state N)"
  by (simp add: mpi_init_apply db_inv_def db_chan_def db_local_def db_sent_def db_rcvd_def db_start_state_def)

text \<open>A step that keeps all message counts keeps the channels.\<close>

lemma db_chan_quiet:
  assumes "db_chan N P s" and "db_net t = db_net s"
    and "\<And>r p. r < db_num_rounds P \<Longrightarrow> db_sent t r p = db_sent s r p \<and> db_rcvd t r p = db_rcvd s r p"
  shows "db_chan N P t"
  using assms by (simp add: db_chan_def)

lemma db_chan_send:
  assumes ok: "mpi_ok N" and inv: "db_chan N P s" and p: "p < P" and pc: "db_pc s p = DB_round k" and k: "k < db_num_rounds P"
    and t: "t = s\<lparr>db_pc := (db_pc s)(p := DB_recv k), db_net := MPI_Isend N p (db_send_to P p k) (db_net s)\<rparr>"
  shows "db_chan N P t"
  unfolding db_chan_def
proof (intro allI impI)
  fix q r assume q: "q < P" and r: "r < db_num_rounds P"
  have rc: "db_rcvd t r x = db_rcvd s r x" for x by (simp add: db_rcvd_def t pc)
  have sd: "db_sent t r q = db_sent s r q + of_bool (q = p \<and> r = k)"
    by (auto simp: db_sent_def t pc)
  have "db_pend N t q (db_to P q r) = db_pend N s q (db_to P q r) + of_bool (q = p \<and> r = k)"
    using db_to_inj [OF _ r k, of p] by (auto simp: t mpi_isend_apply [OF ok] db_send_to_nat [OF p])
  then show "db_pend N t q (db_to P q r) + db_rcvd t r (db_to P q r) = db_sent t r q"
    using inv q r by (simp add: rc sd db_chan_def)
qed

lemma db_chan_recv:
  assumes ok: "mpi_ok N" and inv: "db_chan N P s" and p: "p < P" and pc: "db_pc s p = DB_recv k" and k: "k < db_num_rounds P"
    and rv: "MPI_Recv N (db_recv_from P p k) p (db_net s) = Some net"
    and t: "t = s\<lparr>db_pc := (db_pc s)(p := DB_round (Suc k)), db_net := net\<rparr>"
  shows "db_chan N P t"
  unfolding db_chan_def
proof (intro allI impI)
  fix q r assume q: "q < P" and r: "r < db_num_rounds P"
  let ?f = "db_from P p k"
  have sd: "db_sent t r q = db_sent s r q" by (auto simp: db_sent_def t pc)
  have rc: "db_rcvd t r x = db_rcvd s r x + of_bool (x = p \<and> r = k)" for x
    by (auto simp: db_rcvd_def t pc)
  note msg = mpi_recv_Some [OF ok rv [unfolded db_recv_from_nat [OF p k]]]
  have to: "db_to P q r = p \<and> r = k \<longleftrightarrow> q = ?f \<and> db_to P q r = p"
  proof
    assume "db_to P q r = p \<and> r = k"
    then show "q = ?f \<and> db_to P q r = p" using db_to_from(2) [OF q k] by auto
  next
    assume "q = ?f \<and> db_to P q r = p"
    then show "db_to P q r = p \<and> r = k"
      using db_to_from(1) [OF p k] db_to_inj [OF _ r k] by metis
  qed
  have "db_pend N t q (db_to P q r) + of_bool (db_to P q r = p \<and> r = k) = db_pend N s q (db_to P q r)"
    unfolding to using msg(1) by (auto simp: t msg(2))
  moreover have "db_pend N s q (db_to P q r) + db_rcvd s r (db_to P q r) = db_sent s r q"
    using inv q r by (simp add: db_chan_def)
  ultimately show "db_pend N t q (db_to P q r) + db_rcvd t r (db_to P q r) = db_sent t r q"
    unfolding rc sd by linarith
qed

lemma db_inv_step:
  assumes inv: "db_inv N P num_iter s" and st: "db_step N P num_iter s t"
  shows "db_inv N P num_iter t"
  using st
proof cases
  case (db_process p)
  note p = db_process(1) and step = db_process(2)[unfolded db_gtmpi_barrier_def]
  have ok: "mpi_ok N" and ch: "db_chan N P s" and lp: "db_local P num_iter s p" and loc: "\<And>q. q < P \<Longrightarrow> db_local P num_iter s q"
    using inv p by (simp_all add: db_inv_def)
  have frame: "db_iter t q = db_iter s q \<and> db_pc t q = db_pc s q" if "q \<noteq> p" for q
    using step that by (auto split: db_pc.splits if_splits option.splits)
  have here: "db_local P num_iter t p"
    using step lp by (auto simp: db_local_def split: db_pc.splits if_splits option.splits)
  have "db_local P num_iter t q" if "q < P" for q
    using here frame [of q] loc [OF that] by (cases "q = p") (auto simp: db_local_def split: db_pc.splits)
  moreover have "db_chan N P t"
  proof (cases "db_pc s p")
    case DB_loop
    with step have t: "t = s\<lparr>db_pc := (db_pc s)(p := DB_round 0)\<rparr>" by (simp split: if_splits)
    show ?thesis by (rule db_chan_quiet [OF ch]) (simp_all add: t db_sent_def db_rcvd_def DB_loop)
  next
    case (DB_round k)
    show ?thesis
    proof (cases "k < db_num_rounds P")
      case True
      then show ?thesis using db_chan_send [OF ok ch p DB_round True] step DB_round by simp
    next
      case False
      then have t: "t = s\<lparr>db_pc := (db_pc s)(p := DB_loop), db_iter := (db_iter s)(p := Suc (db_iter s p))\<rparr>"
        using step DB_round by simp
      show ?thesis by (rule db_chan_quiet [OF ch]) (use False in \<open>simp_all add: t db_sent_def db_rcvd_def DB_round\<close>)
    qed
  next
    case (DB_recv k)
    then have k: "k < db_num_rounds P" using lp by (simp add: db_local_def)
    show ?thesis using db_chan_recv [OF ok ch p DB_recv k] step DB_recv by (auto split: option.splits)
  qed
  ultimately show ?thesis using ok by (simp add: db_inv_def)
qed

interpretation dbi: inductive_invariant "db_start N" "db_step N P num_iter" "db_inv N P num_iter"
  by unfold_locales (auto simp: db_inv_start intro: db_inv_step)

section \<open>Safety\<close>

text \<open>What is received has been sent.\<close>

lemma db_rcvd_le_sent:
  assumes "db_inv N P num_iter s" and "q < P" and "r < db_num_rounds P"
  shows "db_rcvd s r q \<le> db_sent s r (db_from P q r)"
proof -
  have f: "db_from P q r < P" using assms(2) by simp
  have "db_pend N s (db_from P q r) (db_to P (db_from P q r) r) + db_rcvd s r (db_to P (db_from P q r) r)
      = db_sent s r (db_from P q r)"
    using assms(1,3) f unfolding db_inv_def db_chan_def by blast
  then show ?thesis unfolding db_to_from(1) [OF assms(2,3)] by linarith
qed

lemma db_sent_le_entered: "db_sent s r p \<le> db_entered s p"
  by (auto simp: db_sent_def db_entered_def split: db_pc.splits)

lemma db_rcvd_antimono: "db_rcvd s (Suc r) p \<le> db_rcvd s r p"
  by (auto simp: db_rcvd_def split: db_pc.splits)

lemma db_sent_le_rcvd: "db_sent s (Suc r) p \<le> db_rcvd s r p"
  by (auto simp: db_sent_def db_rcvd_def split: db_pc.splits)

text \<open>Having received in round \<open>r\<close>, a process knows of the \<open>2 ^ (r + 1)\<close> processes up to itself.\<close>

lemma db_knowledge:
  assumes "db_inv N P num_iter s"
  shows "r < db_num_rounds P \<Longrightarrow> q < P \<Longrightarrow> d < 2 ^ Suc r \<Longrightarrow> d < P \<Longrightarrow>
     db_rcvd s r q \<le> db_entered s ((q + (P - d)) mod P)"
proof (induction r arbitrary: q d)
  case 0
  show ?case
  proof (cases "d = 0")
    case True
    then show ?thesis using 0 by (auto simp: db_rcvd_def db_entered_def split: db_pc.splits)
  next
    case False
    then have "d = 1" using 0 by simp
    then show ?thesis
      using db_rcvd_le_sent [OF assms 0(2,1)] db_sent_le_entered [of s 0 "db_from P q 0"] by simp
  qed
next
  case (Suc r)
  have lt: "2 ^ Suc r < P" by (rule db_offset_less [OF Suc.prems(1)])
  show ?case
  proof (cases "d < 2 ^ Suc r")
    case True
    then show ?thesis
      using Suc.IH [of q d] Suc.prems db_rcvd_antimono le_trans Suc_lessD by blast
  next
    case False
    let ?p = "db_from P q (Suc r)"
    have p: "?p < P" using Suc.prems(2) by simp
    have d: "d - 2 ^ Suc r < 2 ^ Suc r" "d - 2 ^ Suc r < P" using False Suc.prems(3,4) by auto
    have "(?p + (P - (d - 2 ^ Suc r))) mod P = (q + (P - 2 ^ Suc r) + (P - (d - 2 ^ Suc r))) mod P"
      by (simp add: mod_add_left_eq)
    also have "q + (P - 2 ^ Suc r) + (P - (d - 2 ^ Suc r)) = q + (P - d) + P"
      using False Suc.prems(4) lt by linarith
    finally have e: "(?p + (P - (d - 2 ^ Suc r))) mod P = (q + (P - d)) mod P" by simp
    have "db_rcvd s (Suc r) q \<le> db_sent s (Suc r) ?p" by (rule db_rcvd_le_sent [OF assms Suc.prems(2,1)])
    also have "\<dots> \<le> db_rcvd s r ?p" by (rule db_sent_le_rcvd)
    also have "\<dots> \<le> db_entered s ((q + (P - d)) mod P)"
      using Suc.IH [of ?p "d - 2 ^ Suc r"] Suc.prems(1) p d by (simp only: e)
    finally show ?thesis .
  qed
qed

lemma db_left_le_entered:
  assumes inv: "db_inv N P num_iter s" and "i < P" and "j < P"
  shows "db_left s i \<le> db_entered s j"
proof (cases "i = j")
  case True
  then show ?thesis by (simp add: db_left_def db_entered_def)
next
  case False
  then have P: "1 < P" using assms(2,3) by linarith
  then obtain r where r: "db_num_rounds P = Suc r"
    using db_rounds_cover [of P] by (cases "db_num_rounds P") auto
  let ?d = "if j \<le> i then i - j else i + P - j"
  have d: "?d < P" using assms(2) False by auto
  have "?d < 2 ^ Suc r" using d db_rounds_cover [of P] r by simp
  moreover have "(i + (P - ?d)) mod P = j"
  proof (cases "j \<le> i")
    case True
    then have "i + (P - ?d) = j + P" using assms(2) by simp
    then show ?thesis using assms(3) by simp
  next
    case False
    then have "i + (P - ?d) = j" using assms(3) by simp
    then show ?thesis using assms(3) by simp
  qed
  ultimately have "db_rcvd s r i \<le> db_entered s j"
    using db_knowledge [OF inv, of r i ?d] assms(2) d r by simp
  then show ?thesis by (simp add: db_left_def db_rcvd_def)
qed

section \<open>Termination\<close>

fun db_weight :: "db_pc \<Rightarrow> nat" where
  "db_weight DB_loop = 0"
| "db_weight (DB_round k) = 2 * k + 1"
| "db_weight (DB_recv k) = 2 * k + 2"

text \<open>A call takes two steps per round and two more.\<close>

definition db_todo :: "nat \<Rightarrow> nat \<Rightarrow> 'n db_state \<Rightarrow> nat \<Rightarrow> nat" where
  "db_todo P num_iter s p = steps_todo (2 * db_num_rounds P + 2) num_iter (db_iter s p) (db_weight (db_pc s p))"

definition db_rank :: "nat \<Rightarrow> nat \<Rightarrow> 'n db_state \<Rightarrow> nat" where
  "db_rank P num_iter s = (\<Sum>p<P. db_todo P num_iter s p)"

lemma db_rank_decreases:
  assumes inv: "db_inv N P num_iter s" and st: "db_step N P num_iter s t"
  shows "db_rank P num_iter t < db_rank P num_iter s"
  using st
proof cases
  case (db_process p)
  note step = db_process(2)[unfolded db_gtmpi_barrier_def]
  have lp: "db_local P num_iter s p" using inv db_process(1) by (simp add: db_inv_def)
  note tp = steps_todo_call [where c = "2 * db_num_rounds P + 2" and N = num_iter and i = "db_iter s p"]
  have here: "db_todo P num_iter t p < db_todo P num_iter s p"
  proof (cases "db_pc s p")
    case DB_loop
    then show ?thesis using step tp(2) [of 1 0] by (auto simp: db_todo_def split: if_splits)
  next
    case (DB_round k)
    then show ?thesis
      using step lp tp(2) [of "2 * k + 2" "2 * k + 1"] tp(1) [of "2 * k + 1"]
      by (auto simp: db_todo_def db_local_def split: if_splits)
  next
    case (DB_recv k)
    then show ?thesis
      using step lp tp(2) [of "Suc (2 * k + 2)" "2 * k + 2"]
      by (auto simp: db_todo_def db_local_def split: option.splits)
  qed
  have "db_iter t q = db_iter s q \<and> db_pc t q = db_pc s q" if "q \<noteq> p" for q
    using step that by (auto split: db_pc.splits if_splits option.splits)
  then have "db_todo P num_iter t q = db_todo P num_iter s q" if "q \<noteq> p" for q
    using that by (simp add: db_todo_def)
  with here show ?thesis unfolding db_rank_def by (rule sum_one_less [OF db_process(1)])
qed

text \<open>
  A process that cannot receive waits for one that is behind it; a chain of such processes
  would descend forever.
\<close>

lemma db_stuck_done:
  assumes inv: "db_inv N P num_iter s" and stuck: "\<And>t. \<not> db_step N P num_iter s t" and "i < P"
  shows "db_iter s i = num_iter"
proof -
  have none: "db_gtmpi_barrier N P num_iter p s = None" if "p < P" for p
    using stuck db_process [OF that] by (cases "db_gtmpi_barrier N P num_iter p s") blast+
  have ok: "mpi_ok N" using inv by (simp add: db_inv_def)
  have shape: "db_pc s p = DB_loop \<and> db_iter s p = num_iter \<or> (\<exists>k. db_pc s p = DB_recv k)" if "p < P" for p
    using none [OF that] inv that
    by (auto simp: db_gtmpi_barrier_def db_inv_def db_local_def split: db_pc.splits if_splits)
  have no_recv: False if "p < P" "db_pc s p = DB_recv k" for p k
    using that
  proof (induction "db_iter s p * Suc (db_num_rounds P) + k" arbitrary: p k rule: less_induct)
    case less
    have k: "k < db_num_rounds P" and it: "db_iter s p < num_iter"
      using inv less.prems by (auto simp: db_inv_def db_local_def)
    let ?f = "db_from P p k"
    have f: "?f < P" using less.prems(1) by simp
    have "db_pend N s ?f p = 0"
      using none [OF less.prems(1)] less.prems(2)
      ok mpi_recv_None [OF ok, of ?f p "db_net s"]
      by (auto simp: db_gtmpi_barrier_def db_recv_from_nat [OF less.prems(1) k] split: option.splits)
    moreover have "db_pend N s ?f (db_to P ?f k) + db_rcvd s k (db_to P ?f k) = db_sent s k ?f"
      using inv f k unfolding db_inv_def db_chan_def by blast
    ultimately have eq: "db_iter s p = db_sent s k ?f"
      unfolding db_to_from(1) [OF less.prems(1) k] by (simp add: db_rcvd_def less.prems(2))
    from shape [OF f] show False
    proof
      assume "db_pc s ?f = DB_loop \<and> db_iter s ?f = num_iter"
      then show False using eq it by (simp add: db_sent_def)
    next
      assume "\<exists>k. db_pc s ?f = DB_recv k"
      then obtain l where l: "db_pc s ?f = DB_recv l" by blast
      have lR: "l < db_num_rounds P" using inv f l by (auto simp: db_inv_def db_local_def)
      have "db_iter s ?f * Suc (db_num_rounds P) + l < db_iter s p * Suc (db_num_rounds P) + k"
      proof (cases "k \<le> l")
        case True
        then have "db_iter s p = Suc (db_iter s ?f)" using eq l by (simp add: db_sent_def)
        then show ?thesis using lR by simp
      next
        case False
        then show ?thesis using eq l by (simp add: db_sent_def)
      qed
      from less.hyps [OF this f l] show False .
    qed
  qed
  show ?thesis using shape [OF assms(3)] no_recv [OF assms(3)] by blast
qed

interpretation db: terminating_barrier P "db_start N" "db_step N P num_iter" db_entered db_left num_iter "db_rank P num_iter"
proof unfold_locales
  fix s i j t
  assume "reachable (db_start N) (db_step N P num_iter) s"
  note inv = dbi.inv_reachable [OF this]
  show "db_left s i \<le> db_entered s i \<and> db_entered s i \<le> Suc (db_left s i)"
    by (simp add: db_left_def db_entered_def)
  show "i < P \<Longrightarrow> j < P \<Longrightarrow> db_left s i \<le> db_entered s j" by (rule db_left_le_entered [OF inv])
  show "(\<And>t. \<not> db_step N P num_iter s t) \<Longrightarrow> i < P \<Longrightarrow> db_left s i = num_iter"
    using db_stuck_done [OF inv] by (simp add: db_left_def)
  show "db_step N P num_iter s t \<Longrightarrow> db_rank P num_iter t < db_rank P num_iter s"
    by (rule db_rank_decreases [OF inv])
qed

section \<open>Properties\<close>

abbreviation db_begin :: "'n mpi_net \<Rightarrow> 'n db_state \<Rightarrow> bool" where
  "db_begin N s \<equiv> s = db_start_state N"

lemma db_begin_reachable: "reachable (db_begin N) (db_step N P num_iter) (db_start_state N)"
  by (rule reachable_start) simp

lemma db_start_reachable: "mpi_ok N \<Longrightarrow> reachable (db_start N) (db_step N P num_iter) (db_start_state N)"
  by (rule reachable_start) simp

text \<open>
  C15: If MPI meets its laws, then with \<open>ceil(log2(P))\<close> rounds, no MPI process leaves its \<open>k\<close>-th call of the dissemination
  barrier before every process has begun its \<open>k\<close>-th call, for any number of processes.
\<close>

theorem dissemination_barrier_safe:
  assumes "mpi_ok N" and "reachable (db_begin N) (db_step N P num_iter) s" and "i < P" and "j < P"
  shows "db_left s i \<le> db_entered s j \<and> db_left s i \<le> Suc (db_left s j)"
  using db.safe [OF reachable_with [OF assms(2,1)] assms(3,4)] db.phases_close(2) [OF reachable_with [OF assms(2,1)] assms(3,4)]
  by blast

theorem dissemination_barrier_safe_witness:
  "db_left (db_start_state counting_net) 2 \<le> db_entered (db_start_state counting_net) 11
   \<and> db_left (db_start_state counting_net) 2 \<le> Suc (db_left (db_start_state counting_net) 11)"
  by (rule dissemination_barrier_safe [OF counting_net_ok db_begin_reachable [of _ 12 1]]) simp_all

text \<open>
  C25: The dissemination barrier cannot deadlock: from every reachable state all processes can
  complete their \<open>num_iter\<close> calls, every run has at most
  \<open>P * num_iter * (2 * ceil(log2(P)) + 2)\<close> steps, and it stops only when all are through.
\<close>

theorem dissemination_barrier_completes:
  assumes "mpi_ok N" and "reachable (db_begin N) (db_step N P num_iter) s"
  shows "(\<exists>t. (db_step N P num_iter)\<^sup>*\<^sup>* s t \<and> (\<forall>i<P. db_left t i = num_iter))
    \<and> (\<forall>k t. (db_step N P num_iter ^^ k) (db_start_state N) t \<longrightarrow> k \<le> P * ((2 * db_num_rounds P + 2) * num_iter))
    \<and> ((\<nexists>t. db_step N P num_iter s t) \<longrightarrow> (\<forall>i<P. db_left s i = num_iter))"
proof -
  have rank0: "db_rank P num_iter (db_start_state N) = P * ((2 * db_num_rounds P + 2) * num_iter)"
    by (simp add: db_rank_def db_todo_def steps_todo_def db_start_state_def)
  have "k \<le> P * ((2 * db_num_rounds P + 2) * num_iter)" if "(db_step N P num_iter ^^ k) (db_start_state N) t" for k t
    using db.run_length [OF db_start_reachable [OF assms(1)] that] rank0 by simp
  then show ?thesis using db.run_completes [OF reachable_with [OF assms(2,1)]] db.blocked_iff_done [OF reachable_with [OF assms(2,1)]] by blast
qed

theorem dissemination_barrier_completes_witness:
  "\<exists>t. (db_step counting_net 12 1)\<^sup>*\<^sup>* (db_start_state counting_net) t \<and> (\<forall>i<12. db_left t i = 1)"
  using dissemination_barrier_completes [OF counting_net_ok db_begin_reachable [of _ 12 1]] by blast

end
