(* ===== verification/MpiTreeBarrier.thy ===== *)
theory MpiTreeBarrier
  imports TreeBarrier MpiModel
begin

text \<open>
  The tree barrier of \<^verbatim>\<open>project2/mpi/gtmpi2.c\<close>: a process collects one message from each of its
  at most four children (from \<open>MPI_ANY_SOURCE\<close>, asserting that the source is a child), reports
  to its parent, waits for the message of its parent in a binary tree and forwards it to
  its at most two children there. Arrival and wake-up messages share one tag.

  MPI is the argument \<open>N\<close> of the definitions, see \<^verbatim>\<open>MpiModel\<close>. In a step that receives from \<open>MPI_ANY_SOURCE\<close> the argument \<open>src\<close> is the source of the message
  that is matched.
\<close>

section \<open>State and steps\<close>

datatype mt_pc =
    MT_loop            \<comment> \<open>at the head of the harness loop\<close>
  | MT_collect nat     \<comment> \<open>\<open>while (finished_children < num_children)\<close>\<close>
  | MT_report          \<comment> \<open>\<open>MPI_Isend\<close> to the arrival parent\<close>
  | MT_recv            \<comment> \<open>\<open>MPI_Recv\<close> from the wake-up parent\<close>
  | MT_wake nat        \<comment> \<open>at the head of the loop that sends the wake-up messages\<close>

record 'n mt_state =
  mt_iter :: "nat \<Rightarrow> nat"
  mt_pc :: "nat \<Rightarrow> mt_pc"
  mt_net :: 'n

definition mt_first_child :: "nat \<Rightarrow> int" where
  "mt_first_child rank = int rank * 4 + 1"

definition mt_num_children :: "nat \<Rightarrow> nat \<Rightarrow> int" where
  "mt_num_children num_processes rank =
     (let num_children = int num_processes - mt_first_child rank
      in if num_children < 0 then 0 else if num_children > 4 then 4 else num_children)"

definition mt_start_state :: "'n mpi_net \<Rightarrow> 'n mt_state" where
  "mt_start_state N = \<lparr>mt_iter = (\<lambda>_. 0), mt_pc = (\<lambda>_. MT_loop), mt_net = net_init N\<rparr>"

definition mt_goto :: "nat \<Rightarrow> mt_pc \<Rightarrow> 'n \<Rightarrow> 'n mt_state \<Rightarrow> 'n mt_state" where
  "mt_goto i p net s = s\<lparr>mt_pc := (mt_pc s)(i := p), mt_net := net\<rparr>"

definition mt_gtmpi_barrier :: "'n mpi_net \<Rightarrow> nat \<Rightarrow> nat \<Rightarrow> nat \<Rightarrow> nat \<Rightarrow> 'n mt_state \<Rightarrow> 'n mt_state outcome option" where
  "mt_gtmpi_barrier N num_processes num_iter src rank s = (case mt_pc s rank of
     MT_loop \<Rightarrow>
       if mt_iter s rank < num_iter then Some (Inr (mt_goto rank (MT_collect 0) (mt_net s) s)) else None
   | MT_collect finished_children \<Rightarrow>
       if int finished_children < mt_num_children num_processes rank
       then (case MPI_Recv N (int src) rank (mt_net s) of
               None \<Rightarrow> None
             | Some net \<Rightarrow>
                 if mt_first_child rank \<le> int src \<and> int src \<le> mt_first_child rank + mt_num_children num_processes rank
                 then Some (Inr (mt_goto rank (MT_collect (Suc finished_children)) net s))
                 else Some (Inl AssertFailed))
       else Some (Inr (mt_goto rank MT_report (mt_net s) s))
   | MT_report \<Rightarrow>
       if rank \<noteq> 0 then Some (Inr (mt_goto rank MT_recv (MPI_Isend N rank ((int rank - 1) div 4) (mt_net s)) s))
       else Some (Inr (mt_goto rank (MT_wake 0) (mt_net s) s))
   | MT_recv \<Rightarrow>
       (case MPI_Recv N ((int rank - 1) div 2) rank (mt_net s) of
          None \<Rightarrow> None
        | Some net \<Rightarrow> Some (Inr (mt_goto rank (MT_wake 0) net s)))
   | MT_wake k \<Rightarrow>
       let i = int rank * 2 + 1 + int k
       in if i < int num_processes \<and> k < 2
          then Some (Inr (mt_goto rank (MT_wake (Suc k)) (MPI_Isend N rank i (mt_net s)) s))
          else Some (Inr ((mt_goto rank MT_loop (mt_net s) s)\<lparr>mt_iter := (mt_iter s)(rank := Suc (mt_iter s rank))\<rparr>)))"

inductive mt_step :: "'n mpi_net \<Rightarrow> nat \<Rightarrow> nat \<Rightarrow> 'n mt_state \<Rightarrow> 'n mt_state \<Rightarrow> bool" for N n num_iter where
  mt_process: "i < n \<Longrightarrow> src < n \<Longrightarrow> mt_gtmpi_barrier N n num_iter src i s = Some (Inr t) \<Longrightarrow> mt_step N n num_iter s t"

abbreviation mt_start :: "'n mpi_net \<Rightarrow> 'n mt_state \<Rightarrow> bool" where
  "mt_start N s \<equiv> mpi_ok N \<and> s = mt_start_state N"

abbreviation mt_pend :: "'n mpi_net \<Rightarrow> 'n mt_state \<Rightarrow> nat \<Rightarrow> nat \<Rightarrow> nat" where
  "mt_pend N s \<equiv> net_pend N (mt_net s)"

definition mt_left :: "'n mt_state \<Rightarrow> nat \<Rightarrow> nat" where
  "mt_left s i = mt_iter s i"

definition mt_entered :: "'n mt_state \<Rightarrow> nat \<Rightarrow> nat" where
  "mt_entered s i = (if mt_pc s i = MT_loop then mt_iter s i else Suc (mt_iter s i))"

section \<open>Invariant\<close>

definition mt_collected :: "'n mt_state \<Rightarrow> nat \<Rightarrow> nat" where
  "mt_collected s i = mt_iter s i + (case mt_pc s i of MT_report \<Rightarrow> 1 | MT_recv \<Rightarrow> 1 | MT_wake j \<Rightarrow> 1 | _ \<Rightarrow> 0)"

definition mt_arrived :: "'n mt_state \<Rightarrow> nat \<Rightarrow> nat" where
  "mt_arrived s i = mt_iter s i + (case mt_pc s i of MT_recv \<Rightarrow> 1 | MT_wake j \<Rightarrow> 1 | _ \<Rightarrow> 0)"

definition mt_woken :: "'n mt_state \<Rightarrow> nat \<Rightarrow> nat" where
  "mt_woken s i = mt_iter s i + (case mt_pc s i of MT_wake j \<Rightarrow> 1 | _ \<Rightarrow> 0)"

definition mt_signalled :: "'n mt_state \<Rightarrow> nat \<Rightarrow> nat" where
  "mt_signalled s c = mt_iter s ((c - 1) div 2) +
     (case mt_pc s ((c - 1) div 2) of MT_wake j \<Rightarrow> of_bool ((c - 1) mod 2 < j) | _ \<Rightarrow> 0)"

lemmas mt_counts = mt_collected_def mt_arrived_def mt_woken_def mt_signalled_def

text \<open>The children whose message of the current phase has been received.\<close>

definition mt_got :: "'n mpi_net \<Rightarrow> nat \<Rightarrow> 'n mt_state \<Rightarrow> nat \<Rightarrow> nat set" where
  "mt_got N n s p = {k. k < 4 \<and> Suc (p * 4 + k) < n \<and>
     mt_arrived s (Suc (p * 4 + k)) = mt_pend N s (Suc (p * 4 + k)) p + Suc (mt_collected s p)}"

definition mt_local :: "nat \<Rightarrow> nat \<Rightarrow> 'n mt_state \<Rightarrow> nat \<Rightarrow> bool" where
  "mt_local n num_iter s i \<longleftrightarrow> mt_iter s i \<le> num_iter \<and> (mt_pc s i \<noteq> MT_loop \<longrightarrow> mt_iter s i < num_iter) \<and>
     (mt_pc s i = MT_recv \<longrightarrow> 0 < i) \<and> (\<forall>j. mt_pc s i = MT_wake j \<longrightarrow> j \<le> 2)"

definition mt_up :: "'n mpi_net \<Rightarrow> 'n mt_state \<Rightarrow> nat \<Rightarrow> bool" where
  "mt_up N s c \<longleftrightarrow> mt_arrived s c = mt_pend N s c ((c - 1) div 4) + mt_collected s ((c - 1) div 4) \<or>
     mt_arrived s c = mt_pend N s c ((c - 1) div 4) + Suc (mt_collected s ((c - 1) div 4))"

definition mt_down :: "'n mpi_net \<Rightarrow> 'n mt_state \<Rightarrow> nat \<Rightarrow> bool" where
  "mt_down N s c \<longleftrightarrow> mt_signalled s c = mt_pend N s ((c - 1) div 2) c + mt_woken s c"

definition mt_edges :: "'n mpi_net \<Rightarrow> nat \<Rightarrow> 'n mt_state \<Rightarrow> bool" where
  "mt_edges N n s \<longleftrightarrow> (\<forall>a b. 0 < mt_pend N s a b \<longrightarrow>
     0 < a \<and> a < n \<and> b = (a - 1) div 4 \<or> 0 < b \<and> b < n \<and> a = (b - 1) div 2)"

definition mt_tally :: "'n mpi_net \<Rightarrow> nat \<Rightarrow> 'n mt_state \<Rightarrow> nat \<Rightarrow> bool" where
  "mt_tally N n s p \<longleftrightarrow> card (mt_got N n s p) = (case mt_pc s p of MT_collect f \<Rightarrow> f | _ \<Rightarrow> 0)"

definition mt_inv :: "'n mpi_net \<Rightarrow> nat \<Rightarrow> nat \<Rightarrow> 'n mt_state \<Rightarrow> bool" where
  "mt_inv N n num_iter s \<longleftrightarrow> mpi_ok N \<and> (\<forall>i<n. mt_local n num_iter s i) \<and> (\<forall>c<n. 0 < c \<longrightarrow> mt_up N s c \<and> mt_down N s c) \<and>
     mt_edges N n s \<and> (\<forall>p<n. mt_tally N n s p)"

lemma mt_inv_start: "mpi_ok N \<Longrightarrow> mt_inv N n num_iter (mt_start_state N)"
  by (auto simp: mpi_init_apply mt_inv_def mt_local_def mt_up_def mt_down_def mt_edges_def mt_tally_def mt_got_def mt_counts mt_start_state_def)

lemma mt_signalled_le_woken: "mt_signalled s c \<le> mt_woken s ((c - 1) div 2)"
  by (auto simp: mt_counts split: mt_pc.splits)

interpretation mtt: tree_barrier n "mt_inv N n num_iter" mt_iter mt_collected mt_arrived mt_woken
proof unfold_locales
  fix s i c
  assume inv: "mt_inv N n num_iter s"
  show "mt_iter s i \<le> mt_woken s i" by (simp add: mt_woken_def)
  show "mt_arrived s i \<le> mt_collected s i" by (simp add: mt_counts split: mt_pc.splits)
  assume c: "c < n" "0 < c"
  then have "mt_up N s c" "mt_down N s c" using inv by (auto simp: mt_inv_def)
  then show "mt_collected s ((c - 1) div 4) \<le> mt_arrived s c" "mt_woken s c \<le> mt_woken s ((c - 1) div 2)"
    using mt_signalled_le_woken [of s c] by (auto simp: mt_up_def mt_down_def)
next
  fix s show "mt_woken s 0 \<le> mt_arrived s 0" by (simp add: mt_counts split: mt_pc.splits)
qed

lemma mt_num_children_card: "int (card {k. k < 4 \<and> Suc (p * 4 + k) < n}) = mt_num_children n p"
proof -
  have "{k. k < 4 \<and> Suc (p * 4 + k) < n} = {..<min 4 (n - Suc (p * 4))}" by auto
  then show ?thesis by (auto simp: mt_num_children_def mt_first_child_def Let_def)
qed

section \<open>Sources of messages\<close>

text \<open>While a process collects, only children that have not been counted have a message for it.\<close>

lemma mt_collect_source:
  assumes inv: "mt_inv N n num_iter s" and p: "p < n" and pc: "mt_pc s p = MT_collect f" and msg: "0 < mt_pend N s src p"
  obtains k where "k < 4" "src = Suc (p * 4 + k)" "src < n" "k \<notin> mt_got N n s p" "mt_pend N s src p = 1"
proof -
  have "0 < src \<and> src < n \<and> p = (src - 1) div 4 \<or> 0 < p \<and> src = (p - 1) div 2"
    using inv msg unfolding mt_inv_def mt_edges_def by blast
  then show thesis
  proof
    assume a: "0 < src \<and> src < n \<and> p = (src - 1) div 4"
    define k where "k = (src - 1) mod 4"
    have k: "k < 4" "src = Suc (p * 4 + k)" using a by (simp_all add: k_def)
    have "mt_arrived s src \<le> Suc (mt_woken s src)" by (simp add: mt_counts split: mt_pc.splits)
    also have "\<dots> \<le> Suc (mt_collected s p)" using mtt.woken_le_collected [OF inv _ p] a by simp
    finally have "mt_arrived s src \<le> Suc (mt_collected s p)" .
    moreover have "mt_up N s src" using inv a by (auto simp: mt_inv_def)
    moreover have "(src - 1) div 4 = p" using a by simp
    ultimately have "mt_pend N s src p = 1 \<and> mt_arrived s src = Suc (mt_collected s p)"
      using msg by (auto simp: mt_up_def)
    moreover from this have "k \<notin> mt_got N n s p" by (simp add: mt_got_def k(2) [symmetric])
    ultimately show thesis using that [OF k] a by blast
  next
    assume a: "0 < p \<and> src = (p - 1) div 2"
    then have w: "src < n" using p by auto
    have "mt_down N s p" using inv p a by (simp add: mt_inv_def)
    moreover have "mt_woken s p = mt_arrived s p" by (simp add: mt_counts pc)
    moreover have "mt_signalled s p \<le> mt_arrived s p"
      using mt_signalled_le_woken [of s p] mtt.woken_le_arrived [OF inv w p] a by simp
    moreover have "(p - 1) div 2 = src" using a by simp
    ultimately show thesis using msg by (simp add: mt_down_def)
  qed
qed

section \<open>The invariant is inductive\<close>

lemma mt_local_step:
  assumes "mt_gtmpi_barrier N n num_iter src i s = Some (Inr t)" and "mt_local n num_iter s i"
  shows "mt_local n num_iter t i"
  using assms
  by (cases "mt_pc s i") (auto simp: mt_gtmpi_barrier_def mt_local_def mt_goto_def Let_def split: if_splits option.splits)

lemma mt_frame:
  assumes "mt_gtmpi_barrier N n num_iter src i s = Some (Inr t)" and "j \<noteq> i"
  shows "mt_pc t j = mt_pc s j" and "mt_iter t j = mt_iter s j"
  using assms
  by (cases "mt_pc s i"; auto simp: mt_gtmpi_barrier_def mt_goto_def Let_def split: if_splits option.splits)+

lemma mt_got_cong:
  assumes "\<And>x. 0 < x \<Longrightarrow> x < n \<Longrightarrow> (x - 1) div 4 = p \<Longrightarrow>
     (mt_arrived t x = mt_pend N t x p + Suc (mt_collected t p)) = (mt_arrived s x = mt_pend N s x p + Suc (mt_collected s p))"
  shows "mt_got N n t p = mt_got N n s p"
  unfolding mt_got_def using assms by (intro Collect_cong) auto

text \<open>
  A step keeps the tallies when every child's arrivals and pending messages change alike
  and no phase is collected.
\<close>

lemma mt_inv_balanced:
  assumes inv: "mt_inv N n num_iter s" and loc: "\<forall>i<n. mt_local n num_iter t i"
    and col: "\<And>x. mt_collected t x = mt_collected s x"
    and up: "\<And>x. 0 < x \<Longrightarrow> x < n \<Longrightarrow>
       \<exists>d. mt_arrived t x = mt_arrived s x + d \<and> mt_pend N t x ((x - 1) div 4) = mt_pend N s x ((x - 1) div 4) + d"
    and down: "\<And>x. 0 < x \<Longrightarrow> x < n \<Longrightarrow> mt_down N t x"
    and edges: "mt_edges N n t"
    and pc: "\<And>x. (case mt_pc t x of MT_collect f \<Rightarrow> f | _ \<Rightarrow> 0) = (case mt_pc s x of MT_collect f \<Rightarrow> f | _ \<Rightarrow> 0)"
  shows "mt_inv N n num_iter t"
proof -
  have "mt_up N t c" if "c < n" "0 < c" for c
    using up [OF that(2,1)] inv that by (auto simp: mt_inv_def mt_up_def col)
  moreover have "mt_got N n t p = mt_got N n s p" for p
  proof (rule mt_got_cong)
    fix x assume x: "0 < x" "x < n" "(x - 1) div 4 = p"
    show "(mt_arrived t x = mt_pend N t x p + Suc (mt_collected t p)) = (mt_arrived s x = mt_pend N s x p + Suc (mt_collected s p))"
      using up [OF x(1,2)] unfolding x(3) by (auto simp: col)
  qed
  then have "mt_tally N n t p" if "p < n" for p
    using inv that pc by (simp add: mt_inv_def mt_tally_def)
  ultimately show ?thesis using loc down edges inv by (simp add: mt_inv_def)
qed

lemma mt_inv_quiet:
  assumes inv: "mt_inv N n num_iter s" and loc: "\<forall>i<n. mt_local n num_iter t i"
    and pend: "mt_net t = mt_net s" and col: "\<And>x. mt_collected t x = mt_collected s x"
    and cnt: "\<And>x. 0 < x \<Longrightarrow> x < n \<Longrightarrow> mt_arrived t x = mt_arrived s x \<and> mt_woken t x = mt_woken s x \<and> mt_signalled t x = mt_signalled s x"
    and pc: "\<And>x. (case mt_pc t x of MT_collect f \<Rightarrow> f | _ \<Rightarrow> 0) = (case mt_pc s x of MT_collect f \<Rightarrow> f | _ \<Rightarrow> 0)"
  shows "mt_inv N n num_iter t"
  by (rule mt_inv_balanced [OF inv loc col _ _ _ pc])
    (use inv cnt in \<open>auto simp: pend mt_inv_def mt_down_def mt_edges_def\<close>)

lemma mt_inv_receive:
  assumes inv: "mt_inv N n num_iter s" and loc: "\<forall>i<n. mt_local n num_iter t i" and p: "p < n"
    and pc: "mt_pc s p = MT_collect f" and rv: "MPI_Recv N (int src) p (mt_net s) = Some net"
    and t: "t = mt_goto p (MT_collect (Suc f)) net s"
  shows "mt_inv N n num_iter t"
proof -
  have ok: "mpi_ok N" using inv by (simp add: mt_inv_def)
  note msg = mpi_recv_Some [OF ok rv]
  obtain k where k: "k < 4" "src = Suc (p * 4 + k)" "src < n" "k \<notin> mt_got N n s p" "mt_pend N s src p = 1"
    using mt_collect_source [OF inv p pc msg(1)] .
  have s: "mt_iter t = mt_iter s" "mt_pc t = (mt_pc s)(p := MT_collect (Suc f))" "mt_net t = net"
    by (simp_all add: t mt_goto_def)
  have cnt: "mt_collected t x = mt_collected s x" "mt_arrived t x = mt_arrived s x" "mt_woken t x = mt_woken s x" "mt_signalled t x = mt_signalled s x" for x
    by (simp_all add: mt_counts s pc)
  have sp: "(src - 1) div 4 = p" "0 < src" "p < src" using k by auto
  have up: "mt_up N s c" "mt_down N s c" if "c < n" "0 < c" for c using inv that by (auto simp: mt_inv_def)
  have arr: "mt_arrived s src = Suc (mt_collected s p)"
    using up(1) [OF k(3) sp(2)] k by (simp add: mt_up_def sp(1) mt_got_def)
  have "mt_up N t c" if c: "c < n" "0 < c" for c
    using up(1) [OF c] arr k(5) sp(1) by (cases "c = src") (auto simp: mt_up_def cnt s msg(2))
  moreover have "mt_down N t c" if c: "c < n" "0 < c" for c
    using up(2) [OF c] sp(3) by (auto simp: mt_down_def cnt s msg(2))
  moreover have "mt_edges N n t" using inv by (auto simp: mt_inv_def mt_edges_def s msg(2))
  moreover have "mt_tally N n t q" if q: "q < n" for q
  proof (cases "q = p")
    case True
    have "mt_got N n t p = insert k (mt_got N n s p)"
      using k arr by (auto simp: mt_got_def cnt s msg(2))
    moreover have "finite (mt_got N n s p)" by (simp add: mt_got_def)
    ultimately show ?thesis using inv p k(4) pc True by (auto simp: mt_inv_def mt_tally_def s)
  next
    case False
    have "mt_got N n t q = mt_got N n s q"
      by (rule mt_got_cong) (use False in \<open>auto simp: cnt s msg(2)\<close>)
    then show ?thesis using inv q False by (simp add: mt_inv_def mt_tally_def s)
  qed
  ultimately show ?thesis using loc inv by (simp add: mt_inv_def)
qed

lemma mt_inv_collected:
  assumes inv: "mt_inv N n num_iter s" and loc: "\<forall>i<n. mt_local n num_iter t i" and p: "p < n"
    and pc: "mt_pc s p = MT_collect f" and all: "\<not> int f < mt_num_children n p"
    and t: "t = mt_goto p MT_report (mt_net s) s"
  shows "mt_inv N n num_iter t"
proof -
  have s: "mt_iter t = mt_iter s" "mt_pc t = (mt_pc s)(p := MT_report)" "mt_net t = mt_net s"
    by (simp_all add: t mt_goto_def)
  have cnt: "mt_arrived t x = mt_arrived s x" "mt_woken t x = mt_woken s x" "mt_signalled t x = mt_signalled s x" for x
    by (simp_all add: mt_counts s pc)
  have col: "mt_collected t x = (if x = p then Suc (mt_collected s x) else mt_collected s x)" for x
    by (simp add: mt_counts s pc)
  have "card (mt_got N n s p) = f" using inv p pc by (auto simp: mt_inv_def mt_tally_def)
  then have ge: "card {k. k < 4 \<and> Suc (p * 4 + k) < n} \<le> card (mt_got N n s p)"
    using all mt_num_children_card [of p n] by simp
  have full: "mt_got N n s p = {k. k < 4 \<and> Suc (p * 4 + k) < n}"
    by (rule card_seteq [OF _ _ ge]) (auto simp: mt_got_def)
  have ch: "mt_arrived s c = mt_pend N s c p + Suc (mt_collected s p)" if "c < n" "0 < c" "(c - 1) div 4 = p" for c
  proof -
    have "(c - 1) mod 4 \<in> mt_got N n s p" and "c = Suc (p * 4 + (c - 1) mod 4)" unfolding full using that by auto
    then show ?thesis by (auto simp: mt_got_def)
  qed
  have "mt_up N t c" if c: "c < n" "0 < c" for c
    using inv c ch [OF c] by (auto simp: mt_inv_def mt_up_def cnt col s)
  moreover have "mt_down N t c" if "c < n" "0 < c" for c
    using inv that by (auto simp: mt_inv_def mt_down_def cnt s)
  moreover have "mt_edges N n t" using inv by (simp add: mt_inv_def mt_edges_def s)
  moreover have "mt_tally N n t q" if q: "q < n" for q
  proof (cases "q = p")
    case True
    have "mt_got N n t p = {}" using ch by (auto simp: mt_got_def cnt s col)
    then show ?thesis using True by (simp add: mt_tally_def s)
  next
    case False
    have "mt_got N n t q = mt_got N n s q" by (rule mt_got_cong) (use False in \<open>auto simp: cnt s col\<close>)
    then show ?thesis using inv q False by (simp add: mt_inv_def mt_tally_def s)
  qed
  ultimately show ?thesis using loc inv by (simp add: mt_inv_def)
qed

lemma mt_inv_report:
  assumes inv: "mt_inv N n num_iter s" and loc: "\<forall>i<n. mt_local n num_iter t i" and i: "i < n" "0 < i"
    and pc: "mt_pc s i = MT_report" and t: "t = mt_goto i MT_recv (MPI_Isend N i (int ((i - 1) div 4)) (mt_net s)) s"
  shows "mt_inv N n num_iter t"
proof (rule mt_inv_balanced [OF inv loc])
  have ok: "mpi_ok N" using inv by (simp add: mt_inv_def)
  let ?p = "(i - 1) div 4"
  have s: "mt_iter t = mt_iter s" "mt_pc t = (mt_pc s)(i := MT_recv)"
    "\<And>a b. mt_pend N t a b = mt_pend N s a b + of_bool (a = i \<and> b = ?p)"
    by (simp_all add: t mt_goto_def mpi_isend_apply [OF ok])
  have cnt: "mt_woken t x = mt_woken s x" "mt_signalled t x = mt_signalled s x" for x
    by (simp_all add: mt_counts s pc)
  show "mt_collected t x = mt_collected s x" for x by (simp add: mt_counts s pc)
  show "\<exists>d. mt_arrived t x = mt_arrived s x + d \<and> mt_pend N t x ((x - 1) div 4) = mt_pend N s x ((x - 1) div 4) + d" for x
    by (rule exI [of _ "of_bool (x = i)"]) (auto simp: mt_counts s pc)
  show "mt_down N t x" if x: "0 < x" "x < n" for x
  proof -
    have "\<not> ((x - 1) div 2 = i \<and> x = ?p)" using x i by auto
    then show ?thesis using inv x by (auto simp: mt_inv_def mt_down_def cnt s)
  qed
  show "mt_edges N n t" using inv i by (auto simp: mt_inv_def mt_edges_def s)
  show "(case mt_pc t x of MT_collect f \<Rightarrow> f | _ \<Rightarrow> 0) = (case mt_pc s x of MT_collect f \<Rightarrow> f | _ \<Rightarrow> 0)" for x
    by (simp add: s pc)
qed

lemma mt_inv_woken:
  assumes inv: "mt_inv N n num_iter s" and loc: "\<forall>i<n. mt_local n num_iter t i" and i: "i < n" "0 < i"
    and pc: "mt_pc s i = MT_recv" and rv: "MPI_Recv N (int ((i - 1) div 2)) i (mt_net s) = Some net"
    and t: "t = mt_goto i (MT_wake 0) net s"
  shows "mt_inv N n num_iter t"
proof (rule mt_inv_balanced [OF inv loc])
  have ok: "mpi_ok N" using inv by (simp add: mt_inv_def)
  let ?w = "(i - 1) div 2"
  note msg = mpi_recv_Some [OF ok rv]
  have s: "mt_iter t = mt_iter s" "mt_pc t = (mt_pc s)(i := MT_wake 0)"
    "\<And>a b. mt_pend N t a b = mt_pend N s a b - of_bool (a = ?w \<and> b = i)"
    by (simp_all add: t mt_goto_def msg(2))
  have w: "?w < i" using i by auto
  have sg: "mt_signalled t x = mt_signalled s x" for x by (simp add: mt_counts s pc)
  have wk: "mt_woken t x = mt_woken s x + of_bool (x = i)" for x by (simp add: mt_counts s pc)
  show "mt_collected t x = mt_collected s x" for x by (simp add: mt_counts s pc)
  show "\<exists>d. mt_arrived t x = mt_arrived s x + d \<and> mt_pend N t x ((x - 1) div 4) = mt_pend N s x ((x - 1) div 4) + d" if "0 < x" for x
  proof -
    have "\<not> (x = ?w \<and> (x - 1) div 4 = i)" using w that by auto
    then show ?thesis by (intro exI [of _ 0]) (auto simp: mt_counts s pc)
  qed
  show "mt_down N t x" if x: "0 < x" "x < n" for x
    using inv x msg(1) by (auto simp: mt_inv_def mt_down_def sg wk s)
  show "mt_edges N n t" using inv by (auto simp: mt_inv_def mt_edges_def s)
  show "(case mt_pc t x of MT_collect f \<Rightarrow> f | _ \<Rightarrow> 0) = (case mt_pc s x of MT_collect f \<Rightarrow> f | _ \<Rightarrow> 0)" for x
    by (simp add: s pc)
qed

lemma mt_inv_signal:
  assumes inv: "mt_inv N n num_iter s" and loc: "\<forall>i<n. mt_local n num_iter t i" and i: "i < n"
    and pc: "mt_pc s i = MT_wake k" and k: "k < 2" and c: "Suc (i * 2 + k) < n"
    and t: "t = mt_goto i (MT_wake (Suc k)) (MPI_Isend N i (int (Suc (i * 2 + k))) (mt_net s)) s"
  shows "mt_inv N n num_iter t"
proof (rule mt_inv_balanced [OF inv loc])
  have ok: "mpi_ok N" using inv by (simp add: mt_inv_def)
  let ?c = "Suc (i * 2 + k)"
  have s: "mt_iter t = mt_iter s" "mt_pc t = (mt_pc s)(i := MT_wake (Suc k))"
    "\<And>a b. mt_pend N t a b = mt_pend N s a b + of_bool (a = i \<and> b = ?c)"
    by (simp_all add: t mt_goto_def mpi_isend_apply [OF ok] del: of_nat_Suc)
  have wk: "mt_woken t x = mt_woken s x" for x by (simp add: mt_counts s pc)
  have sg: "mt_signalled t x = mt_signalled s x + of_bool (x = ?c)" if "0 < x" for x
  proof (cases "(x - 1) div 2 = i")
    case True
    define m where "m = (x - 1) mod 2"
    have "x = Suc ((x - 1) div 2 * 2 + m)" using that by (simp add: m_def)
    then have "x = Suc (i * 2 + m)" unfolding True .
    then show ?thesis unfolding mt_signalled_def True m_def [symmetric] by (auto simp: s pc)
  next
    case False
    then have "x \<noteq> ?c" using k by auto
    then show ?thesis using False by (simp add: mt_signalled_def s)
  qed
  show "mt_collected t x = mt_collected s x" for x by (simp add: mt_counts s pc)
  show "\<exists>d. mt_arrived t x = mt_arrived s x + d \<and> mt_pend N t x ((x - 1) div 4) = mt_pend N s x ((x - 1) div 4) + d" if "0 < x" for x
  proof -
    have "\<not> (x = i \<and> (x - 1) div 4 = ?c)" by auto
    then show ?thesis by (intro exI [of _ 0]) (auto simp: mt_counts s pc)
  qed
  show "mt_down N t x" if x: "0 < x" "x < n" for x
  proof -
    have "(x - 1) div 2 = i \<and> x = ?c \<longleftrightarrow> x = ?c" using k by auto
    then show ?thesis using inv x by (simp add: mt_inv_def mt_down_def sg [OF x(1)] wk s)
  qed
  show "mt_edges N n t" using inv c k by (auto simp: mt_inv_def mt_edges_def s)
  show "(case mt_pc t x of MT_collect f \<Rightarrow> f | _ \<Rightarrow> 0) = (case mt_pc s x of MT_collect f \<Rightarrow> f | _ \<Rightarrow> 0)" for x
    by (simp add: s pc)
qed

lemma mt_inv_return:
  assumes inv: "mt_inv N n num_iter s" and loc: "\<forall>i<n. mt_local n num_iter t i"
    and pc: "mt_pc s i = MT_wake k" and k: "\<not> (Suc (i * 2 + k) < n \<and> k < 2)"
    and t: "t = (mt_goto i MT_loop (mt_net s) s)\<lparr>mt_iter := (mt_iter s)(i := Suc (mt_iter s i))\<rparr>"
  shows "mt_inv N n num_iter t"
proof (rule mt_inv_quiet [OF inv loc])
  have s: "mt_iter t = (mt_iter s)(i := Suc (mt_iter s i))" "mt_pc t = (mt_pc s)(i := MT_loop)" "mt_net t = mt_net s"
    by (simp_all add: t mt_goto_def)
  show "mt_net t = mt_net s" by (rule s)
  show "mt_collected t x = mt_collected s x" for x by (simp add: mt_counts s pc)
  show "mt_arrived t x = mt_arrived s x \<and> mt_woken t x = mt_woken s x \<and> mt_signalled t x = mt_signalled s x"
    if x: "0 < x" "x < n" for x
  proof (intro conjI)
    show "mt_signalled t x = mt_signalled s x"
    proof (cases "(x - 1) div 2 = i")
      case True
      define m where "m = (x - 1) mod 2"
      have "x = Suc ((x - 1) div 2 * 2 + m)" "m < 2" using x(1) by (simp_all add: m_def)
      then have "m < k" using k x(2) True by auto
      then show ?thesis unfolding mt_signalled_def True m_def [symmetric] by (simp add: s pc)
    qed (simp add: mt_signalled_def s)
  qed (simp_all add: mt_counts s pc)
  show "(case mt_pc t x of MT_collect f \<Rightarrow> f | _ \<Rightarrow> 0) = (case mt_pc s x of MT_collect f \<Rightarrow> f | _ \<Rightarrow> 0)" for x
    by (simp add: s pc)
qed

lemma mt_int_parent: "0 < i \<Longrightarrow> (int i - 1) div int m = int ((i - 1) div m)"
  by (simp add: zdiv_int of_nat_diff)

lemma mt_inv_step:
  assumes inv: "mt_inv N n num_iter s" and st: "mt_step N n num_iter s t"
  shows "mt_inv N n num_iter t"
  using st
proof cases
  case (mt_process i src)
  note i = mt_process(1) and step = mt_process(3)[unfolded mt_gtmpi_barrier_def]
  have li: "mt_local n num_iter s i" using inv i by (simp add: mt_inv_def)
  have "mt_local n num_iter t j" if "j < n" for j
    using mt_local_step [OF mt_process(3) li] mt_frame [OF mt_process(3), of j] inv that
    by (cases "j = i") (simp_all add: mt_inv_def mt_local_def)
  then have loc: "\<forall>j<n. mt_local n num_iter t j" by blast
  show ?thesis
  proof (cases "mt_pc s i")
    case MT_loop
    then have t: "t = mt_goto i (MT_collect 0) (mt_net s) s" using step by (simp split: if_splits)
    show ?thesis by (rule mt_inv_quiet [OF inv loc]) (use MT_loop in \<open>auto simp: t mt_goto_def mt_counts\<close>)
  next
    case (MT_collect f)
    then show ?thesis
      using step mt_inv_receive [OF inv loc i MT_collect] mt_inv_collected [OF inv loc i MT_collect]
      by (auto split: if_splits option.splits)
  next
    case MT_report
    show ?thesis
    proof (cases "i = 0")
      case True
      then have t: "t = mt_goto 0 (MT_wake 0) (mt_net s) s" using step MT_report by simp
      show ?thesis
        by (rule mt_inv_quiet [OF inv loc]) (use MT_report True in \<open>auto simp: t mt_goto_def mt_counts\<close>)
    next
      case False
      then show ?thesis
        using step MT_report mt_inv_report [OF inv loc i _ MT_report] mt_int_parent [of i 4] by simp
    qed
  next
    case MT_recv
    then have "0 < i" using li by (simp add: mt_local_def)
    then show ?thesis
      using step MT_recv mt_inv_woken [OF inv loc i _ MT_recv] mt_int_parent [of i 2] by (auto split: option.splits)
  next
    case (MT_wake k)
    have e: "int i * 2 + 1 + int k = int (Suc (i * 2 + k))" by simp
    have lt: "int (Suc (i * 2 + k)) < int n \<longleftrightarrow> Suc (i * 2 + k) < n" by (rule of_nat_less_iff)
    show ?thesis
      using step mt_inv_signal [OF inv loc i MT_wake] mt_inv_return [OF inv loc MT_wake]
      unfolding MT_wake Let_def e lt mt_pc.case by (auto simp del: of_nat_Suc split: if_splits)
  qed
qed

interpretation mti: inductive_invariant "mt_start N" "mt_step N n num_iter" "mt_inv N n num_iter"
  by unfold_locales (auto simp: mt_inv_start intro: mt_inv_step)

section \<open>The assertion holds\<close>

lemma mt_source_in_range:
  assumes inv: "mt_inv N n num_iter s" and p: "p < n" and pc: "mt_pc s p = MT_collect f" and msg: "0 < mt_pend N s src p"
  shows "mt_first_child p \<le> int src \<and> int src < mt_first_child p + mt_num_children n p"
proof -
  obtain k where "k < 4" "src = Suc (p * 4 + k)" "src < n"
    using mt_collect_source [OF inv p pc msg] by blast
  then show ?thesis by (auto simp: mt_first_child_def mt_num_children_def Let_def)
qed

lemma mt_no_fault:
  assumes inv: "mt_inv N n num_iter s" and p: "p < n"
  shows "mt_gtmpi_barrier N n num_iter src p s \<noteq> Some (Inl e)"
proof (cases "mt_pc s p")
  case (MT_collect f)
  then show ?thesis
    using mt_source_in_range [OF inv p MT_collect, of src] mpi_recv_Some(1) [of N src p "mt_net s"] inv [unfolded mt_inv_def]
    by (auto simp: mt_gtmpi_barrier_def split: if_splits option.splits)
qed (auto simp: mt_gtmpi_barrier_def Let_def split: if_splits option.splits)

section \<open>Termination\<close>

fun mt_weight :: "mt_pc \<Rightarrow> nat" where
  "mt_weight MT_loop = 0"
| "mt_weight (MT_collect f) = f + 1"
| "mt_weight MT_report = 6"
| "mt_weight MT_recv = 7"
| "mt_weight (MT_wake j) = j + 8"

text \<open>A call takes at most eleven steps of the calling process.\<close>

definition mt_rank :: "nat \<Rightarrow> nat \<Rightarrow> 'n mt_state \<Rightarrow> nat" where
  "mt_rank n num_iter s = (\<Sum>i<n. steps_todo 11 num_iter (mt_iter s i) (mt_weight (mt_pc s i)))"

lemma mt_rank_decreases:
  assumes inv: "mt_inv N n num_iter s" and st: "mt_step N n num_iter s t"
  shows "mt_rank n num_iter t < mt_rank n num_iter s"
  using st
proof cases
  case (mt_process i src)
  note step = mt_process(3)[unfolded mt_gtmpi_barrier_def Let_def]
  have it: "mt_pc s i \<noteq> MT_loop \<Longrightarrow> mt_iter s i < num_iter" and wj: "mt_pc s i = MT_wake j \<Longrightarrow> j \<le> 2" for j
    using inv mt_process(1) by (auto simp: mt_inv_def mt_local_def)
  have nc: "mt_num_children n i \<le> 4" by (simp add: mt_num_children_def Let_def)
  have f4: "f \<le> 4" if "mt_pc s i = MT_collect f" for f
  proof -
    have "card (mt_got N n s i) = f" using inv mt_process(1) that by (auto simp: mt_inv_def mt_tally_def)
    moreover have "card (mt_got N n s i) \<le> card {..<4::nat}" by (rule card_mono) (auto simp: mt_got_def)
    ultimately show ?thesis by simp
  qed
  have adv: "mt_iter t i = Suc (mt_iter s i) \<and> mt_weight (mt_pc t i) = 0 \<and> mt_iter s i < num_iter \<or>
      mt_iter t i = mt_iter s i \<and> mt_iter s i < num_iter \<and> mt_weight (mt_pc s i) < mt_weight (mt_pc t i) \<and> mt_weight (mt_pc t i) < 11"
    using step it wj nc f4
    by (cases "mt_pc s i") (auto simp: mt_goto_def split: if_splits option.splits)
  have w: "mt_weight (mt_pc s i) < 11" using wj f4 by (cases "mt_pc s i") (auto simp: le_less_trans)
  have "steps_todo 11 num_iter (mt_iter t i) (mt_weight (mt_pc t i)) < steps_todo 11 num_iter (mt_iter s i) (mt_weight (mt_pc s i))"
    using adv w steps_todo_call [of "mt_iter s i" num_iter] by auto
  moreover have "steps_todo 11 num_iter (mt_iter t j) (mt_weight (mt_pc t j)) = steps_todo 11 num_iter (mt_iter s j) (mt_weight (mt_pc s j))"
    if "j \<noteq> i" for j
    using mt_frame [OF mt_process(3) that] by simp
  ultimately show ?thesis unfolding mt_rank_def by (rule sum_one_less [OF mt_process(1)])
qed

lemma mt_stuck_done:
  assumes inv: "mt_inv N n num_iter s" and stuck: "\<And>t. \<not> mt_step N n num_iter s t" and i: "i < n"
  shows "mt_iter s i = num_iter"
proof (rule mtt.no_wait_cycle [OF inv i, where waiting = "\<lambda>i. \<exists>f. mt_pc s i = MT_collect f" and spinning = "\<lambda>i. mt_pc s i = MT_recv"])
  have ok: "mpi_ok N" using inv by (simp add: mt_inv_def)
  have none: "mt_gtmpi_barrier N n num_iter src j s = None" if "j < n" "src < n" for src j
  proof (cases "mt_gtmpi_barrier N n num_iter src j s")
    case (Some r)
    then show ?thesis using mt_no_fault [OF inv that(1)] stuck mt_process [OF that] by (cases r) blast+
  qed
  have loc: "mt_iter s j \<le> num_iter" "mt_pc s j \<noteq> MT_loop \<Longrightarrow> mt_iter s j < num_iter" "mt_pc s j = MT_recv \<Longrightarrow> 0 < j" if "j < n" for j
    using inv that by (auto simp: mt_inv_def mt_local_def)
  show shape: "mt_iter s j = num_iter \<and> mt_arrived s j = num_iter \<or> (\<exists>f. mt_pc s j = MT_collect f) \<or> mt_pc s j = MT_recv" if "j < n" for j
    using none [OF that that] loc [OF that]
    by (cases "mt_pc s j") (auto simp: mt_gtmpi_barrier_def Let_def mt_arrived_def split: if_splits option.splits)
  show "mt_iter s p < num_iter \<and> mt_arrived s p = mt_iter s p \<and> (\<exists>c. p < c \<and> c < n \<and> mt_arrived s c = mt_iter s p)"
    if p: "p < n" "\<exists>f. mt_pc s p = MT_collect f" for p
  proof -
    obtain f where f: "mt_pc s p = MT_collect f" using p(2) by blast
    have "int f < mt_num_children n p"
      using none [OF p(1) p(1)] f by (auto simp: mt_gtmpi_barrier_def split: if_splits)
    moreover have "card (mt_got N n s p) = f" using inv p(1) f by (auto simp: mt_inv_def mt_tally_def)
    ultimately have "mt_got N n s p \<noteq> {k. k < 4 \<and> Suc (p * 4 + k) < n}"
      using mt_num_children_card [of p n] by (metis order_less_irrefl)
    moreover have "mt_got N n s p \<subseteq> {k. k < 4 \<and> Suc (p * 4 + k) < n}" unfolding mt_got_def by blast
    ultimately obtain k where k: "k < 4" "Suc (p * 4 + k) < n" "k \<notin> mt_got N n s p" by blast
    let ?c = "Suc (p * 4 + k)"
    have pc: "(?c - 1) div 4 = p" using k(1) by simp
    have "mt_pend N s ?c p = 0"
      using none [OF p(1) k(2)] f \<open>int f < _\<close> mpi_recv_None [OF ok, of ?c p "mt_net s"]
      by (auto simp: mt_gtmpi_barrier_def simp del: of_nat_Suc split: if_splits option.splits)
    moreover have "mt_up N s ?c" using inv k(2) by (simp add: mt_inv_def)
    ultimately have "mt_arrived s ?c = mt_collected s p" using k unfolding mt_up_def pc by (simp add: mt_got_def)
    then show ?thesis using loc(2) [OF p(1)] f k(2) by (intro conjI exI [of _ ?c]) (auto simp: mt_counts)
  qed
  show "mt_iter s j < num_iter \<and> 0 < j \<and> mt_arrived s j = Suc (mt_iter s j) \<and> mt_iter s ((j - 1) div 2) = mt_iter s j"
    if j: "j < n" "mt_pc s j = MT_recv" for j
  proof -
    have w: "(j - 1) div 2 < n" "0 < j" using j(1) loc(3) [OF j] by auto
    have sig: "mt_signalled s j = mt_iter s ((j - 1) div 2)"
      using shape [OF w(1)] none [OF w(1) w(1)] by (cases "mt_pc s ((j - 1) div 2)")
        (auto simp: mt_signalled_def mt_gtmpi_barrier_def Let_def split: if_splits)
    have "mt_pend N s ((j - 1) div 2) j = 0"
      using none [OF j(1) j(1)] j(2) mpi_recv_None [OF ok, of "(j - 1) div 2" j "mt_net s"] mt_int_parent [OF w(2), of 2]
      by (auto simp: mt_gtmpi_barrier_def split: option.splits)
    then have "mt_signalled s j = mt_woken s j" using inv j(1) w(2) by (simp add: mt_inv_def mt_down_def)
    then show ?thesis using loc(2) [OF j(1)] j(2) w(2) sig by (simp add: mt_arrived_def mt_woken_def)
  qed
qed

interpretation mt: terminating_barrier n "mt_start N" "mt_step N n num_iter" mt_entered mt_left num_iter "mt_rank n num_iter"
proof unfold_locales
  fix s i j t
  assume "reachable (mt_start N) (mt_step N n num_iter) s"
  note inv = mti.inv_reachable [OF this]
  show "mt_left s i \<le> mt_entered s i \<and> mt_entered s i \<le> Suc (mt_left s i)"
    by (simp add: mt_left_def mt_entered_def)
  have "mt_arrived s j \<le> mt_entered s j"
    by (auto simp: mt_arrived_def mt_entered_def split: mt_pc.splits)
  then show "i < n \<Longrightarrow> j < n \<Longrightarrow> mt_left s i \<le> mt_entered s j"
    using mtt.iter_le_arrived [OF inv] by (auto simp: mt_left_def intro: le_trans)
  show "(\<And>t. \<not> mt_step N n num_iter s t) \<Longrightarrow> i < n \<Longrightarrow> mt_left s i = num_iter"
    using mt_stuck_done [OF inv] by (simp add: mt_left_def)
  show "mt_step N n num_iter s t \<Longrightarrow> mt_rank n num_iter t < mt_rank n num_iter s"
    by (rule mt_rank_decreases [OF inv])
qed

section \<open>Properties\<close>

abbreviation mt_begin :: "'n mpi_net \<Rightarrow> 'n mt_state \<Rightarrow> bool" where
  "mt_begin N s \<equiv> s = mt_start_state N"

lemma mt_begin_reachable: "reachable (mt_begin N) (mt_step N n num_iter) (mt_start_state N)"
  by (rule reachable_start) simp

lemma mt_start_reachable: "mpi_ok N \<Longrightarrow> reachable (mt_start N) (mt_step N n num_iter) (mt_start_state N)"
  by (rule reachable_start) simp

text \<open>
  C17: If MPI meets its laws, the tree barrier is safe although arrival and wake-up messages share
  a tag: in every reachable state a process that has completed \<open>k\<close> calls is matched by \<open>k\<close>
  begun calls of every other process, and the assertion on the source of an arrival message
  never fails.
\<close>

theorem mpi_tree_barrier_safe:
  assumes "mpi_ok N" and "reachable (mt_begin N) (mt_step N n num_iter) s" and "i < n" and "j < n"
  shows "mt_left s i \<le> mt_entered s j \<and> (\<forall>src e. mt_gtmpi_barrier N n num_iter src i s \<noteq> Some (Inl e))"
proof -
  note r = reachable_with [OF assms(2,1)]
  show ?thesis using mt.safe [OF r assms(3,4)] mt_no_fault [OF mti.inv_reachable [OF r] assms(3)] by blast
qed

theorem mpi_tree_barrier_safe_witness:
  "mt_left (mt_start_state counting_net) 3 \<le> mt_entered (mt_start_state counting_net) 11 \<and>
   (\<forall>src e. mt_gtmpi_barrier counting_net 12 1 src 3 (mt_start_state counting_net) \<noteq> Some (Inl e))"
  by (rule mpi_tree_barrier_safe [OF counting_net_ok mt_begin_reachable [of _ 12 1]]) simp_all

text \<open>
  C26: If MPI meets its laws, the tree barrier cannot deadlock: from every reachable state all
  processes can complete their \<open>num_iter\<close> calls, a run has at most \<open>11 * n * num_iter\<close> steps,
  and it stops only when all are through.
\<close>

theorem mpi_tree_barrier_completes:
  assumes "mpi_ok N" and "reachable (mt_begin N) (mt_step N n num_iter) s"
  shows "(\<exists>t. (mt_step N n num_iter)\<^sup>*\<^sup>* s t \<and> (\<forall>i<n. mt_left t i = num_iter))
    \<and> (\<forall>k t. (mt_step N n num_iter ^^ k) (mt_start_state N) t \<longrightarrow> k \<le> 11 * n * num_iter)
    \<and> ((\<nexists>t. mt_step N n num_iter s t) \<longrightarrow> (\<forall>i<n. mt_left s i = num_iter))"
proof -
  note r = reachable_with [OF assms(2,1)]
  have rank0: "mt_rank n num_iter (mt_start_state N) = 11 * n * num_iter"
    by (simp add: mt_rank_def steps_todo_def mt_start_state_def)
  have "k \<le> 11 * n * num_iter" if "(mt_step N n num_iter ^^ k) (mt_start_state N) t" for k t
    using mt.run_length [OF mt_start_reachable [OF assms(1)] that] rank0 by simp
  then show ?thesis using mt.run_completes [OF r] mt.blocked_iff_done [OF r] by blast
qed

theorem mpi_tree_barrier_completes_witness:
  "\<exists>t. (mt_step counting_net 12 1)\<^sup>*\<^sup>* (mt_start_state counting_net) t \<and> (\<forall>i<12. mt_left t i = 1)"
  using mpi_tree_barrier_completes [OF counting_net_ok mt_begin_reachable [of _ 12 1]] by blast

end
