(* ===== verification/CppStrings.thy ===== *)
theory CppStrings
  imports AOS_Prelude
begin

text \<open>
  The C++ standard library as the MapReduce sources use it: \<open>std::getline\<close> on the rest of a
  stream, \<open>find_first_of\<close> stored in an \<open>int\<close> (so that \<open>npos\<close> becomes -1), \<open>substr\<close> with its
  \<open>std::out_of_range\<close>, \<open>std::stoi\<close> and \<open>std::to_string\<close>. Strings are lists of characters.
\<close>

section \<open>Streams\<close>

text \<open>The line and the rest of the stream; \<open>None\<close> when nothing is left to extract.\<close>

definition getline :: "char \<Rightarrow> string \<Rightarrow> (string \<times> string) option" where
  "getline d s = (if s = [] then None else Some (takeWhile (\<lambda>c. c \<noteq> d) s, drop 1 (dropWhile (\<lambda>c. c \<noteq> d) s)))"

text \<open>The lines that a loop \<open>while (getline(...))\<close> sees.\<close>

function getlines :: "char \<Rightarrow> string \<Rightarrow> string list" where
  "getlines d s = (case getline d s of None \<Rightarrow> [] | Some (line, rest) \<Rightarrow> line # getlines d rest)"
  by pat_completeness auto
termination
proof (relation "measure (\<lambda>(d, s). length s)")
  fix d s x and line rest :: string
  assume "getline d s = Some x" and "(line, rest) = x"
  then have "s \<noteq> []" and r: "rest = drop 1 (dropWhile (\<lambda>c. c \<noteq> d) s)" by (auto simp: getline_def split: if_splits)
  then have "length rest < length s"
    using length_dropWhile_le [of "\<lambda>c. c \<noteq> d" s] by (cases s) (auto split: if_splits)
  then show "((d, rest), (d, s)) \<in> measure (\<lambda>(d, s). length s)" by simp
qed simp

declare getlines.simps [simp del]

lemma getlines_Nil [simp]: "getlines d [] = []"
  by (simp add: getlines.simps getline_def)

lemma getlines_Cons:
  "s \<noteq> [] \<Longrightarrow> getlines d s = takeWhile (\<lambda>c. c \<noteq> d) s # getlines d (drop 1 (dropWhile (\<lambda>c. c \<noteq> d) s))"
  by (subst getlines.simps) (simp add: getline_def)

text \<open>A first line that ends with the delimiter, and a last one that does not.\<close>

lemma getlines_line [simp]: "d \<notin> set l \<Longrightarrow> getlines d (l @ d # s) = l # getlines d s"
  by (subst getlines_Cons) (simp_all add: takeWhile_append dropWhile_append)

lemma getlines_last: "d \<notin> set l \<Longrightarrow> l \<noteq> [] \<Longrightarrow> getlines d l = [l]"
proof -
  assume l: "d \<notin> set l" "l \<noteq> []"
  then have "takeWhile (\<lambda>c. c \<noteq> d) l = l" by (auto simp: takeWhile_eq_all_conv)
  moreover from l have "dropWhile (\<lambda>c. c \<noteq> d) l = []" by (auto simp: dropWhile_eq_Nil_conv)
  ultimately show ?thesis by (simp only: getlines_Cons [OF l(2)]) simp
qed

lemma getlines_concat:
  "(\<And>l. l \<in> set ls \<Longrightarrow> d \<notin> set l) \<Longrightarrow> getlines d (concat (map (\<lambda>l. l @ [d]) ls) @ s) = ls @ getlines d s"
  by (induction ls) simp_all

text \<open>Cutting a stream after a delimiter does not change its lines.\<close>

lemma getlines_append:
  assumes "s = [] \<or> last s = d"
  shows "getlines d (s @ t) = getlines d s @ getlines d t"
  using assms
proof (induction "length s" arbitrary: s rule: less_induct)
  case less
  show ?case
  proof (cases "s = []")
    case False
    then have l: "last s = d" using less.prems by simp
    have "d \<in> set s" using l False last_in_set by fastforce
    then obtain k r where s: "s = k @ d # r" and nd: "d \<notin> set k" using split_list_first by metis
    have r: "r = [] \<or> last r = d" using l by (auto simp: s split: if_splits)
    have len: "length r < length s" by (simp add: s)
    have "getlines d (s @ t) = k # getlines d (r @ t)" using nd by (simp add: s)
    also have "\<dots> = k # getlines d r @ getlines d t" using less.hyps [OF len r] by simp
    also have "\<dots> = getlines d s @ getlines d t" using nd by (simp add: s)
    finally show ?thesis .
  qed simp
qed

text \<open>No line contains the delimiter; a character after an unfinished last line belongs to it.\<close>

lemma getlines_no_delim: "l \<in> set (getlines d s) \<Longrightarrow> d \<notin> set l"
proof (induction "length s" arbitrary: s rule: less_induct)
  case less
  then have s: "s \<noteq> []" by auto
  let ?r = "drop 1 (dropWhile (\<lambda>c. c \<noteq> d) s)"
  have "length (dropWhile (\<lambda>c. c \<noteq> d) s) \<le> length s" by (rule length_dropWhile_le)
  moreover have "0 < length s" using s by simp
  ultimately have len: "length ?r < length s" by (simp only: length_drop)
  have "l = takeWhile (\<lambda>c. c \<noteq> d) s \<or> l \<in> set (getlines d ?r)" using less.prems by (simp add: getlines_Cons [OF s])
  then show ?case using less.hyps [OF len] by (metis set_takeWhileD)
qed

lemma getlines_snoc:
  assumes "t \<noteq> []" and "last t \<noteq> d" and "x \<noteq> d"
  shows "getlines d t \<noteq> [] \<and> getlines d (t @ [x]) = butlast (getlines d t) @ [last (getlines d t) @ [x]]"
  using assms(1,2)
proof (induction "length t" arbitrary: t rule: less_induct)
  case less
  show ?case
  proof (cases "d \<in> set t")
    case False
    then show ?thesis using less.prems(1) assms(3) getlines_last [of d t] getlines_last [of d "t @ [x]"] by simp
  next
    case True
    then obtain k r where t: "t = k @ d # r" and nd: "d \<notin> set k" using split_list_first by metis
    have r: "r \<noteq> []" "last r \<noteq> d" "length r < length t" using less.prems(2) by (auto simp: t split: if_splits)
    show ?thesis using less.hyps [OF r(3,1,2)] nd by (simp add: t)
  qed
qed

section \<open>Searching and cutting\<close>

text \<open>\<open>int pos = s.find(c)\<close>.\<close>

definition find_first :: "char \<Rightarrow> string \<Rightarrow> int" where
  "find_first c s = (if c \<in> set s then int (length (takeWhile (\<lambda>x. x \<noteq> c) s)) else - 1)"

text \<open>
  \<open>s.substr(pos, n)\<close>: the arguments are converted to \<open>size_t\<close>, so a negative count is larger
  than every length.
\<close>

definition substr :: "string \<Rightarrow> int \<Rightarrow> int \<Rightarrow> string outcome" where
  "substr s pos n =
     (if pos < 0 \<or> int (length s) < pos then Inl OutOfRange
      else Inr (if n < 0 then drop (nat pos) s else take (nat n) (drop (nat pos) s)))"

definition npos :: int where
  "npos = - 1"

lemma find_first_append [simp]: "c \<notin> set k \<Longrightarrow> find_first c (k @ c # v) = int (length k)"
  by (simp add: find_first_def takeWhile_append)

lemma substr_prefix [simp]: "substr (k @ v) 0 (int (length k)) = Inr k"
  by (simp add: substr_def)

lemma substr_suffix: "pos = int (length k) \<Longrightarrow> substr (k @ v) pos npos = Inr v"
  by (simp add: substr_def npos_def)

section \<open>Numbers\<close>

definition is_space :: "char \<Rightarrow> bool" where
  "is_space c \<longleftrightarrow> c \<in> set '' '' \<or> of_char c \<in> {9 .. 13 :: nat}"

definition is_digit :: "char \<Rightarrow> bool" where
  "is_digit c \<longleftrightarrow> of_char c \<in> {48 .. 57 :: nat}"

definition digits_value :: "string \<Rightarrow> int" where
  "digits_value ds = fold (\<lambda>c acc. acc * 10 + (of_char c - 48)) ds 0"

definition stoi :: "string \<Rightarrow> int outcome" where
  "stoi str =
     (let s = dropWhile is_space str;
          (neg, s) = (case s of c # cs \<Rightarrow> (if c = CHR ''-'' then (True, cs) else if c = CHR ''+'' then (False, cs) else (False, s))
                      | [] \<Rightarrow> (False, s));
          ds = takeWhile is_digit s
      in if ds = [] then Inl InvalidArgument
         else let v = (if neg then - digits_value ds else digits_value ds)
              in if in_int v then Inr v else Inl OutOfRange)"

fun to_string_nat :: "nat \<Rightarrow> string" where
  "to_string_nat n = (if n < 10 then [char_of (48 + n)] else to_string_nat (n div 10) @ [char_of (48 + n mod 10)])"

declare to_string_nat.simps [simp del]

definition to_string :: "int \<Rightarrow> string" where
  "to_string i = (if i < 0 then CHR ''-'' # to_string_nat (nat (- i)) else to_string_nat (nat i))"

lemma of_char_digit: "d < 10 \<Longrightarrow> of_char (char_of (48 + d :: nat) :: char) = (48 + d :: nat)"
  by (simp add: of_char_of)

lemma to_string_nat_digits: "c \<in> set (to_string_nat n) \<Longrightarrow> is_digit c"
proof (induction n rule: to_string_nat.induct)
  case (1 n)
  show ?case
  proof (cases "n < 10")
    case True
    then show ?thesis using 1(2) by (auto simp: to_string_nat.simps [of n] is_digit_def of_char_of)
  next
    case False
    then show ?thesis
      using 1 by (subst (asm) to_string_nat.simps) (auto simp: is_digit_def of_char_of)
  qed
qed

lemma to_string_nat_not_Nil: "to_string_nat n \<noteq> []"
  by (subst to_string_nat.simps) simp

lemma digits_value_snoc: "digits_value (ds @ [c]) = digits_value ds * 10 + (of_char c - 48)"
  by (simp add: digits_value_def)

lemma int_of_char: "(of_char c :: int) = int (of_char c)"
  by (cases c) (simp add: of_char_Char)

lemma digits_value_to_string: "digits_value (to_string_nat n) = int n"
proof (induction n rule: to_string_nat.induct)
  case (1 n)
  show ?case
  proof (cases "n < 10")
    case True
    then show ?thesis
      by (subst to_string_nat.simps) (simp add: digits_value_def int_of_char of_char_of)
  next
    case False
    have "int n = int (n div 10) * 10 + int (n mod 10)" using div_mult_mod_eq [of n 10] by linarith
    with False 1 show ?thesis
      by (subst to_string_nat.simps) (simp add: digits_value_snoc int_of_char of_char_of)
  qed
qed

text \<open>Printing a number and reading it back, possibly followed by something else.\<close>

lemma stoi_to_string:
  assumes "in_int i" and "r = [] \<or> \<not> is_digit (hd r)"
  shows "stoi (to_string i @ r) = Inr i"
proof -
  have tw: "takeWhile is_digit (to_string_nat n @ r) = to_string_nat n" for n
    using assms(2) by (cases r) (simp_all add: takeWhile_append to_string_nat_digits)
  have hd: "\<exists>c cs. to_string_nat n @ r = c # cs \<and> is_digit c" for n
    using to_string_nat_not_Nil [of n] to_string_nat_digits [of _ n] by (cases "to_string_nat n") auto
  have dig: "\<not> is_space c \<and> c \<noteq> CHR ''-'' \<and> c \<noteq> CHR ''+''" if "is_digit c" for c
    using that by (auto simp: is_digit_def is_space_def)
  show ?thesis
  proof (cases "i < 0")
    case True
    have "\<not> is_space (CHR ''-'')" by (simp add: is_space_def)
    then show ?thesis
      using True assms(1) by (simp add: stoi_def to_string_def tw to_string_nat_not_Nil digits_value_to_string)
  next
    case False
    obtain c cs where c: "to_string_nat (nat i) @ r = c # cs" "is_digit c" using hd by blast
    show ?thesis
      using False assms(1) dig [OF c(2)] tw [of "nat i"]
      by (simp add: stoi_def to_string_def c(1) to_string_nat_not_Nil digits_value_to_string)
  qed
qed

section \<open>C strings\<close>

definition NUL :: char where
  "NUL = CHR 0x00"

text \<open>What a C function sees of \<open>c_str()\<close>: everything up to the first NUL.\<close>

definition c_string :: "string \<Rightarrow> string" where
  "c_string s = takeWhile (\<lambda>c. c \<noteq> NUL) s"

text \<open>\<open>atoi\<close>: a value that \<open>int\<close> cannot represent is undefined behaviour.\<close>

definition atoi :: "string \<Rightarrow> int outcome" where
  "atoi s = (case stoi (c_string s) of Inr v \<Rightarrow> Inr v | Inl e \<Rightarrow> if e = InvalidArgument then Inr 0 else Inl SignedOverflow)"

end
