(* ===== verification/MapReduceSpec.thy ===== *)
theory MapReduceSpec
  imports CppStrings
begin

text \<open>
  Reading and validating the configuration: \<^verbatim>\<open>project4/src/mapreduce_spec.h\<close> and the parts of
  \<^verbatim>\<open>project4/src/mapreduce_impl.cc\<close> that call it. The file system is an argument: \<open>file\<close>
  is the content of the configuration file, \<open>exists\<close> and \<open>isdir\<close> answer for paths. The
  integers of a \<open>MapReduceSpec\<close> that is being filled start with arbitrary values, as in the code.
\<close>

section \<open>Data and operations\<close>

record MapReduceSpec =
  n_workers :: int
  worker_ipaddr_ports :: "string list"
  input_files :: "string list"
  output_dir :: string
  n_output_files :: int
  map_kilobytes :: int
  user_id :: string

text \<open>The body of the loop over the lines.\<close>

definition read_config_line :: "string \<Rightarrow> MapReduceSpec \<Rightarrow> MapReduceSpec outcome" where
  "read_config_line line spec =
     (let pos = find_first CHR ''='' line in
      bnd (substr line 0 pos) (\<lambda>key.
      bnd (substr line (pos + 1) npos) (\<lambda>value.
        if key = ''n_workers'' then bnd (stoi value) (\<lambda>v. Inr (spec\<lparr>n_workers := v\<rparr>))
        else if key = ''worker_ipaddr_ports'' then
          Inr (spec\<lparr>worker_ipaddr_ports := worker_ipaddr_ports spec @ getlines CHR '','' value\<rparr>)
        else if key = ''input_files'' then
          Inr (spec\<lparr>input_files := input_files spec @ getlines CHR '','' value\<rparr>)
        else if key = ''output_dir'' then Inr (spec\<lparr>output_dir := value\<rparr>)
        else if key = ''n_output_files'' then bnd (stoi value) (\<lambda>v. Inr (spec\<lparr>n_output_files := v\<rparr>))
        else if key = ''map_kilobytes'' then bnd (stoi value) (\<lambda>v. Inr (spec\<lparr>map_kilobytes := v\<rparr>))
        else if key = ''user_id'' then Inr (spec\<lparr>user_id := value\<rparr>)
        else Inr spec)))"

definition newline :: char where
  "newline = CHR 0x0A"

definition read_mr_spec_from_config_file :: "string option \<Rightarrow> MapReduceSpec \<Rightarrow> (bool \<times> MapReduceSpec) outcome" where
  "read_mr_spec_from_config_file file spec =
     (case file of
        None \<Rightarrow> Inr (False, spec)
      | Some content \<Rightarrow>
          bnd (foldm read_config_line (getlines newline content) spec) (\<lambda>spec. Inr (True, spec)))"

definition validate_mr_spec :: "(string \<Rightarrow> bool) \<Rightarrow> (string \<Rightarrow> bool) \<Rightarrow> MapReduceSpec \<Rightarrow> bool" where
  "validate_mr_spec exists isdir spec =
     (if n_workers spec \<le> 0 then False
      else if int (length (worker_ipaddr_ports spec)) \<noteq> n_workers spec then False
      else if input_files spec = [] then False
      else if list_ex (\<lambda>f. \<not> exists f) (input_files spec) then False
      else if output_dir spec = [] then False
      else if \<not> isdir (output_dir spec) then False
      else if n_output_files spec \<le> 0 then False
      else if map_kilobytes spec \<le> 0 then False
      else if user_id spec = [] then False
      else True)"

definition read_and_validate_spec ::
    "(string \<Rightarrow> bool) \<Rightarrow> (string \<Rightarrow> bool) \<Rightarrow> string option \<Rightarrow> MapReduceSpec \<Rightarrow> (bool \<times> MapReduceSpec) outcome" where
  "read_and_validate_spec exists isdir file spec =
     bnd (read_mr_spec_from_config_file file spec) (\<lambda>(ok, spec).
       Inr (ok \<and> validate_mr_spec exists isdir spec, spec))"

section \<open>Configuration files\<close>

text \<open>
  The configuration file that describes a specification, one \<open>key=value\<close> per line, laid out like
  \<^verbatim>\<open>project4/test/config.ini\<close>: the items of a list and the lines of the file are separated by
  a delimiter, and the last one may have a delimiter behind it (\<open>trailing\<close>) or not.
\<close>

fun separated :: "char \<Rightarrow> bool \<Rightarrow> string list \<Rightarrow> string" where
  "separated d trailing [] = []"
| "separated d trailing [x] = (if trailing then x @ [d] else x)"
| "separated d trailing (x # xs) = x @ d # separated d trailing xs"

definition config_lines :: "bool \<Rightarrow> MapReduceSpec \<Rightarrow> string list" where
  "config_lines trailing spec =
     [''n_workers='' @ to_string (n_workers spec),
      ''worker_ipaddr_ports='' @ separated CHR '','' trailing (worker_ipaddr_ports spec),
      ''input_files='' @ separated CHR '','' trailing (input_files spec),
      ''output_dir='' @ output_dir spec,
      ''n_output_files='' @ to_string (n_output_files spec),
      ''map_kilobytes='' @ to_string (map_kilobytes spec),
      ''user_id='' @ user_id spec]"

definition config_file :: "bool \<Rightarrow> bool \<Rightarrow> MapReduceSpec \<Rightarrow> string" where
  "config_file comma_at_end newline_at_end spec =
     separated newline newline_at_end (config_lines comma_at_end spec)"

text \<open>
  Specifications that a configuration file can express: no item contains a comma or a newline, and
  a list that does not end with a comma does not end with an empty item either.
\<close>

definition list_ok :: "bool \<Rightarrow> string list \<Rightarrow> bool" where
  "list_ok trailing xs \<longleftrightarrow> list_all (\<lambda>x. CHR '','' \<notin> set x \<and> newline \<notin> set x) xs \<and>
     (trailing \<or> xs = [] \<or> last xs \<noteq> [])"

definition spec_ok :: "bool \<Rightarrow> MapReduceSpec \<Rightarrow> bool" where
  "spec_ok trailing spec \<longleftrightarrow> in_int (n_workers spec) \<and> in_int (n_output_files spec) \<and> in_int (map_kilobytes spec) \<and>
     list_ok trailing (worker_ipaddr_ports spec) \<and> list_ok trailing (input_files spec) \<and>
     newline \<notin> set (output_dir spec) \<and> newline \<notin> set (user_id spec)"

lemma read_config_key:
  assumes "CHR ''='' \<notin> set key"
  shows "find_first CHR ''='' (key @ CHR ''='' # v) = int (length key)"
    and "substr (key @ CHR ''='' # v) 0 (int (length key)) = Inr key"
    and "substr (key @ CHR ''='' # v) (int (length key) + 1) npos = Inr v"
proof -
  show "find_first CHR ''='' (key @ CHR ''='' # v) = int (length key)" using assms by (rule find_first_append)
  show "substr (key @ CHR ''='' # v) 0 (int (length key)) = Inr key" by (rule substr_prefix)
  show "substr (key @ CHR ''='' # v) (int (length key) + 1) npos = Inr v"
    using substr_suffix [of "int (length key) + 1" "key @ [CHR ''='']" v] by simp
qed

text \<open>What a line \<open>key=value\<close> does.\<close>

lemma read_config_kv:
  assumes "CHR ''='' \<notin> set key"
  shows "read_config_line (key @ CHR ''='' # v) spec =
     (if key = ''n_workers'' then bnd (stoi v) (\<lambda>v. Inr (spec\<lparr>n_workers := v\<rparr>))
        else if key = ''worker_ipaddr_ports'' then
          Inr (spec\<lparr>worker_ipaddr_ports := worker_ipaddr_ports spec @ getlines CHR '','' v\<rparr>)
        else if key = ''input_files'' then
          Inr (spec\<lparr>input_files := input_files spec @ getlines CHR '','' v\<rparr>)
        else if key = ''output_dir'' then Inr (spec\<lparr>output_dir := v\<rparr>)
        else if key = ''n_output_files'' then bnd (stoi v) (\<lambda>v. Inr (spec\<lparr>n_output_files := v\<rparr>))
        else if key = ''map_kilobytes'' then bnd (stoi v) (\<lambda>v. Inr (spec\<lparr>map_kilobytes := v\<rparr>))
        else if key = ''user_id'' then Inr (spec\<lparr>user_id := v\<rparr>)
        else Inr spec)"
  unfolding read_config_line_def Let_def read_config_key(1) [OF assms] read_config_key(2,3) [OF assms] bnd_simps
  by (rule refl)

lemma getlines_separated:
  "list_all (\<lambda>x. d \<notin> set x) xs \<Longrightarrow> trailing \<or> xs = [] \<or> last xs \<noteq> [] \<Longrightarrow>
     getlines d (separated d trailing xs) = xs"
  by (induction d trailing xs rule: separated.induct) (auto simp: getlines_last)

lemma set_separated: "set (separated d trailing xs) \<subseteq> insert d (\<Union>x\<in>set xs. set x)"
  by (induction d trailing xs rule: separated.induct) auto

lemma list_ok_lines: "list_ok trailing xs \<Longrightarrow> getlines CHR '','' (separated CHR '','' trailing xs) = xs"
  by (rule getlines_separated) (auto simp: list_ok_def list_all_iff)

lemma list_ok_newline: "list_ok trailing xs \<Longrightarrow> newline \<notin> set (separated CHR '','' trailing xs)"
  using set_separated [of "CHR '',''" trailing xs] by (auto simp: list_ok_def list_all_iff newline_def)

lemma newline_not_in_to_string: "newline \<notin> set (to_string i)"
  using to_string_nat_digits [of newline] by (auto simp: to_string_def newline_def is_digit_def)

lemma config_lines_ok: "spec_ok trailing spec \<Longrightarrow> list_all (\<lambda>l. newline \<notin> set l) (config_lines trailing spec)"
  using newline_not_in_to_string list_ok_newline
  by (auto simp: spec_ok_def config_lines_def newline_def)

lemma config_file_lines:
  "spec_ok comma spec \<Longrightarrow> getlines newline (config_file comma final spec) = config_lines comma spec"
  unfolding config_file_def
  by (rule getlines_separated [OF config_lines_ok]) (simp_all add: config_lines_def)

lemmas read_config_keys =
  read_config_kv [of "''n_workers''", simplified] read_config_kv [of "''worker_ipaddr_ports''", simplified]
  read_config_kv [of "''input_files''", simplified] read_config_kv [of "''output_dir''", simplified]
  read_config_kv [of "''n_output_files''", simplified] read_config_kv [of "''map_kilobytes''", simplified]
  read_config_kv [of "''user_id''", simplified]

section \<open>Properties\<close>

lemma read_config_back:
  assumes "spec_ok comma spec" and "worker_ipaddr_ports spec0 = []" and "input_files spec0 = []"
  shows "read_mr_spec_from_config_file (Some (config_file comma final spec)) spec0 = Inr (True, spec)"
proof -
  have nums: "stoi (to_string (n_workers spec)) = Inr (n_workers spec)" "stoi (to_string (n_output_files spec)) = Inr (n_output_files spec)"
    "stoi (to_string (map_kilobytes spec)) = Inr (map_kilobytes spec)"
    using assms(1) stoi_to_string [of _ "[]"] by (simp_all add: spec_ok_def)
  have lists: "getlines CHR '','' (separated CHR '','' comma (worker_ipaddr_ports spec)) = worker_ipaddr_ports spec"
    "getlines CHR '','' (separated CHR '','' comma (input_files spec)) = input_files spec"
    using assms(1) by (auto simp: spec_ok_def intro: list_ok_lines)
  show ?thesis
    unfolding read_mr_spec_from_config_file_def option.case config_file_lines [OF assms(1)]
    by (simp add: config_lines_def read_config_keys nums lists assms(2,3))
qed

text \<open>
  C35: Reading the configuration file that describes a specification, laid out like the
  repository's \<^verbatim>\<open>config.ini\<close>, with or without a comma behind the last item of a list and with or
  without a newline behind the last line, gives that specification, whatever the integers held
  before.
\<close>

theorem read_spec_roundtrip:
  assumes "spec_ok comma spec" and "worker_ipaddr_ports spec0 = []" and "input_files spec0 = []"
  shows "read_mr_spec_from_config_file (Some (config_file comma final spec)) spec0 = Inr (True, spec)"
  using assms by (rule read_config_back)

definition demo_spec :: MapReduceSpec where
  "demo_spec = \<lparr>n_workers = 2, worker_ipaddr_ports = [''localhost:50051'', ''localhost:50052''],
     input_files = [''input/a.txt''], output_dir = ''output'', n_output_files = 8, map_kilobytes = 500, user_id = ''cs6210''\<rparr>"

definition demo_spec0 :: MapReduceSpec where
  "demo_spec0 = demo_spec\<lparr>n_workers := -7, worker_ipaddr_ports := [], input_files := []\<rparr>"

text \<open>The text of \<^verbatim>\<open>project4/test/config.ini\<close> and what it describes.\<close>

definition config_ini :: string where
  "config_ini = ''n_workers=6'' @ newline #
     ''worker_ipaddr_ports=localhost:50051,localhost:50052,localhost:50053,localhost:50054,localhost:50055,localhost:50056'' @ newline #
     ''input_files=input/testdata_1.txt,input/testdata_2.txt,input/testdata_3.txt'' @ newline #
     ''output_dir=output'' @ newline # ''n_output_files=8'' @ newline # ''map_kilobytes=100'' @ newline #
     ''user_id=cs6210'' @ [newline]"

definition config_ini_spec :: MapReduceSpec where
  "config_ini_spec = \<lparr>n_workers = 6,
     worker_ipaddr_ports = [''localhost:50051'', ''localhost:50052'', ''localhost:50053'', ''localhost:50054'',
       ''localhost:50055'', ''localhost:50056''],
     input_files = [''input/testdata_1.txt'', ''input/testdata_2.txt'', ''input/testdata_3.txt''],
     output_dir = ''output'', n_output_files = 8, map_kilobytes = 100, user_id = ''cs6210''\<rparr>"

lemma config_ini_file: "config_file False True config_ini_spec = config_ini"
  by code_simp

lemma config_ini_ok: "spec_ok False config_ini_spec"
  by code_simp

theorem read_spec_roundtrip_witness:
  "read_mr_spec_from_config_file (Some config_ini) demo_spec0 = Inr (True, config_ini_spec)"
  unfolding config_ini_file [symmetric]
  by (rule read_spec_roundtrip [OF config_ini_ok]) (simp_all add: demo_spec0_def)

text \<open>
  A line that has no \<open>=\<close> is taken as key and value at once, so a bare \<open>n_workers\<close>,
  \<open>n_output_files\<close> or \<open>map_kilobytes\<close> makes the reader throw \<open>std::invalid_argument\<close> instead of
  returning false.
\<close>

theorem bare_numeric_key_throws:
  assumes "key \<in> {''n_workers'', ''n_output_files'', ''map_kilobytes''}"
    and "foldm read_config_line before spec0 = Inr spec"
    and "\<forall>l \<in> set before. newline \<notin> set l"
  shows "read_mr_spec_from_config_file (Some (concat (map (\<lambda>l. l @ [newline]) (before @ [key])))) spec0
    = Inl InvalidArgument"
proof -
  have nk: "newline \<notin> set key" using assms(1) by (auto simp: newline_def)
  have "newline \<notin> set l" if "l \<in> set (before @ [key])" for l using that assms(3) nk by auto
  from getlines_concat [of "before @ [key]" newline "[]", OF this]
  have lines: "getlines newline (concat (map (\<lambda>l. l @ [newline]) (before @ [key]))) = before @ [key]"
    by (simp only: append_Nil2 getlines_Nil)
  have bare: "find_first CHR ''='' key = - 1" "substr key 0 (- 1) = Inr key" "substr key (- 1 + 1) npos = Inr key"
    using assms(1) by (auto simp: find_first_def substr_def npos_def)
  have letters: "stoi key = Inl InvalidArgument"
    using assms(1) by (elim insertE emptyE) (simp_all add: stoi_def is_space_def is_digit_def)
  have "read_config_line key spec = Inl InvalidArgument"
    using assms(1) unfolding read_config_line_def Let_def bare bnd_simps letters by (elim insertE emptyE) simp_all
  then show ?thesis
    unfolding read_mr_spec_from_config_file_def option.case lines by (simp add: foldm_append assms(2))
qed

theorem bare_numeric_key_throws_witness:
  "read_mr_spec_from_config_file (Some (concat (map (\<lambda>l. l @ [newline]) ([''user_id=cs6210''] @ [''n_workers''])))) demo_spec0
    = Inl InvalidArgument"
proof (rule bare_numeric_key_throws)
  show "foldm read_config_line [''user_id=cs6210''] demo_spec0 = Inr (demo_spec0\<lparr>user_id := ''cs6210''\<rparr>)"
    by (simp add: read_config_keys)
qed (simp_all add: newline_def)

end
