(* ===== verification/FileShard.thy ===== *)
theory FileShard
  imports MapReduceSpec
begin

text \<open>
  Splitting the input files into shards: \<^verbatim>\<open>project4/src/file_shard.h\<close>. The file system is the
  argument \<open>fs\<close>, which maps a name to the content of the file, or to \<open>None\<close> when it cannot be
  opened. The loop over a file is a partial function: \<open>None\<close> would mean that it runs forever.
\<close>

section \<open>Data and operations\<close>

record FileShard =
  files :: "string list"
  offsets :: "(int \<times> int) list"

definition empty_shard :: FileShard where
  "empty_shard = \<lparr>files = [], offsets = []\<rparr>"

definition get_file_size :: "(string \<Rightarrow> string option) \<Rightarrow> string \<Rightarrow> int" where
  "get_file_size fs filename = (case fs filename of None \<Rightarrow> - 1 | Some c \<Rightarrow> int (length c))"

definition get_split :: "(string \<Rightarrow> string option) \<Rightarrow> string \<Rightarrow> int \<Rightarrow> int \<Rightarrow> int" where
  "get_split fs filename offset remain_shard_size =
     (case fs filename of
        None \<Rightarrow> - 1
      | Some c \<Rightarrow>
          if offset + remain_shard_size < 0 then - 1
          else (case getline newline (drop (nat (offset + remain_shard_size)) c) of
                  None \<Rightarrow> - 1
                | Some (line, rest) \<Rightarrow> remain_shard_size + int (length line) + 1))"

record shard_state =
  fileShards :: "FileShard list"
  shard :: FileShard
  remain_shard_size :: int

definition push_piece :: "string \<Rightarrow> int \<times> int \<Rightarrow> FileShard \<Rightarrow> FileShard" where
  "push_piece f r s = \<lparr>files = files s @ [f], offsets = offsets s @ [r]\<rparr>"

text \<open>The loop \<open>while (file_size > 0)\<close>; \<open>False\<close> when the function returns false.\<close>

partial_function (option) shard_file ::
    "(string \<Rightarrow> string option) \<Rightarrow> string \<Rightarrow> int \<Rightarrow> int \<Rightarrow> int \<Rightarrow> shard_state \<Rightarrow> (bool \<times> shard_state) option" where
  "shard_file fs f shard_size file_size file_offset st =
     (if file_size > 0 then
        if remain_shard_size st > file_size then
          shard_file fs f shard_size 0 file_offset
            (st\<lparr>shard := push_piece f (file_offset, file_offset + file_size) (shard st),
                remain_shard_size := remain_shard_size st - file_size\<rparr>)
        else
          let split_size = get_split fs f file_offset (remain_shard_size st)
          in if split_size = - 1 then Some (False, st)
             else shard_file fs f shard_size (file_size - split_size) (file_offset + split_size)
               \<lparr>fileShards = fileShards st @ [push_piece f (file_offset, file_offset + split_size) (shard st)],
                shard = empty_shard, remain_shard_size = shard_size\<rparr>
      else Some (True, st))"

text \<open>The loop over the input files.\<close>

fun shard_input_files ::
    "(string \<Rightarrow> string option) \<Rightarrow> int \<Rightarrow> string list \<Rightarrow> shard_state \<Rightarrow> (bool \<times> shard_state) option" where
  "shard_input_files fs shard_size [] st = Some (True, st)"
| "shard_input_files fs shard_size (f # rest) st =
     (let file_size = get_file_size fs f
      in if file_size = - 1 then Some (False, st)
         else (case shard_file fs f shard_size file_size 0 st of
                 None \<Rightarrow> None
               | Some (ok, st) \<Rightarrow> if ok then shard_input_files fs shard_size rest st else Some (False, st)))"

definition shard_files :: "(string \<Rightarrow> string option) \<Rightarrow> MapReduceSpec \<Rightarrow> (bool \<times> FileShard list) outcome option" where
  "shard_files fs mr_spec =
     (case int_op (map_kilobytes mr_spec * 1024) of
        Inl e \<Rightarrow> Some (Inl e)
      | Inr shard_size \<Rightarrow>
          (case shard_input_files fs shard_size (input_files mr_spec)
                  \<lparr>fileShards = [], shard = empty_shard, remain_shard_size = shard_size\<rparr> of
             None \<Rightarrow> None
           | Some (ok, st) \<Rightarrow>
               if ok then Some (Inr (True, if files (shard st) = [] then fileShards st else fileShards st @ [shard st]))
               else Some (Inr (False, fileShards st))))"

section \<open>Pieces and tilings\<close>

type_synonym piece = "string \<times> int \<times> int"

definition shard_pieces :: "FileShard \<Rightarrow> piece list" where
  "shard_pieces s = zip (files s) (offsets s)"

definition shard_bytes :: "FileShard \<Rightarrow> int" where
  "shard_bytes s = (\<Sum>(a, b)\<leftarrow>offsets s. b - a)"

text \<open>\<open>tiles f c a ps b\<close>: the pieces \<open>ps\<close> of file \<open>f\<close> cover its content \<open>c\<close> from \<open>a\<close> to \<open>b\<close> without
  gap or overlap; a piece that does not reach the end of the file ends with a newline; a piece may end one
  past the end of a file whose last line has no newline.\<close>

fun tiles :: "string \<Rightarrow> string \<Rightarrow> nat \<Rightarrow> piece list \<Rightarrow> nat \<Rightarrow> bool" where
  "tiles f c a [] b \<longleftrightarrow> a = b"
| "tiles f c a ((g, x, y) # ps) b \<longleftrightarrow> g = f \<and> x = int a \<and> a < length c \<and> int a < y \<and>
     (nat y < length c \<longrightarrow> c ! (nat y - 1) = newline) \<and>
     (length c < nat y \<longrightarrow> nat y = Suc (length c) \<and> last c \<noteq> newline) \<and> tiles f c (nat y) ps b"

definition piece_text :: "string \<Rightarrow> piece \<Rightarrow> string" where
  "piece_text c = (\<lambda>(g, a, b). take (nat (b - a)) (drop (nat a) c))"

lemma tiles_append: "tiles f c a ps b \<Longrightarrow> tiles f c b qs e \<Longrightarrow> tiles f c a (ps @ qs) e"
  by (induction f c a ps b rule: tiles.induct) auto

lemma tiles_mono: "tiles f c a ps b \<Longrightarrow> a \<le> b"
  by (induction f c a ps b rule: tiles.induct) auto

lemma tiles_text:
  "tiles f c a ps b \<Longrightarrow> length c \<le> b \<Longrightarrow> concat (map (piece_text c) ps) = drop a c"
proof (induction f c a ps b rule: tiles.induct)
  case (2 f c a g x y ps b)
  have "piece_text c (g, x, y) = take (nat y - a) (drop a c)"
    using 2(2) by (simp add: piece_text_def nat_diff_distrib)
  moreover have "take (nat y - a) (drop a c) @ drop (nat y) c = drop a c"
  proof -
    have "a < nat y" using 2(2) by auto
    then have "drop (nat y) c = drop (nat y - a) (drop a c)" by simp
    then show ?thesis by (metis append_take_drop_id)
  qed
  ultimately show ?case using 2 by simp
qed simp

lemma tiles_file: "tiles f c a ps b \<Longrightarrow> fst ` set ps \<subseteq> {f}"
  by (induction f c a ps b rule: tiles.induct) auto

text \<open>The lines of the pieces are the lines of the file.\<close>

lemma tiles_lines:
  "tiles f c a ps b \<Longrightarrow> length c \<le> b \<Longrightarrow> concat (map (\<lambda>p. getlines newline (piece_text c p)) ps) = getlines newline (drop a c)"
proof (induction f c a ps b rule: tiles.induct)
  case (2 f c a g x y ps b)
  let ?p = "take (nat y - a) (drop a c)"
  have a: "a < nat y" using 2(2) by auto
  have pt: "piece_text c (g, x, y) = ?p" using 2(2) by (simp add: piece_text_def nat_diff_distrib)
  have "drop (nat y) c = drop (nat y - a) (drop a c)" using a by simp
  then have split: "?p @ drop (nat y) c = drop a c" by (metis append_take_drop_id)
  have IH: "concat (map (\<lambda>p. getlines newline (piece_text c p)) ps) = getlines newline (drop (nat y) c)"
    using 2 by simp
  show ?case
  proof (cases "nat y < length c")
    case True
    then have "?p \<noteq> []" "last ?p = c ! (nat y - 1)" using a by (auto simp: last_conv_nth)
    then have "last ?p = newline" using 2(2) True by simp
    then have "getlines newline (?p @ drop (nat y) c) = getlines newline ?p @ getlines newline (drop (nat y) c)"
      by (intro getlines_append) simp
    then show ?thesis using IH pt split by simp
  next
    case False
    then show ?thesis using IH pt split by simp
  qed
qed simp

section \<open>The loop over one file\<close>

definition st_pieces :: "shard_state \<Rightarrow> piece list" where
  "st_pieces st = concat (map shard_pieces (fileShards st)) @ shard_pieces (shard st)"

text \<open>
  The state between two pieces: complete shards hold more than \<open>shard_size\<close> bytes, the
  current one lacks exactly \<open>remain_shard_size\<close> bytes.
\<close>

definition st_ok :: "int \<Rightarrow> shard_state \<Rightarrow> bool" where
  "st_ok shard_size st \<longleftrightarrow> 0 < remain_shard_size st \<and> shard_bytes (shard st) = shard_size - remain_shard_size st \<and>
     length (files (shard st)) = length (offsets (shard st)) \<and>
     (\<forall>s\<in>set (fileShards st). shard_size < shard_bytes s \<and> length (files s) = length (offsets s))"

lemma push_piece_simps:
  assumes "length (files s) = length (offsets s)"
  shows "shard_pieces (push_piece f (a, b) s) = shard_pieces s @ [(f, a, b)]"
    and "shard_bytes (push_piece f (a, b) s) = shard_bytes s + (b - a)"
    and "length (files (push_piece f (a, b) s)) = length (offsets (push_piece f (a, b) s))"
  using assms by (simp_all add: push_piece_def shard_pieces_def shard_bytes_def)

lemma empty_shard_simps [simp]: "shard_pieces empty_shard = []" "shard_bytes empty_shard = 0"
  "files empty_shard = []" "offsets empty_shard = []"
  by (simp_all add: empty_shard_def shard_pieces_def shard_bytes_def)

text \<open>Where a split falls: one past the next newline, or one past the end of the file.\<close>

lemma get_split_cases:
  assumes "fs f = Some c" and "0 < r" and "a + nat r \<le> length c"
  shows "a + nat r = length c \<and> get_split fs f (int a) r = - 1 \<or>
    (\<exists>k. get_split fs f (int a) r = r + int k + 1 \<and> a + nat r < length c \<and> a + nat r + k \<le> length c \<and>
      (a + nat r + k < length c \<longrightarrow> c ! (a + nat r + k) = newline) \<and> (a + nat r + k = length c \<longrightarrow> last c \<noteq> newline))"
proof (cases "a + nat r = length c")
  case True
  then have "drop (nat (int a + r)) c = []" using assms(2) by (simp add: nat_add_distrib)
  then show ?thesis using True assms(1,2) by (simp add: get_split_def getline_def)
next
  case False
  let ?t = "drop (a + nat r) c"
  let ?l = "takeWhile (\<lambda>x. x \<noteq> newline) ?t"
  have t: "?t \<noteq> []" "nat (int a + r) = a + nat r" "\<not> int a + r < 0" using False assms(2,3) by (simp_all add: nat_add_distrib)
  then have "get_split fs f (int a) r = r + int (length ?l) + 1" using assms(1) by (simp add: get_split_def getline_def)
  moreover have "length ?l \<le> length ?t" by (rule length_takeWhile_le)
  moreover have "?t ! length ?l = newline" if "length ?l < length ?t" using nth_length_takeWhile [OF that] by simp
  moreover have "last c \<noteq> newline" if "a + nat r + length ?l = length c"
  proof -
    have "?l = ?t" using that by (metis add_diff_cancel_left' length_drop takeWhile_dropWhile_id append_eq_conv_conj take_all_iff order_refl)
    then have "newline \<notin> set ?t" by (metis (mono_tags) takeWhile_eq_all_conv)
    then show ?thesis using t(1) by (metis last_drop last_in_set drop_all leI)
  qed
  ultimately show ?thesis using False assms(3) by (intro disjI2 exI [of _ "length ?l"]) (auto simp: add.assoc)
qed

lemma shard_file_ok:
  assumes fs: "fs f = Some c" and S: "0 < shard_size"
  shows "st_ok shard_size st \<Longrightarrow> a \<le> Suc (length c) \<Longrightarrow>
    \<exists>ok st'. shard_file fs f shard_size (int (length c) - int a) (int a) st = Some (ok, st') \<and>
      (ok \<longrightarrow> st_ok shard_size st' \<and> (\<exists>ps b. st_pieces st' = st_pieces st @ ps \<and> tiles f c a ps b \<and>
         length c \<le> b \<and> b \<le> Suc (length c)))"
proof (induction "length c - a" arbitrary: a st rule: less_induct)
  case less
  have lens: "length (files (shard st)) = length (offsets (shard st))" using less.prems(1) by (simp add: st_ok_def)
  note pp = push_piece_simps [OF lens]
  show ?case
  proof (cases "a < length c")
    case False
    then show ?thesis
      using less.prems by (subst shard_file.simps) (auto intro!: exI [of _ "[]"])
  next
    case lt: True
    show ?thesis
    proof (cases "remain_shard_size st > int (length c) - int a")
      case True
      let ?st = "st\<lparr>shard := push_piece f (int a, int (length c)) (shard st),
        remain_shard_size := remain_shard_size st - (int (length c) - int a)\<rparr>"
      have "shard_file fs f shard_size (int (length c) - int a) (int a) st = shard_file fs f shard_size 0 (int a) ?st"
        using lt True by (subst shard_file.simps) simp
      also have "\<dots> = Some (True, ?st)" by (subst shard_file.simps) simp
      finally have run: "shard_file fs f shard_size (int (length c) - int a) (int a) st = Some (True, ?st)" .
      have "st_ok shard_size ?st" using less.prems(1) True by (simp add: st_ok_def pp)
      moreover have "st_pieces ?st = st_pieces st @ [(f, int a, int (length c))]" by (simp add: st_pieces_def pp)
      moreover have "tiles f c a [(f, int a, int (length c))] (length c)" using lt by simp
      ultimately show ?thesis using run by (intro exI conjI impI) (assumption | rule le_refl | simp)+
    next
      case False
      let ?r = "remain_shard_size st"
      have r: "0 < ?r" "a + nat ?r \<le> length c" using less.prems(1) False lt by (auto simp: st_ok_def)
      from get_split_cases [of fs f c, OF fs r(1) r(2)] show ?thesis
      proof (elim disjE exE conjE)
        assume "get_split fs f (int a) ?r = - 1"
        then have "shard_file fs f shard_size (int (length c) - int a) (int a) st = Some (False, st)"
          using lt False by (subst shard_file.simps) simp
        then show ?thesis by blast
      next
        fix k
        assume gs: "get_split fs f (int a) ?r = ?r + int k + 1" and k: "a + nat ?r < length c" "a + nat ?r + k \<le> length c"
          "a + nat ?r + k < length c \<longrightarrow> c ! (a + nat ?r + k) = newline" "a + nat ?r + k = length c \<longrightarrow> last c \<noteq> newline"
        define b where "b = Suc (a + nat ?r + k)"
        have ib: "int a + (?r + int k + 1) = int b" "int (length c) - int a - (?r + int k + 1) = int (length c) - int b"
          using r(1) by (simp_all add: b_def)
        let ?s = "push_piece f (int a, int b) (shard st)"
        let ?st = "\<lparr>fileShards = fileShards st @ [?s], shard = empty_shard, remain_shard_size = shard_size\<rparr>"
        have run: "shard_file fs f shard_size (int (length c) - int a) (int a) st
            = shard_file fs f shard_size (int (length c) - int b) (int b) ?st"
          using lt False gs r(1) by (subst shard_file.simps) (simp add: Let_def ib)
        have "shard_size < shard_bytes ?s"
          using less.prems(1) r(1) by (simp add: pp(2) st_ok_def b_def)
        then have ok: "st_ok shard_size ?st" using less.prems(1) S pp(3) by (simp add: st_ok_def)
        have bl: "b \<le> Suc (length c)" "length c - b < length c - a" using k lt by (auto simp: b_def)
        from less.hyps [OF bl(2) ok bl(1)] obtain good st' where
          rec: "shard_file fs f shard_size (int (length c) - int b) (int b) ?st = Some (good, st')"
          and res: "good \<longrightarrow> st_ok shard_size st' \<and> (\<exists>ps e. st_pieces st' = st_pieces ?st @ ps \<and> tiles f c b ps e \<and>
             length c \<le> e \<and> e \<le> Suc (length c))" by blast
        have pc: "st_pieces ?st = st_pieces st @ [(f, int a, int b)]" by (simp add: st_pieces_def pp)
        have "a < b" "b < length c \<longrightarrow> c ! (b - 1) = newline" "length c < b \<longrightarrow> b = Suc (length c) \<and> last c \<noteq> newline"
          using k by (auto simp: b_def)
        then have tl: "tiles f c a ((f, int a, int b) # ps) e" if "tiles f c b ps e" for ps e using that lt by simp
        have "st_ok shard_size st' \<and> (\<exists>ps e. st_pieces st' = st_pieces st @ ps \<and> tiles f c a ps e \<and>
             length c \<le> e \<and> e \<le> Suc (length c))" if good
        proof -
          from that res obtain ps e where e: "st_ok shard_size st'" "st_pieces st' = st_pieces ?st @ ps" "tiles f c b ps e"
            "length c \<le> e" "e \<le> Suc (length c)" by blast
          have "st_pieces st' = st_pieces st @ ((f, int a, int b) # ps)" using e(2) pc by simp
          then show ?thesis using e(1,4,5) tl [OF e(3)] by blast
        qed
        then show ?thesis using run rec by simp
      qed
    qed
  qed
qed

section \<open>All input files\<close>

definition covers :: "(string \<Rightarrow> string option) \<Rightarrow> string \<Rightarrow> piece list \<Rightarrow> bool" where
  "covers fs f ps \<longleftrightarrow> (\<exists>c b. fs f = Some c \<and> tiles f c 0 ps b \<and> length c \<le> b \<and> b \<le> Suc (length c))"

lemma shard_input_files_ok:
  assumes S: "0 < shard_size"
  shows "st_ok shard_size st \<Longrightarrow> \<exists>ok st'. shard_input_files fs shard_size fl st = Some (ok, st') \<and>
    (ok \<longrightarrow> st_ok shard_size st' \<and> (\<exists>pss. st_pieces st' = st_pieces st @ concat pss \<and> list_all2 (covers fs) fl pss))"
proof (induction fl arbitrary: st)
  case Nil
  then show ?case by (auto intro: exI [of _ "[]"])
next
  case (Cons f fl)
  show ?case
  proof (cases "fs f")
    case None
    then show ?thesis by (simp add: get_file_size_def) blast
  next
    case (Some c)
    obtain ok st1 where run: "shard_file fs f shard_size (int (length c)) 0 st = Some (ok, st1)"
      and res: "ok \<longrightarrow> st_ok shard_size st1 \<and> (\<exists>ps b. st_pieces st1 = st_pieces st @ ps \<and> tiles f c 0 ps b \<and>
         length c \<le> b \<and> b \<le> Suc (length c))"
      using shard_file_ok [of fs f c shard_size st 0, OF Some S Cons.prems] by auto
    have step: "shard_input_files fs shard_size (f # fl) st = (if ok then shard_input_files fs shard_size fl st1 else Some (False, st1))"
      using run Some by (simp add: get_file_size_def)
    show ?thesis
    proof (cases ok)
      case False
      then show ?thesis using step by auto
    next
      case True
      with res obtain ps where ps: "st_ok shard_size st1" "st_pieces st1 = st_pieces st @ ps" "covers fs f ps"
        using Some unfolding covers_def by blast
      from Cons.IH [OF ps(1)] obtain good st2 where st2: "shard_input_files fs shard_size fl st1 = Some (good, st2)"
        and res2: "good \<longrightarrow> st_ok shard_size st2 \<and> (\<exists>pss. st_pieces st2 = st_pieces st1 @ concat pss \<and> list_all2 (covers fs) fl pss)"
        by blast
      have "\<exists>qss. st_pieces st2 = st_pieces st @ concat qss \<and> list_all2 (covers fs) (f # fl) qss"
        if "st_pieces st2 = st_pieces st1 @ concat pss" "list_all2 (covers fs) fl pss" for pss
        using that ps(2,3) by (intro exI [of _ "ps # pss"]) simp
      then show ?thesis using step st2 res2 True by (intro exI [of _ good] exI [of _ st2]) auto
    qed
  qed
qed

text \<open>What a run returns for a positive shard size that fits in \<open>int\<close>.\<close>

lemma shard_files_run:
  assumes "0 < map_kilobytes spec" and "map_kilobytes spec \<le> 2097151"
  shows "\<exists>ok st. shard_files fs spec = Some (Inr (ok, if ok \<and> files (shard st) \<noteq> [] then fileShards st @ [shard st] else fileShards st)) \<and>
    (ok \<longrightarrow> st_ok (map_kilobytes spec * 1024) st \<and>
      (\<exists>pss. st_pieces st = concat pss \<and> list_all2 (covers fs) (input_files spec) pss))"
proof -
  let ?S = "map_kilobytes spec * 1024"
  let ?st0 = "\<lparr>fileShards = [], shard = empty_shard, remain_shard_size = ?S\<rparr>"
  have op: "int_op ?S = Inr ?S" using assms by (simp add: int_op_def in_int_def INT_MAX_def INT_MIN_def)
  have ok0: "st_ok ?S ?st0" "st_pieces ?st0 = []" using assms(1) by (simp_all add: st_ok_def st_pieces_def)
  have S: "0 < ?S" using assms(1) by simp
  obtain ok st where run: "shard_input_files fs ?S (input_files spec) ?st0 = Some (ok, st)"
    and res: "ok \<longrightarrow> st_ok ?S st \<and> (\<exists>pss. st_pieces st = st_pieces ?st0 @ concat pss \<and> list_all2 (covers fs) (input_files spec) pss)"
    using shard_input_files_ok [OF S ok0(1)] by blast
  have "shard_files fs spec = Some (Inr (ok, if ok \<and> files (shard st) \<noteq> [] then fileShards st @ [shard st] else fileShards st))"
    using run op by (simp add: shard_files_def)
  moreover have "ok \<longrightarrow> st_ok ?S st \<and> (\<exists>pss. st_pieces st = concat pss \<and> list_all2 (covers fs) (input_files spec) pss)"
    using res ok0(2) by simp
  ultimately show ?thesis by blast
qed

lemma shard_files_true:
  assumes "0 < map_kilobytes spec" and "map_kilobytes spec \<le> 2097151"
    and "shard_files fs spec = Some (Inr (True, shards))"
  obtains st pss where "shards = (if files (shard st) \<noteq> [] then fileShards st @ [shard st] else fileShards st)"
    and "st_ok (map_kilobytes spec * 1024) st"
    and "st_pieces st = concat pss" and "list_all2 (covers fs) (input_files spec) pss"
proof -
  from shard_files_run [OF assms(1,2), of fs] obtain ok st where
    run: "shard_files fs spec = Some (Inr (ok, if ok \<and> files (shard st) \<noteq> [] then fileShards st @ [shard st] else fileShards st))"
    and ok: "ok \<longrightarrow> st_ok (map_kilobytes spec * 1024) st \<and>
      (\<exists>pss. st_pieces st = concat pss \<and> list_all2 (covers fs) (input_files spec) pss)"
    by (elim exE conjE)
  have k: ok "shards = (if files (shard st) \<noteq> [] then fileShards st @ [shard st] else fileShards st)"
    using run assms(3) by (auto simp del: split_paired_All)
  from ok k(1) obtain pss where "st_ok (map_kilobytes spec * 1024) st" "st_pieces st = concat pss"
    "list_all2 (covers fs) (input_files spec) pss" by (elim impE exE conjE)
  with k(2) show thesis by (intro that)
qed

section \<open>Properties\<close>

text \<open>
  C13: When \<open>shard_files\<close> returns true, the pieces in the shards are, in order, the pieces of
  each input file in turn: every piece names its file, the pieces of a file put together are its
  content, and the lines of the pieces are the lines of the file: no line is lost, duplicated or
  cut. Every file name of a shard has its pair of offsets.
\<close>

theorem shard_files_keep_lines:
  assumes "0 < map_kilobytes spec" and "map_kilobytes spec \<le> 2097151"
    and "shard_files fs spec = Some (Inr (True, shards))"
  shows "list_all (\<lambda>s. length (files s) = length (offsets s)) shards \<and>
    (\<exists>pss. concat (map shard_pieces shards) = concat pss \<and>
      list_all2 (\<lambda>f ps. fst ` set ps \<subseteq> {f} \<and> (\<exists>c. fs f = Some c \<and> concat (map (piece_text c) ps) = c \<and>
        concat (map (\<lambda>p. getlines newline (piece_text c p)) ps) = getlines newline c)) (input_files spec) pss)"
proof -
  from shard_files_true [OF assms] obtain st pss where
    sh: "shards = (if files (shard st) \<noteq> [] then fileShards st @ [shard st] else fileShards st)"
    and ok: "st_ok (map_kilobytes spec * 1024) st"
    and pss: "st_pieces st = concat pss" "list_all2 (covers fs) (input_files spec) pss" .
  have lens: "list_all (\<lambda>s. length (files s) = length (offsets s)) shards"
    using ok by (auto simp: sh st_ok_def list_all_iff)
  have "concat (map shard_pieces shards) = st_pieces st" by (simp add: sh st_pieces_def shard_pieces_def)
  then have eq: "concat (map shard_pieces shards) = concat pss" using pss(1) by simp
  have piece: "fst ` set ps \<subseteq> {f} \<and> (\<exists>c. fs f = Some c \<and> concat (map (piece_text c) ps) = c \<and>
      concat (map (\<lambda>p. getlines newline (piece_text c p)) ps) = getlines newline c)" if "covers fs f ps" for f ps
    using that tiles_text [of f _ 0 ps] tiles_lines [of f _ 0 ps] tiles_file [of f _ 0 ps]
    unfolding covers_def by fastforce
  show ?thesis
    by (intro conjI exI [of _ pss] lens eq list_all2_mono [OF pss(2)]) (use piece in blast)+
qed

text \<open>A file whose first line is longer than a shard of 1 KB.\<close>

definition demo_text :: string where
  "demo_text = replicate 1100 (CHR ''x'') @ newline # ''tail''"

definition demo_fs :: "string \<Rightarrow> string option" where
  "demo_fs f = (if f = ''input/a.txt'' then Some demo_text else None)"

definition demo_shards :: "FileShard list" where
  "demo_shards = [\<lparr>files = [''input/a.txt''], offsets = [(0, 1101)]\<rparr>, \<lparr>files = [''input/a.txt''], offsets = [(1101, 1105)]\<rparr>]"

lemma demo_split: "get_split demo_fs ''input/a.txt'' 0 1024 = 1101"
proof -
  have "drop 1024 demo_text = replicate 76 (CHR ''x'') @ newline # ''tail''"
    by (simp only: demo_text_def drop_append drop_replicate length_replicate) simp
  then have "getline newline (drop (nat 1024) demo_text) = Some (replicate 76 (CHR ''x''), ''tail'')"
    by (simp add: getline_def takeWhile_append dropWhile_append newline_def)
  then show ?thesis by (simp add: get_split_def demo_fs_def)
qed

lemma demo_run: "shard_files demo_fs (demo_spec\<lparr>map_kilobytes := 1\<rparr>) = Some (Inr (True, demo_shards))"
proof -
  have sz: "get_file_size demo_fs ''input/a.txt'' = 1105" by (simp add: get_file_size_def demo_fs_def demo_text_def)
  show ?thesis
    by (simp add: shard_files_def demo_spec_def sz int_op_def in_int_def INT_MAX_def INT_MIN_def demo_shards_def push_piece_def
      shard_file.simps demo_split)
qed

theorem shard_files_keep_lines_witness:
  "list_all (\<lambda>s. length (files s) = length (offsets s)) demo_shards \<and>
    (\<exists>pss. concat (map shard_pieces demo_shards) = concat pss \<and>
      list_all2 (\<lambda>f ps. fst ` set ps \<subseteq> {f} \<and> (\<exists>c. demo_fs f = Some c \<and> concat (map (piece_text c) ps) = c \<and>
        concat (map (\<lambda>p. getlines newline (piece_text c p)) ps) = getlines newline c)) [''input/a.txt''] pss)"
  using shard_files_keep_lines [OF _ _ demo_run] by (simp add: demo_spec_def)

text \<open>
  C34: \<open>shard_files\<close> returns for every positive shard size: normally while
  \<open>map_kilobytes * 1024\<close> fits in \<open>int\<close>, with a signed overflow beyond that.
\<close>

theorem shard_files_returns:
  assumes "0 < map_kilobytes spec"
  shows "if map_kilobytes spec \<le> 2097151 then \<exists>ok shards. shard_files fs spec = Some (Inr (ok, shards))
    else shard_files fs spec = Some (Inl SignedOverflow)"
proof (cases "map_kilobytes spec \<le> 2097151")
  case True
  from shard_files_run [OF assms True, of fs] have "\<exists>ok shards. shard_files fs spec = Some (Inr (ok, shards))"
    by (elim exE conjE) (rule exI, rule exI)
  then show ?thesis using True by simp
next
  case False
  then have "int_op (map_kilobytes spec * 1024) = Inl SignedOverflow" by (simp add: int_op_def in_int_def INT_MAX_def)
  then show ?thesis using False by (simp add: shard_files_def)
qed

theorem shard_files_returns_witness:
  "(\<exists>ok shards. shard_files demo_fs demo_spec = Some (Inr (ok, shards)))
   \<and> shard_files demo_fs (demo_spec\<lparr>map_kilobytes := 2097152\<rparr>) = Some (Inl SignedOverflow)"
  using shard_files_returns [of demo_spec demo_fs] shard_files_returns [of "demo_spec\<lparr>map_kilobytes := 2097152\<rparr>" demo_fs]
  by (simp add: demo_spec_def)

text \<open>
  Every shard but the last holds more than \<open>map_kilobytes\<close> KB.
\<close>

theorem shard_sizes:
  assumes "0 < map_kilobytes spec" and "map_kilobytes spec \<le> 2097151"
    and "shard_files fs spec = Some (Inr (True, shards))"
  shows "\<forall>s\<in>set (butlast shards). map_kilobytes spec * 1024 < shard_bytes s"
proof -
  from shard_files_true [OF assms] obtain st where
    sh: "shards = (if files (shard st) \<noteq> [] then fileShards st @ [shard st] else fileShards st)"
    and ok: "st_ok (map_kilobytes spec * 1024) st" .
  have "set (butlast shards) \<subseteq> set (fileShards st)" by (auto simp: sh dest: in_set_butlastD)
  then show ?thesis using ok by (auto simp: st_ok_def)
qed

theorem shard_sizes_witness: "(1024::int) < shard_bytes \<lparr>files = [''input/a.txt''], offsets = [(0, 1101)]\<rparr>"
  using shard_sizes [OF _ _ demo_run] by (simp add: demo_shards_def)

text \<open>
  C40: A first input file whose size is exactly the shard size cannot be sharded: the split
  point is the end of the file, where no further line can be read, and \<open>shard_files\<close> returns
  false.
\<close>

theorem shard_files_exact_size_fails:
  assumes "0 < map_kilobytes spec" and "map_kilobytes spec \<le> 2097151"
    and "input_files spec = f # fl" and "fs f = Some c" and "int (length c) = map_kilobytes spec * 1024"
  shows "shard_files fs spec = Some (Inr (False, []))"
proof -
  let ?S = "map_kilobytes spec * 1024"
  have op: "int_op ?S = Inr ?S" using assms(1,2) by (simp add: int_op_def in_int_def INT_MAX_def INT_MIN_def)
  have S: "0 < ?S" using assms(1) by simp
  have "nat ?S = length c" using assms(5) by linarith
  then have "get_split fs f 0 ?S = - 1" using get_split_cases [of fs f c ?S 0, OF assms(4) S] by simp
  then have "shard_file fs f ?S ?S 0 st = Some (False, st)" if "remain_shard_size st = ?S" for st
    using that S by (subst shard_file.simps) simp
  then show ?thesis using op assms(3-5) by (simp add: shard_files_def get_file_size_def)
qed

theorem shard_files_exact_size_fails_witness:
  "shard_files (\<lambda>_. Some (replicate 1024 newline)) (demo_spec\<lparr>map_kilobytes := 1\<rparr>) = Some (Inr (False, []))"
  using shard_files_exact_size_fails [of "demo_spec\<lparr>map_kilobytes := 1\<rparr>" "''input/a.txt''" "[]" "\<lambda>_. Some (replicate 1024 newline)"]
  by (simp add: demo_spec_def)

end
