(* ===== verification/MrTasks.thy ===== *)
theory MrTasks
  imports MapReduceSpec
begin

text \<open>
  What the framework gives the user's map and reduce functions:
  \<^verbatim>\<open>project4/src/mr_tasks.cc\<close> (buffered emission of key/value pairs) and
  \<^verbatim>\<open>project4/src/mr_task_factory.cc\<close> (the registry of user tasks). Parameters: \<open>std::hash\<close> on
  strings, and which files can be opened for writing.
\<close>

section \<open>Files\<close>

record filesystem =
  contents :: "string \<Rightarrow> string option"
  writable :: "string \<Rightarrow> bool"

text \<open>Open for appending, write, close; a file that cannot be opened is left alone.\<close>

definition append_file :: "string \<Rightarrow> string \<Rightarrow> filesystem \<Rightarrow> filesystem" where
  "append_file f t fs =
     (if writable fs f
      then fs\<lparr>contents := (contents fs)(f \<mapsto> (case contents fs f of None \<Rightarrow> t | Some c \<Rightarrow> c @ t))\<rparr>
      else fs)"

abbreviation file_text :: "filesystem \<Rightarrow> string \<Rightarrow> string" where
  "file_text fs f \<equiv> (case contents fs f of None \<Rightarrow> [] | Some c \<Rightarrow> c)"

section \<open>The mapper's buffer\<close>

definition KeyValuePairDumpThreshold :: nat where
  "KeyValuePairDumpThreshold = 1000"

record BaseMapperInternal =
  num_partitions :: int
  intermediate_files :: "string list"
  key_value_pairs :: "(string \<times> string) list"

definition new_BaseMapperInternal :: BaseMapperInternal where
  "new_BaseMapperInternal = \<lparr>num_partitions = 0, intermediate_files = [], key_value_pairs = []\<rparr>"

text \<open>\<open>std::hash(k) % num_partitions\<close> in \<open>size_t\<close>: a negative divisor is a huge one.\<close>

definition partition_index :: "(string \<Rightarrow> u64) \<Rightarrow> int \<Rightarrow> string \<Rightarrow> int outcome" where
  "partition_index hash n k =
     (if (word_of_int n :: u64) = 0 then Inl DivisionByZero else Inr (uint (hash k mod word_of_int n)))"

definition pair_line :: "string \<times> string \<Rightarrow> string" where
  "pair_line kv = fst kv @ '', '' @ snd kv @ [newline]"

definition dump_pair :: "(string \<Rightarrow> u64) \<Rightarrow> BaseMapperInternal \<Rightarrow> string \<times> string \<Rightarrow> filesystem \<Rightarrow> filesystem outcome" where
  "dump_pair hash m kv fs =
     bnd (partition_index hash (num_partitions m) (fst kv)) (\<lambda>h.
     bnd (rd (intermediate_files m) h) (\<lambda>filename.
     Inr (append_file filename (pair_line kv) fs)))"

definition dump :: "(string \<Rightarrow> u64) \<Rightarrow> BaseMapperInternal \<times> filesystem \<Rightarrow> (BaseMapperInternal \<times> filesystem) outcome" where
  "dump hash = (\<lambda>(m, fs).
     bnd (foldm (dump_pair hash m) (key_value_pairs m) fs) (\<lambda>fs. Inr (m\<lparr>key_value_pairs := []\<rparr>, fs)))"

definition emit :: "(string \<Rightarrow> u64) \<Rightarrow> string \<times> string \<Rightarrow> BaseMapperInternal \<times> filesystem
    \<Rightarrow> (BaseMapperInternal \<times> filesystem) outcome" where
  "emit hash kv s =
     bnd (if KeyValuePairDumpThreshold \<le> length (key_value_pairs (fst s)) then dump hash s else Inr s)
       (\<lambda>(m, fs). Inr (m\<lparr>key_value_pairs := key_value_pairs m @ [kv]\<rparr>, fs))"

section \<open>The reducer's output\<close>

record BaseReducerInternal =
  filename :: string

definition reducer_emit :: "BaseReducerInternal \<Rightarrow> string \<times> string \<Rightarrow> filesystem \<Rightarrow> filesystem" where
  "reducer_emit r kv fs = append_file (filename r) (fst kv @ '' '' @ snd kv @ [newline]) fs"

section \<open>The registry of user tasks\<close>

text \<open>A generator stands for the \<open>std::function\<close> that makes a new mapper or reducer.\<close>

record ('m, 'r) TaskFactory =
  mappers :: "string \<Rightarrow> 'm option"
  reducers :: "string \<Rightarrow> 'r option"

definition new_TaskFactory :: "('m, 'r) TaskFactory" where
  "new_TaskFactory = \<lparr>mappers = Map.empty, reducers = Map.empty\<rparr>"

text \<open>\<open>insert\<close> of an \<open>unordered_map\<close> keeps an entry that is already there.\<close>

definition map_insert :: "string \<Rightarrow> 'v \<Rightarrow> (string \<Rightarrow> 'v option) \<Rightarrow> bool \<times> (string \<Rightarrow> 'v option)" where
  "map_insert k v m = (case m k of None \<Rightarrow> (True, m(k \<mapsto> v)) | Some _ \<Rightarrow> (False, m))"

definition register_tasks :: "string \<Rightarrow> 'm \<Rightarrow> 'r \<Rightarrow> ('m, 'r) TaskFactory \<Rightarrow> bool \<times> ('m, 'r) TaskFactory" where
  "register_tasks uid generate_mapper generate_reducer factory =
     (let (fresh, ms) = map_insert uid generate_mapper (mappers factory);
          factory = factory\<lparr>mappers := ms\<rparr>
      in if fresh
         then (let (fresh, rs) = map_insert uid generate_reducer (reducers factory)
               in (fresh, factory\<lparr>reducers := rs\<rparr>))
         else (False, factory))"

definition get_mapper :: "('m, 'r) TaskFactory \<Rightarrow> string \<Rightarrow> 'm option" where
  "get_mapper factory uid = mappers factory uid"

definition get_reducer :: "('m, 'r) TaskFactory \<Rightarrow> string \<Rightarrow> 'r option" where
  "get_reducer factory uid = reducers factory uid"

section \<open>Lemmas\<close>

lemma append_file_simps [simp]:
  "writable (append_file f t fs) = writable fs"
  "g \<noteq> f \<Longrightarrow> contents (append_file f t fs) g = contents fs g"
  "writable fs f \<Longrightarrow> contents (append_file f t fs) f = Some (file_text fs f @ t)"
  by (simp_all add: append_file_def split: option.split)

lemma foldm_dump_cong: "num_partitions m = num_partitions m' \<Longrightarrow> intermediate_files m = intermediate_files m'
    \<Longrightarrow> dump_pair hash m = dump_pair hash m'"
  by (intro ext) (simp add: dump_pair_def)

text \<open>Emission, then a final dump, writes what the buffer held followed by what was emitted.\<close>

lemma foldm_emit_dump:
  "bnd (foldm (emit hash) kvs (m, fs)) (dump hash) =
   bnd (foldm (dump_pair hash m) (key_value_pairs m @ kvs) fs) (\<lambda>fs. Inr (m\<lparr>key_value_pairs := []\<rparr>, fs))"
proof (induction kvs arbitrary: m fs)
  case Nil
  then show ?case by (simp add: dump_def)
next
  case (Cons kv kvs)
  show ?case
  proof (cases "KeyValuePairDumpThreshold \<le> length (key_value_pairs m)")
    case False
    have same: "dump_pair hash (m\<lparr>key_value_pairs := key_value_pairs m @ [kv]\<rparr>) = dump_pair hash m"
      by (rule foldm_dump_cong) simp_all
    show ?thesis using False by (simp add: emit_def [of hash kv "(m, fs)"] Cons.IH same)
  next
    case True
    have same: "dump_pair hash (m\<lparr>key_value_pairs := [kv]\<rparr>) = dump_pair hash m"
      by (rule foldm_dump_cong) simp_all
    show ?thesis using True by (simp add: emit_def [of hash kv "(m, fs)"] dump_def [of hash] bnd_assoc foldm_append Cons.IH [unfolded dump_def] same)
  qed
qed

lemma emit_buffer_bound:
  assumes "emit hash kv (m, fs) = Inr (m', fs')" and "length (key_value_pairs m) \<le> KeyValuePairDumpThreshold"
  shows "length (key_value_pairs m') \<le> KeyValuePairDumpThreshold"
  using assms by (auto simp: emit_def dump_def bnd_eq_Inr KeyValuePairDumpThreshold_def split: if_splits)

text \<open>Where the pairs go.\<close>

definition bucket :: "(string \<Rightarrow> u64) \<Rightarrow> int \<Rightarrow> string \<Rightarrow> nat" where
  "bucket hash n k = unat (hash k) mod nat n"

lemma partition_index_bucket:
  assumes "0 < n" and "in_int n"
  shows "partition_index hash n k = Inr (int (bucket hash n k))" and "bucket hash n k < nat n"
proof -
  have n: "0 < nat n" "nat n < 2 ^ 64" "unat (word_of_int n :: u64) = nat n"
    using assms by (simp_all add: in_int_def INT_MAX_def unsigned_of_int take_bit_int_eq_self nat_less_iff flip: nat_uint_eq)
  then have nz: "(word_of_int n :: u64) \<noteq> 0" by (metis less_numeral_extra(3) unat_0)
  have "uint (hash k mod word_of_int n) = int (unat (hash k mod word_of_int n))" by (rule uint_nat)
  also have "\<dots> = int (bucket hash n k)" by (simp only: unat_mod n(3) bucket_def)
  finally show "partition_index hash n k = Inr (int (bucket hash n k))" using nz by (simp only: partition_index_def) simp
  show "bucket hash n k < nat n" using n(1) by (simp add: bucket_def)
qed

text \<open>The mapper of a job with \<open>n\<close> partitions, each with a file of its own.\<close>

definition mapper_ready :: "BaseMapperInternal \<Rightarrow> filesystem \<Rightarrow> bool" where
  "mapper_ready m fs \<longleftrightarrow> 0 < num_partitions m \<and> in_int (num_partitions m) \<and>
     length (intermediate_files m) = nat (num_partitions m) \<and> distinct (intermediate_files m) \<and>
     (\<forall>f\<in>set (intermediate_files m). writable fs f)"

definition bucket_pairs :: "(string \<Rightarrow> u64) \<Rightarrow> int \<Rightarrow> nat \<Rightarrow> (string \<times> string) list \<Rightarrow> (string \<times> string) list" where
  "bucket_pairs hash n i kvs = filter (\<lambda>kv. bucket hash n (fst kv) = i) kvs"

lemma dump_pair_ready:
  assumes "mapper_ready m fs"
  shows "dump_pair hash m kv fs = Inr (append_file (intermediate_files m ! bucket hash (num_partitions m) (fst kv)) (pair_line kv) fs)"
  using assms by (simp add: dump_pair_def mapper_ready_def partition_index_bucket)

lemma foldm_dump_ready:
  assumes "mapper_ready m fs"
  shows "\<exists>fs'. foldm (dump_pair hash m) kvs fs = Inr fs' \<and> writable fs' = writable fs \<and>
    (\<forall>i<nat (num_partitions m). file_text fs' (intermediate_files m ! i) =
       file_text fs (intermediate_files m ! i) @ concat (map pair_line (bucket_pairs hash (num_partitions m) i kvs))) \<and>
    (\<forall>f. f \<notin> set (intermediate_files m) \<longrightarrow> contents fs' f = contents fs f)"
  using assms
proof (induction kvs arbitrary: fs)
  case Nil
  then show ?case by (simp add: bucket_pairs_def)
next
  case (Cons kv kvs)
  let ?b = "bucket hash (num_partitions m) (fst kv)"
  let ?fs = "append_file (intermediate_files m ! ?b) (pair_line kv) fs"
  have n: "0 < num_partitions m" "in_int (num_partitions m)" "length (intermediate_files m) = nat (num_partitions m)"
    "distinct (intermediate_files m)" "\<forall>f\<in>set (intermediate_files m). writable fs f"
    using Cons.prems by (simp_all add: mapper_ready_def)
  have b: "?b < nat (num_partitions m)" by (rule partition_index_bucket(2) [OF n(1,2)])
  have wb: "writable fs (intermediate_files m ! ?b)" "intermediate_files m ! ?b \<in> set (intermediate_files m)" using n(3,5) b by auto
  have "mapper_ready m ?fs" using Cons.prems by (simp add: mapper_ready_def)
  from Cons.IH [OF this] obtain fs' where fs': "foldm (dump_pair hash m) kvs ?fs = Inr fs'" "writable fs' = writable fs"
    "\<forall>i<nat (num_partitions m). file_text fs' (intermediate_files m ! i) =
       file_text ?fs (intermediate_files m ! i) @ concat (map pair_line (bucket_pairs hash (num_partitions m) i kvs))"
    "\<forall>f. f \<notin> set (intermediate_files m) \<longrightarrow> contents fs' f = contents ?fs f" by auto
  have "file_text ?fs (intermediate_files m ! i) @ concat (map pair_line (bucket_pairs hash (num_partitions m) i kvs)) =
      file_text fs (intermediate_files m ! i) @ concat (map pair_line (bucket_pairs hash (num_partitions m) i (kv # kvs)))"
    if i: "i < nat (num_partitions m)" for i
  proof (cases "i = ?b")
    case True
    then show ?thesis using wb(1) by (simp add: bucket_pairs_def)
  next
    case False
    then have "intermediate_files m ! i \<noteq> intermediate_files m ! ?b" using n(3,4) b i by (simp add: nth_eq_iff_index_eq)
    then show ?thesis using False by (simp add: bucket_pairs_def)
  qed
  moreover have "contents ?fs f = contents fs f" if "f \<notin> set (intermediate_files m)" for f
    using that wb(2) by (intro append_file_simps(2)) metis
  ultimately show ?case using fs' dump_pair_ready [OF Cons.prems, of hash kv] by (intro exI [of _ fs']) simp
qed

section \<open>Properties\<close>

text \<open>
  C36: Buffering is invisible: emitting pairs in the buffered way and dumping the rest at the end
  has the outcome, fault or files, of writing every pair at once, in order.
\<close>

theorem mapper_buffer_transparent:
  "bnd (foldm (emit hash) kvs (m, fs)) (dump hash) =
   bnd (foldm (dump_pair hash m) (key_value_pairs m @ kvs) fs) (\<lambda>fs. Inr (m\<lparr>key_value_pairs := []\<rparr>, fs))"
  by (rule foldm_emit_dump)

text \<open>
  The buffer of a mapper never holds more than \<open>KeyValuePairDumpThreshold\<close> pairs.
\<close>

theorem mapper_buffer_bounded:
  assumes "foldm (emit hash) kvs (m, fs) = Inr (m', fs')" and "length (key_value_pairs m) \<le> KeyValuePairDumpThreshold"
  shows "length (key_value_pairs m') \<le> KeyValuePairDumpThreshold"
  using foldm_invariant [OF assms(1), of "\<lambda>s. length (key_value_pairs (fst s)) \<le> KeyValuePairDumpThreshold"] assms(2)
    emit_buffer_bound by fastforce

definition demo_mapper :: BaseMapperInternal where
  "demo_mapper = \<lparr>num_partitions = 2, intermediate_files = [''intermediate/0_50051.txt'', ''intermediate/1_50051.txt''],
     key_value_pairs = []\<rparr>"

definition demo_disk :: filesystem where
  "demo_disk = \<lparr>contents = Map.empty, writable = (\<lambda>_. True)\<rparr>"

theorem mapper_buffer_bounded_witness:
  "length (key_value_pairs (demo_mapper\<lparr>key_value_pairs := [(''be'', ''1'')]\<rparr>)) \<le> KeyValuePairDumpThreshold"
  using mapper_buffer_bounded [of "\<lambda>_. 0" "[(''be'', ''1'')]" demo_mapper demo_disk "demo_mapper\<lparr>key_value_pairs := [(''be'', ''1'')]\<rparr>" demo_disk]
  by (simp add: demo_mapper_def emit_def KeyValuePairDumpThreshold_def)

text \<open>
  As long as tasks are only added with \<open>register_tasks\<close>, the registry has a mapper for exactly
  the users for which it has a reducer; a registration succeeds exactly for a new user, is then found,
  and leaves the tasks of everybody else, and those of a user registered before, as they were.
\<close>

theorem register_tasks_correct:
  assumes "dom (mappers factory) = dom (reducers factory)" and "register_tasks uid gm gr factory = (ok, factory')"
  shows "dom (mappers factory') = dom (reducers factory') \<and> ok = (get_mapper factory uid = None) \<and>
    get_mapper factory' u = (if ok \<and> u = uid then Some gm else get_mapper factory u) \<and>
    get_reducer factory' u = (if ok \<and> u = uid then Some gr else get_reducer factory u)"
proof (cases "mappers factory uid")
  case None
  then have "reducers factory uid = None" using assms(1) by (metis domIff)
  with None have "ok" and "factory' = factory\<lparr>mappers := (mappers factory)(uid \<mapsto> gm), reducers := (reducers factory)(uid \<mapsto> gr)\<rparr>"
    using assms(2) by (simp_all add: register_tasks_def map_insert_def)
  then show ?thesis using assms(1) None by (simp add: get_mapper_def get_reducer_def)
next
  case (Some g)
  then show ?thesis using assms by (simp add: register_tasks_def map_insert_def get_mapper_def get_reducer_def)
qed

theorem register_tasks_correct_witness:
  "get_reducer (snd (register_tasks ''cs6210'' (1::nat) (2::nat) new_TaskFactory)) ''cs6210'' = Some 2"
  using register_tasks_correct [of new_TaskFactory "''cs6210''" "1::nat" "2::nat" True
    "snd (register_tasks ''cs6210'' (1::nat) (2::nat) new_TaskFactory)" "''cs6210''"]
  by (simp add: new_TaskFactory_def register_tasks_def map_insert_def)

end
