(* ===== verification/WorkerRequest.thy ===== *)
theory WorkerRequest
  imports MrTasks "HOL-Library.Char_ord" "HOL-Library.List_Lexorder"
begin

text \<open>
  The work of a MapReduce worker: \<open>handle_map_job\<close> and \<open>handle_reduce_job\<close> of
  \<^verbatim>\<open>project4/src/worker_request.cc\<close>, on the messages of \<^verbatim>\<open>masterworker.proto\<close>. The user's functions
  are parameters: \<open>map\<close> gives the pairs it emits for a line, \<open>reduce\<close> those it emits for a key and its
  values, or a fault.
\<close>

section \<open>Messages and user functions\<close>

record ShardPartition =
  sp_filename :: string
  sp_start :: int
  sp_end :: int

record MapQuery =
  mq_user_id :: string
  mq_n_partitions :: int
  mq_partitions :: "ShardPartition list"

record ReduceQuery =
  rq_user_id :: string
  rq_files :: "string list"
  rq_partition_id :: int
  rq_output_dir :: string

type_synonym user_map = "string \<Rightarrow> (string \<times> string) list"
type_synonym user_reduce = "string \<Rightarrow> string list \<Rightarrow> (string \<times> string) list outcome"
type_synonym factory = "(user_map, user_reduce) TaskFactory"

section \<open>Map jobs\<close>

definition intermediate_name :: "string \<Rightarrow> int \<Rightarrow> string" where
  "intermediate_name port i = ''intermediate/'' @ to_string i @ ''_'' @ port @ ''.txt''"

text \<open>The port of a worker, which is part of the names of its intermediate files; \<^verbatim>\<open>worker.cc\<close> computes it once.\<close>

definition port_num :: "string \<Rightarrow> string outcome" where
  "port_num ip_addr_port = substr ip_addr_port (find_first (CHR '':'') ip_addr_port + 1) npos"

text \<open>Conversion of a 64-bit value to \<open>int\<close>.\<close>

definition to_int32 :: "int \<Rightarrow> int" where
  "to_int32 x = (x + 2147483648) mod 4294967296 - 2147483648"

text \<open>
  The buffer has \<open>end - start\<close> bytes, all NUL at first; \<open>read\<close> stores what the file has from
  \<open>start\<close> on, nothing when the stream has failed.
\<close>

definition read_partition :: "(string \<Rightarrow> string option) \<Rightarrow> ShardPartition \<Rightarrow> string outcome" where
  "read_partition fs p =
     (let partition_size = to_int32 (sp_end p - sp_start p);
          avail = (case fs (sp_filename p) of
                     None \<Rightarrow> []
                   | Some c \<Rightarrow> if sp_start p < 0 then [] else take (nat partition_size) (drop (nat (sp_start p)) c))
      in if partition_size < 0 then Inl LengthError
         else Inr (avail @ replicate (nat partition_size - length avail) NUL))"

definition map_line :: "(string \<Rightarrow> u64) \<Rightarrow> user_map \<Rightarrow> string \<Rightarrow> BaseMapperInternal \<times> filesystem
    \<Rightarrow> (BaseMapperInternal \<times> filesystem) outcome" where
  "map_line hash mapper line = foldm (emit hash) (mapper line)"

definition map_partition :: "(string \<Rightarrow> u64) \<Rightarrow> user_map \<Rightarrow> ShardPartition \<Rightarrow> BaseMapperInternal \<times> filesystem
    \<Rightarrow> (BaseMapperInternal \<times> filesystem) outcome" where
  "map_partition hash mapper p s =
     bnd (read_partition (contents (snd s)) p) (\<lambda>buffer. foldm (map_line hash mapper) (getlines newline buffer) s)"

definition handle_map_job :: "(string \<Rightarrow> u64) \<Rightarrow> factory \<Rightarrow> string \<Rightarrow> MapQuery \<Rightarrow> filesystem
    \<Rightarrow> (string list \<times> filesystem) outcome" where
  "handle_map_job hash factory port request fs =
     (case get_mapper factory (mq_user_id request) of
        None \<Rightarrow> Inl BadPointer
      | Some mapper \<Rightarrow>
          let names = map (intermediate_name port) [0..mq_n_partitions request - 1];
              base_mapper = new_BaseMapperInternal\<lparr>num_partitions := mq_n_partitions request, intermediate_files := names\<rparr>
          in bnd (foldm (map_partition hash mapper) (mq_partitions request) (base_mapper, fs)) (\<lambda>s.
             bnd (dump hash s) (\<lambda>(base_mapper, fs). Inr (names, fs))))"

section \<open>Reduce jobs\<close>

text \<open>A line \<open>key, value\<close> of an intermediate file.\<close>

definition parse_pair :: "string \<Rightarrow> (string \<times> string) outcome" where
  "parse_pair line =
     (let pos = find_first (CHR '','') line
      in bnd (substr line 0 pos) (\<lambda>key. bnd (substr line (pos + 2) npos) (\<lambda>value. Inr (key, value))))"

text \<open>\<open>word2values\<close>, a \<open>std::map\<close> from keys to vectors: its entries in increasing order.\<close>

fun push_value :: "string \<Rightarrow> string \<Rightarrow> (string \<times> string list) list \<Rightarrow> (string \<times> string list) list" where
  "push_value key value [] = [(key, [value])]"
| "push_value key value ((k, vs) # w) =
     (if key < k then (key, [value]) # (k, vs) # w
      else if key = k then (k, vs @ [value]) # w
      else (k, vs) # push_value key value w)"

definition read_pair :: "string \<Rightarrow> (string \<times> string list) list \<Rightarrow> (string \<times> string list) list outcome" where
  "read_pair line w = bnd (parse_pair line) (\<lambda>(key, value). Inr (push_value key value w))"

text \<open>A file that cannot be opened is skipped.\<close>

definition read_pairs :: "(string \<Rightarrow> string option) \<Rightarrow> string \<Rightarrow> (string \<times> string list) list
    \<Rightarrow> (string \<times> string list) list outcome" where
  "read_pairs fs f w = (case fs f of None \<Rightarrow> Inr w | Some c \<Rightarrow> foldm read_pair (getlines newline c) w)"

definition output_name :: "string \<Rightarrow> int \<Rightarrow> string" where
  "output_name dir i = dir @ ''/'' @ to_string i"

definition reduce_key :: "user_reduce \<Rightarrow> BaseReducerInternal \<Rightarrow> string \<times> string list \<Rightarrow> filesystem \<Rightarrow> filesystem outcome" where
  "reduce_key reducer base_reducer kvs fs =
     bnd (reducer (fst kvs) (snd kvs)) (\<lambda>out. Inr (fold (reducer_emit base_reducer) out fs))"

definition handle_reduce_job :: "factory \<Rightarrow> ReduceQuery \<Rightarrow> filesystem \<Rightarrow> (string \<times> filesystem) outcome" where
  "handle_reduce_job factory query fs =
     (case get_reducer factory (rq_user_id query) of
        None \<Rightarrow> Inl BadPointer
      | Some reducer \<Rightarrow>
          let output_file = output_name (rq_output_dir query) (rq_partition_id query)
          in bnd (foldm (read_pairs (contents fs)) (rq_files query) []) (\<lambda>word2values.
             bnd (foldm (reduce_key reducer \<lparr>filename = output_file\<rparr>) word2values fs) (\<lambda>fs.
             Inr (output_file, fs))))"

section \<open>Lines and pairs\<close>

text \<open>A pair that survives the intermediate file: no comma or newline in the key, no newline in the value.\<close>

definition clean_pair :: "string \<times> string \<Rightarrow> bool" where
  "clean_pair kv \<longleftrightarrow> CHR '','' \<notin> set (fst kv) \<and> newline \<notin> set (fst kv) \<and> newline \<notin> set (snd kv)"

lemma parse_pair_line:
  assumes "CHR '','' \<notin> set k"
  shows "parse_pair (k @ '', '' @ v) = Inr (k, v)"
  using assms substr_suffix [of "int (length k) + 2" "k @ '', ''" v] by (simp add: parse_pair_def)

lemma getlines_pairs:
  assumes "\<forall>kv\<in>set kvs. clean_pair kv"
  shows "getlines newline (concat (map pair_line kvs)) = map (\<lambda>kv. fst kv @ '', '' @ snd kv) kvs"
proof -
  let ?l = "\<lambda>kv. fst kv @ '', '' @ snd kv"
  have nl: "newline \<notin> set l" if "l \<in> set (map ?l kvs)" for l
    using that assms by (auto simp: clean_pair_def newline_def)
  have "concat (map pair_line kvs) = concat (map (\<lambda>l. l @ [newline]) (map ?l kvs))"
    by (induction kvs) (simp_all add: pair_line_def)
  then show ?thesis using getlines_concat [of "map ?l kvs" newline "[]", OF nl] by simp
qed

text \<open>\<open>group_pairs\<close>: every key once, in increasing order, with its values in order.\<close>

definition values_of :: "string \<Rightarrow> (string \<times> string) list \<Rightarrow> string list" where
  "values_of k kvs = map snd (filter (\<lambda>kv. fst kv = k) kvs)"

definition group_pairs :: "(string \<times> string) list \<Rightarrow> (string \<times> string list) list" where
  "group_pairs kvs = map (\<lambda>k. (k, values_of k kvs)) (sorted_list_of_set (fst ` set kvs))"

lemma push_value_keys: "fst ` set (push_value k v w) = insert k (fst ` set w)"
  by (induction k v w rule: push_value.induct) auto

lemma push_value_sorted: "sorted_wrt (<) (map fst w) \<Longrightarrow> sorted_wrt (<) (map fst (push_value k v w))"
proof (induction k v w rule: push_value.induct)
  case (2 key val k vs w)
  have "\<forall>k'\<in>fst ` set (push_value key val w). k < k'" if "\<not> key < k" "key \<noteq> k"
    using that 2(2) by (subst push_value_keys) auto
  then show ?case using 2 by auto
qed simp

lemma push_value_map_of:
  "sorted_wrt (<) (map fst w) \<Longrightarrow>
   map_of (push_value k v w) = (map_of w)(k \<mapsto> (case map_of w k of None \<Rightarrow> [] | Some vs \<Rightarrow> vs) @ [v])"
proof (induction k v w rule: push_value.induct)
  case (2 key val k vs w)
  have "map_of w key = None" if "key < k" using that 2(2) by (auto simp: map_of_eq_None_iff)
  then show ?case using 2 by (auto simp: fun_upd_twist)
qed simp

lemma sorted_assoc_unique:
  assumes "sorted_wrt (<) (map fst xs)" and "sorted_wrt (<) (map fst ys)" and "map_of xs = map_of ys"
  shows "xs = (ys :: ('k::linorder \<times> 'v) list)"
proof -
  have d: "distinct (map fst xs)" "distinct (map fst ys)" "sorted (map fst xs)" "sorted (map fst ys)"
    using assms(1,2) by (simp_all add: strict_sorted_iff)
  then have "set xs = set ys" using assms(3) map_of_inject_set by metis
  then show ?thesis
    using d by (intro map_sorted_distinct_set_unique [of fst]) (auto simp: distinct_map inj_on_def dest: map_of_eq_Some_iff [THEN iffD2])
qed

lemma group_pairs_keys [simp]: "map fst (group_pairs kvs) = sorted_list_of_set (fst ` set kvs)"
  by (simp add: group_pairs_def comp_def)

lemma group_pairs_map_of: "map_of (group_pairs kvs) k = (if k \<in> fst ` set kvs then Some (values_of k kvs) else None)"
  by (auto simp: group_pairs_def map_of_map_restrict restrict_map_def)

lemma values_of_append [simp]: "values_of k (xs @ ys) = values_of k xs @ values_of k ys"
  by (simp add: values_of_def)

lemma push_value_group: "push_value (fst kv) (snd kv) (group_pairs kvs) = group_pairs (kvs @ [kv])"
proof (rule sorted_assoc_unique)
  let ?g = "group_pairs kvs"
  have s: "sorted_wrt (<) (map fst ?g)" by (simp only: group_pairs_keys strict_sorted_list_of_set)
  then show "sorted_wrt (<) (map fst (push_value (fst kv) (snd kv) ?g))" by (rule push_value_sorted)
  show "sorted_wrt (<) (map fst (group_pairs (kvs @ [kv])))" by (simp only: group_pairs_keys strict_sorted_list_of_set)
  have none: "values_of k kvs = []" if "k \<notin> fst ` set kvs" for k
    using that by (auto simp: values_of_def filter_empty_conv)
  show "map_of (push_value (fst kv) (snd kv) ?g) = map_of (group_pairs (kvs @ [kv]))"
    by (rule ext) (simp add: push_value_map_of [OF s] group_pairs_map_of none, simp add: values_of_def)
qed

lemma foldm_read_pair:
  assumes "\<forall>kv\<in>set kvs. clean_pair kv"
  shows "foldm read_pair (map (\<lambda>kv. fst kv @ '', '' @ snd kv) kvs) (group_pairs acc) = Inr (group_pairs (acc @ kvs))"
  using assms
proof (induction kvs arbitrary: acc)
  case (Cons kv kvs)
  have "read_pair (fst kv @ '', '' @ snd kv) (group_pairs acc) = Inr (group_pairs (acc @ [kv]))"
    using Cons.prems push_value_group [of kv acc]
    by (cases kv) (simp add: read_pair_def clean_pair_def parse_pair_line [simplified])
  then show ?case using Cons by simp
qed simp

text \<open>Reading a sequence of intermediate files, absent ones included.\<close>

lemma foldm_read_pairs:
  assumes "\<forall>f\<in>set fl. (case fs f of None \<Rightarrow> ps f = [] | Some c \<Rightarrow> c = concat (map pair_line (ps f))) \<and> (\<forall>kv\<in>set (ps f). clean_pair kv)"
  shows "foldm (read_pairs fs) fl (group_pairs acc) = Inr (group_pairs (acc @ concat (map ps fl)))"
  using assms
proof (induction fl arbitrary: acc)
  case (Cons f fl)
  have "read_pairs fs f (group_pairs acc) = Inr (group_pairs (acc @ ps f))"
    using Cons.prems by (cases "fs f") (simp_all add: read_pairs_def getlines_pairs foldm_read_pair [simplified])
  then show ?case using Cons by simp
qed simp

section \<open>Map jobs write their pairs\<close>

text \<open>What emission keeps: the settings of the mapper, and every file that is not one of its own.\<close>

definition keeps :: "BaseMapperInternal \<times> filesystem \<Rightarrow> BaseMapperInternal \<times> filesystem \<Rightarrow> bool" where
  "keeps s t \<longleftrightarrow> num_partitions (fst t) = num_partitions (fst s) \<and> intermediate_files (fst t) = intermediate_files (fst s) \<and>
     (\<forall>f. f \<notin> set (intermediate_files (fst s)) \<longrightarrow> contents (snd t) f = contents (snd s) f)"

lemma keeps_refl: "keeps s s"
  by (simp add: keeps_def)

lemma keeps_trans: "keeps s t \<Longrightarrow> keeps t u \<Longrightarrow> keeps s u"
  by (simp add: keeps_def)

lemma dump_keeps:
  assumes "dump hash (m, fs) = Inr t"
  shows "keeps (m, fs) t"
proof -
  from assms obtain fs' where run: "foldm (dump_pair hash m) (key_value_pairs m) fs = Inr fs'"
    and t: "t = (m\<lparr>key_value_pairs := []\<rparr>, fs')" by (auto simp: dump_def bnd_eq_Inr)
  have "\<forall>f. f \<notin> set (intermediate_files m) \<longrightarrow> contents fs' f = contents fs f"
  proof (rule foldm_invariant [OF run])
    fix kv fs1 fs2
    assume 1: "\<forall>f. f \<notin> set (intermediate_files m) \<longrightarrow> contents fs1 f = contents fs f" and "dump_pair hash m kv fs1 = Inr fs2"
    then obtain g where "fs2 = append_file g (pair_line kv) fs1" "g \<in> set (intermediate_files m)"
      by (auto simp: dump_pair_def bnd_eq_Inr rd_eq_Inr)
    moreover have "contents (append_file g (pair_line kv) fs1) f = contents fs1 f"
      if "f \<notin> set (intermediate_files m)" "g \<in> set (intermediate_files m)" for f
      using that by (intro append_file_simps(2)) metis
    ultimately show "\<forall>f. f \<notin> set (intermediate_files m) \<longrightarrow> contents fs2 f = contents fs f" using 1 by simp
  qed simp
  then show ?thesis by (simp add: t keeps_def)
qed

lemma emit_keeps: "emit hash kv s = Inr t \<Longrightarrow> keeps s t"
  using dump_keeps [of hash "fst s" "snd s"]
  by (cases s) (auto simp: emit_def bnd_eq_Inr keeps_def split: if_splits)

lemma foldm_emit_keeps: "foldm (emit hash) kvs s = Inr t \<Longrightarrow> keeps s t"
  by (erule foldm_invariant [where P = "keeps s"]) (auto intro: keeps_refl keeps_trans emit_keeps)

lemma foldm_map_line: "foldm (map_line hash mapper) lines = foldm (emit hash) (concat (map mapper lines))"
  by (induction lines) (auto simp: map_line_def foldm_append)

definition partition_pairs :: "user_map \<Rightarrow> string \<Rightarrow> (string \<times> string) list" where
  "partition_pairs mapper buffer = concat (map mapper (getlines newline buffer))"

lemma read_partition_cong: "fs (sp_filename p) = fs' (sp_filename p) \<Longrightarrow> read_partition fs p = read_partition fs' p"
  by (simp add: read_partition_def)

lemma foldm_map_partition:
  assumes "\<forall>p\<in>set ps. read_partition (contents fs) p = Inr (buf p) \<and> sp_filename p \<notin> set (intermediate_files m)"
    and "keeps (m, fs) s"
  shows "foldm (map_partition hash mapper) ps s = foldm (emit hash) (concat (map (\<lambda>p. partition_pairs mapper (buf p)) ps)) s"
  using assms
proof (induction ps arbitrary: s)
  case (Cons p ps)
  have "read_partition (contents (snd s)) p = Inr (buf p)"
    using Cons.prems read_partition_cong [of "contents (snd s)" p "contents fs"] by (simp add: keeps_def)
  then have "map_partition hash mapper p s = foldm (emit hash) (partition_pairs mapper (buf p)) s"
    by (simp add: map_partition_def foldm_map_line partition_pairs_def)
  moreover have "foldm (map_partition hash mapper) ps t = foldm (emit hash) (concat (map (\<lambda>p. partition_pairs mapper (buf p)) ps)) t"
    if "foldm (emit hash) (partition_pairs mapper (buf p)) s = Inr t" for t
    using that Cons.prems keeps_trans [OF Cons.prems(2) foldm_emit_keeps [OF that]] by (intro Cons.IH) simp_all
  ultimately show ?case
    by (cases "foldm (emit hash) (partition_pairs mapper (buf p)) s") (simp_all add: foldm_append)
qed simp

lemma intermediate_name_inj:
  assumes "intermediate_name port i = intermediate_name port j" and "in_int i" and "in_int j"
  shows "i = j"
proof -
  have "to_string i @ ''_'' @ port @ ''.txt'' = to_string j @ ''_'' @ port @ ''.txt''"
    using assms(1) by (simp add: intermediate_name_def)
  moreover have "stoi (to_string k @ ''_'' @ port @ ''.txt'') = Inr k" if "in_int k" for k
    using that by (intro stoi_to_string) (simp_all add: is_digit_def)
  ultimately show ?thesis using assms(2,3) by (metis Inr_inject)
qed

definition job_names :: "string \<Rightarrow> int \<Rightarrow> string list" where
  "job_names port n = map (intermediate_name port) [0..n - 1]"

lemma job_names_simps:
  assumes "0 < n" and "in_int n"
  shows "length (job_names port n) = nat n" and "distinct (job_names port n)"
    and "i < nat n \<Longrightarrow> job_names port n ! i = intermediate_name port (int i)"
proof -
  show len: "length (job_names port n) = nat n" by (simp add: job_names_def)
  have "inj_on (intermediate_name port) (set [0..n - 1])"
    using assms by (intro inj_onI) (auto elim!: intermediate_name_inj simp: in_int_def INT_MIN_def INT_MAX_def)
  then show "distinct (job_names port n)" by (simp add: job_names_def distinct_map)
  show "i < nat n \<Longrightarrow> job_names port n ! i = intermediate_name port (int i)" by (simp add: job_names_def nth_upto)
qed

lemma map_job_run:
  assumes "get_mapper factory (mq_user_id q) = Some mapper" and "0 < mq_n_partitions q" and "in_int (mq_n_partitions q)"
    and "\<forall>f\<in>set (job_names port (mq_n_partitions q)). writable fs f"
    and "\<forall>p\<in>set (mq_partitions q). read_partition (contents fs) p = Inr (buf p) \<and> sp_filename p \<notin> set (job_names port (mq_n_partitions q))"
  shows "\<exists>fs'. handle_map_job hash factory port q fs = Inr (job_names port (mq_n_partitions q), fs') \<and> writable fs' = writable fs \<and>
    (\<forall>i<nat (mq_n_partitions q). file_text fs' (intermediate_name port (int i)) = file_text fs (intermediate_name port (int i)) @
       concat (map pair_line (bucket_pairs hash (mq_n_partitions q) i (concat (map (\<lambda>p. partition_pairs mapper (buf p)) (mq_partitions q)))))) \<and>
    (\<forall>f. f \<notin> set (job_names port (mq_n_partitions q)) \<longrightarrow> contents fs' f = contents fs f)"
proof -
  let ?n = "mq_n_partitions q"
  let ?kvs = "concat (map (\<lambda>p. partition_pairs mapper (buf p)) (mq_partitions q))"
  let ?m = "new_BaseMapperInternal\<lparr>num_partitions := ?n, intermediate_files := job_names port ?n\<rparr>"
  note names = job_names_simps [where port = port, OF assms(2,3)]
  have "mapper_ready ?m fs" using assms(2-4) names(1,2) by (simp add: mapper_ready_def)
  from foldm_dump_ready [OF this, of hash ?kvs] obtain fs' where fs': "foldm (dump_pair hash ?m) ?kvs fs = Inr fs'"
    "writable fs' = writable fs"
    "\<forall>i<nat ?n. file_text fs' (job_names port ?n ! i) = file_text fs (job_names port ?n ! i) @ concat (map pair_line (bucket_pairs hash ?n i ?kvs))"
    "\<forall>f. f \<notin> set (job_names port ?n) \<longrightarrow> contents fs' f = contents fs f" by auto
  have "foldm (map_partition hash mapper) (mq_partitions q) (?m, fs) = foldm (emit hash) ?kvs (?m, fs)"
    using assms(5) by (intro foldm_map_partition [where m = ?m and fs = fs]) (simp_all add: keeps_refl)
  then have "bnd (foldm (map_partition hash mapper) (mq_partitions q) (?m, fs)) (dump hash) = Inr (?m\<lparr>key_value_pairs := []\<rparr>, fs')"
    using foldm_emit_dump [of hash ?kvs ?m fs] fs'(1) by (simp add: new_BaseMapperInternal_def)
  then have "handle_map_job hash factory port q fs = Inr (job_names port ?n, fs')"
    using assms(1) by (auto simp: handle_map_job_def job_names_def Let_def bnd_eq_Inr)
  then show ?thesis using fs'(2-4) names(3) by simp
qed

section \<open>Reduce jobs write their results\<close>

definition result_line :: "string \<times> string \<Rightarrow> string" where
  "result_line kv = fst kv @ '' '' @ snd kv @ [newline]"

definition group_text :: "(string \<Rightarrow> string list \<Rightarrow> (string \<times> string) list) \<Rightarrow> (string \<times> string list) list \<Rightarrow> string" where
  "group_text out w = concat (map (\<lambda>kvs. concat (map result_line (out (fst kvs) (snd kvs)))) w)"

lemma fold_reducer_emit:
  assumes "writable fs (filename r)"
  shows "writable (fold (reducer_emit r) out fs) = writable fs"
    and "f \<noteq> filename r \<Longrightarrow> contents (fold (reducer_emit r) out fs) f = contents fs f"
    and "file_text (fold (reducer_emit r) out fs) (filename r) = file_text fs (filename r) @ concat (map result_line out)"
  using assms by (induction out arbitrary: fs) (simp_all add: reducer_emit_def result_line_def)

lemma foldm_reduce_key:
  assumes "writable fs (filename r)" and "\<forall>kvs\<in>set w. reducer (fst kvs) (snd kvs) = Inr (out (fst kvs) (snd kvs))"
  shows "\<exists>fs'. foldm (reduce_key reducer r) w fs = Inr fs' \<and> writable fs' = writable fs \<and>
    file_text fs' (filename r) = file_text fs (filename r) @ group_text out w \<and>
    (\<forall>f. f \<noteq> filename r \<longrightarrow> contents fs' f = contents fs f)"
  using assms
proof (induction w arbitrary: fs)
  case (Cons kvs w)
  let ?fs = "fold (reducer_emit r) (out (fst kvs) (snd kvs)) fs"
  note e = fold_reducer_emit [OF Cons.prems(1)]
  have "writable ?fs (filename r)" using Cons.prems(1) by (simp add: e(1))
  from Cons.IH [OF this] obtain fs' where fs': "foldm (reduce_key reducer r) w ?fs = Inr fs'" "writable fs' = writable ?fs"
    "file_text fs' (filename r) = file_text ?fs (filename r) @ group_text out w"
    "\<forall>f. f \<noteq> filename r \<longrightarrow> contents fs' f = contents ?fs f" using Cons.prems(2) by auto
  have "reduce_key reducer r kvs fs = Inr ?fs" using Cons.prems(2) by (simp add: reduce_key_def)
  moreover have "file_text fs' (filename r) = file_text fs (filename r) @ group_text out (kvs # w)"
    using fs'(3) by (simp only: e(3)) (simp add: group_text_def)
  ultimately show ?case using fs'(1,2,4) e(1,2) by (intro exI [of _ fs']) simp
qed (simp add: group_text_def)

lemma reduce_job_run:
  assumes "get_reducer factory (rq_user_id q) = Some reducer" and "writable fs (output_name (rq_output_dir q) (rq_partition_id q))"
    and "\<forall>f\<in>set (rq_files q). (case contents fs f of None \<Rightarrow> ps f = [] | Some c \<Rightarrow> c = concat (map pair_line (ps f)))
      \<and> (\<forall>kv\<in>set (ps f). clean_pair kv)"
    and "\<forall>kvs\<in>set (group_pairs (concat (map ps (rq_files q)))). reducer (fst kvs) (snd kvs) = Inr (out (fst kvs) (snd kvs))"
  shows "\<exists>fs'. handle_reduce_job factory q fs = Inr (output_name (rq_output_dir q) (rq_partition_id q), fs') \<and> writable fs' = writable fs \<and>
    file_text fs' (output_name (rq_output_dir q) (rq_partition_id q)) =
      file_text fs (output_name (rq_output_dir q) (rq_partition_id q)) @ group_text out (group_pairs (concat (map ps (rq_files q)))) \<and>
    (\<forall>f. f \<noteq> output_name (rq_output_dir q) (rq_partition_id q) \<longrightarrow> contents fs' f = contents fs f)"
proof -
  let ?r = "\<lparr>filename = output_name (rq_output_dir q) (rq_partition_id q)\<rparr>"
  have "group_pairs [] = []" by (simp add: group_pairs_def)
  then have "foldm (read_pairs (contents fs)) (rq_files q) [] = Inr (group_pairs (concat (map ps (rq_files q))))"
    using foldm_read_pairs [OF assms(3), of "[]"] by simp
  moreover have "writable fs (filename ?r)" using assms(2) by simp
  from foldm_reduce_key [OF this assms(4)] obtain fs' where
    "foldm (reduce_key reducer ?r) (group_pairs (concat (map ps (rq_files q)))) fs = Inr fs'" "writable fs' = writable fs"
    "file_text fs' (filename ?r) = file_text fs (filename ?r) @ group_text out (group_pairs (concat (map ps (rq_files q))))"
    "\<forall>f. f \<noteq> filename ?r \<longrightarrow> contents fs' f = contents fs f" by auto
  ultimately show ?thesis using assms(1) by (intro exI [of _ fs']) (simp add: handle_reduce_job_def)
qed

end
