(* ===== verification/UserTasks.thy ===== *)
theory UserTasks
  imports WorkerRequest
begin

text \<open>
  The word count that the repository runs on the framework: \<^verbatim>\<open>project4/test/user_tasks.cc\<close>. The mapper
  cuts a line with \<open>strtok_r\<close> and emits every token with the value 1; the reducer adds the values up.
\<close>

section \<open>The mapper\<close>

definition delims :: string where
  "delims = '' ,.'' @ [CHR 0x22, CHR 0x27]"

text \<open>One call of \<open>strtok_r\<close>: the token and what the next call starts from.\<close>

definition strtok_r :: "string \<Rightarrow> string \<Rightarrow> (string \<times> string) option" where
  "strtok_r ds s =
     (let t = dropWhile (\<lambda>c. c \<in> set ds) s
      in if t = [] then None
         else Some (takeWhile (\<lambda>c. c \<notin> set ds) t, drop 1 (dropWhile (\<lambda>c. c \<notin> set ds) t)))"

lemma strtok_r_shorter: "strtok_r ds s = Some (tok, rest) \<Longrightarrow> length rest < length s"
proof -
  assume r: "strtok_r ds s = Some (tok, rest)"
  let ?t = "dropWhile (\<lambda>c. c \<in> set ds) s"
  have t: "?t \<noteq> []" "rest = drop 1 (dropWhile (\<lambda>c. c \<notin> set ds) ?t)"
    using r by (auto simp: strtok_r_def Let_def split: if_splits)
  have "length (dropWhile (\<lambda>c. c \<notin> set ds) ?t) \<le> length ?t" "length ?t \<le> length s" by (rule length_dropWhile_le)+
  moreover have "0 < length ?t" using t(1) by blast
  ultimately show ?thesis using t(2) by (simp only: length_drop)
qed

function tokens :: "string \<Rightarrow> string \<Rightarrow> string list" where
  "tokens ds s = (case strtok_r ds s of None \<Rightarrow> [] | Some (tok, rest) \<Rightarrow> tok # tokens ds rest)"
  by pat_completeness auto
termination
  by (relation "measure (\<lambda>(ds, s). length s)") (auto dest: strtok_r_shorter)

declare tokens.simps [simp del]

definition UserMapper_map :: user_map where
  "UserMapper_map input_line = map (\<lambda>start. (start, ''1'')) (tokens delims (c_string input_line))"

section \<open>The reducer\<close>

definition UserReducer_reduce :: user_reduce where
  "UserReducer_reduce key values =
     bnd (foldm (\<lambda>numstr counts. bnd (atoi numstr) (\<lambda>c. Inr (counts @ [c]))) values []) (\<lambda>counts.
     bnd (foldm (\<lambda>c acc. int_op (acc + c)) counts 0) (\<lambda>s. Inr [(key, to_string s)]))"

section \<open>Tokens\<close>

text \<open>Reference: split at every delimiter and leave out what is empty.\<close>

fun split_at :: "(char \<Rightarrow> bool) \<Rightarrow> string \<Rightarrow> string list" where
  "split_at d [] = [[]]"
| "split_at d (c # s) = (if d c then [] # split_at d s else (c # hd (split_at d s)) # tl (split_at d s))"

definition words :: "string \<Rightarrow> string list" where
  "words s = filter (\<lambda>w. w \<noteq> []) (split_at (\<lambda>c. c \<in> set delims) s)"

lemma split_at_nonempty [simp]: "split_at d s \<noteq> []"
  by (cases s) auto

lemma split_at_word: "(\<And>c. c \<in> set w \<Longrightarrow> \<not> d c) \<Longrightarrow> split_at d (w @ s) = (w @ hd (split_at d s)) # tl (split_at d s)"
  by (induction w) auto

lemma split_at_sep: "(\<And>c. c \<in> set w \<Longrightarrow> d c) \<Longrightarrow>
    filter (\<lambda>w. w \<noteq> []) (split_at d (w @ s)) = filter (\<lambda>w. w \<noteq> []) (split_at d s)"
  by (induction w) auto

lemma split_at_set: "w \<in> set (split_at d s) \<Longrightarrow> c \<in> set w \<Longrightarrow> \<not> d c \<and> c \<in> set s"
proof (induction s arbitrary: w)
  case (Cons a s)
  obtain h t where ht: "split_at d s = h # t" by (cases "split_at d s") auto
  have "\<not> d c \<and> c \<in> set s" if "w \<in> set (h # t)" using Cons.IH [of w] Cons.prems(2) that ht by simp
  moreover have "\<not> d c \<and> c \<in> set s" if "c \<in> set h" using Cons.IH [of h] that ht by simp
  ultimately show ?case using Cons.prems ht by (auto split: if_splits)
qed simp

lemma split_at_token:
  assumes "w \<noteq> []" and "\<And>c. c \<in> set w \<Longrightarrow> \<not> d c" and "r \<noteq> [] \<Longrightarrow> d (hd r)"
  shows "filter (\<lambda>w. w \<noteq> []) (split_at d (w @ r)) = w # filter (\<lambda>w. w \<noteq> []) (split_at d (drop 1 r))"
  using assms split_at_word [of w d r] by (cases r) simp_all

lemma tokens_words: "tokens ds s = filter (\<lambda>w. w \<noteq> []) (split_at (\<lambda>c. c \<in> set ds) s)"
proof (induction ds s rule: tokens.induct)
  case (1 ds s)
  let ?d = "\<lambda>c. c \<in> set ds"
  let ?t = "dropWhile ?d s" and ?f = "filter (\<lambda>w. w \<noteq> []) :: string list \<Rightarrow> string list"
  have "?f (split_at ?d (takeWhile ?d s @ ?t)) = ?f (split_at ?d ?t)" by (rule split_at_sep) (metis set_takeWhileD)
  then have skip: "?f (split_at ?d s) = ?f (split_at ?d ?t)" by (simp only: takeWhile_dropWhile_id)
  show ?case
  proof (cases "?t = []")
    case True
    then have "strtok_r ds s = None" by (simp add: strtok_r_def)
    moreover have "?f (split_at ?d s) = []" by (simp only: skip True) simp
    ultimately show ?thesis by (subst tokens.simps) simp
  next
    case False
    let ?w = "takeWhile (\<lambda>c. \<not> ?d c) ?t" and ?r = "dropWhile (\<lambda>c. \<not> ?d c) ?t"
    have tok: "strtok_r ds s = Some (?w, drop 1 ?r)" using False by (simp add: strtok_r_def Let_def)
    have hd: "\<not> ?d (hd ?t)" using hd_dropWhile [OF False] by simp
    have w: "?w \<noteq> []" using False hd by (cases ?t) auto
    have "?f (split_at ?d (?w @ ?r)) = ?w # ?f (split_at ?d (drop 1 ?r))"
      by (rule split_at_token [OF w]) (use hd_dropWhile [of "\<lambda>c. \<not> ?d c" ?t] in \<open>auto dest: set_takeWhileD\<close>)
    moreover have "?w @ ?r = ?t" by (rule takeWhile_dropWhile_id)
    ultimately have "?f (split_at ?d s) = ?w # ?f (split_at ?d (drop 1 ?r))" using skip by argo
    then show ?thesis using 1 [OF tok refl] by (subst tokens.simps) (simp add: tok)
  qed
qed

text \<open>What the mapper emits for a line: one pair for every word, none with a comma or a newline.\<close>

lemma UserMapper_map_words: "UserMapper_map l = map (\<lambda>w. (w, ''1'')) (words (c_string l))"
  by (simp add: UserMapper_map_def words_def tokens_words)

lemma UserMapper_map_NUL: "UserMapper_map (l @ [NUL]) = UserMapper_map l"
proof -
  have "takeWhile (\<lambda>c. c \<noteq> NUL) (l @ [NUL]) = takeWhile (\<lambda>c. c \<noteq> NUL) l" by (induction l) simp_all
  then show ?thesis by (simp only: UserMapper_map_def c_string_def)
qed

lemma UserMapper_map_clean:
  assumes "newline \<notin> set l" and "kv \<in> set (UserMapper_map l)"
  shows "clean_pair kv"
proof -
  obtain w where w: "w \<in> set (split_at (\<lambda>c. c \<in> set delims) (c_string l))" "kv = (w, ''1'')"
    using assms(2) by (auto simp: UserMapper_map_words words_def)
  have "c \<noteq> CHR '','' \<and> c \<noteq> newline" if "c \<in> set w" for c
  proof -
    from split_at_set [OF w(1) that] have "c \<notin> set delims" "c \<in> set (c_string l)" by auto
    then show ?thesis using assms(1) by (auto simp: delims_def c_string_def dest: set_takeWhileD)
  qed
  then show ?thesis using w(2) by (auto simp: clean_pair_def newline_def)
qed

section \<open>Counts\<close>

lemma atoi_one: "atoi ''1'' = Inr 1"
  by (simp add: atoi_def c_string_def stoi_def is_space_def is_digit_def NUL_def digits_value_def in_int_def INT_MAX_def INT_MIN_def)

lemma sum_ones: "0 \<le> a \<Longrightarrow> a + int n \<le> INT_MAX \<Longrightarrow> foldm (\<lambda>c acc. int_op (acc + c)) (replicate n 1) a = Inr (a + int n)"
proof (induction n arbitrary: a)
  case (Suc n)
  have "int_op (a + 1) = Inr (a + 1)" using Suc.prems by (simp add: int_op_def in_int_def INT_MIN_def)
  then show ?case using Suc.IH [of "a + 1"] Suc.prems by simp
qed simp

lemma UserReducer_count:
  assumes "\<forall>v\<in>set vs. v = ''1''" and "int (length vs) \<le> INT_MAX"
  shows "UserReducer_reduce k vs = Inr [(k, to_string (int (length vs)))]"
proof -
  have "foldm (\<lambda>numstr counts. bnd (atoi numstr) (\<lambda>c. Inr (counts @ [c]))) vs [] = Inr (map (\<lambda>_. 1) vs)"
    using foldm_collect [where xs = vs and h = atoi and g = "\<lambda>_. 1" and acc = "[]"] assms(1) by (metis append_Nil atoi_one)
  then show ?thesis using sum_ones [of 0 "length vs"] assms(2) by (simp add: UserReducer_reduce_def map_replicate_const)
qed

end
