(* ===== verification/MapReduceRun.thy ===== *)
theory MapReduceRun
  imports FileShard UserTasks
begin

text \<open>
  The data that a MapReduce run hands from one component to the next, and the result of a run in
  which no worker fails: the queries that \<^verbatim>\<open>project4/src/worker_client.cc\<close> builds from shards and
  file lists, the grouping of intermediate files in \<^verbatim>\<open>project4/src/master.cc\<close>, and the composition of
  sharding, map jobs, grouping and reduce jobs.
\<close>

section \<open>Queries\<close>

definition map_query :: "string \<Rightarrow> int \<Rightarrow> FileShard \<Rightarrow> MapQuery outcome" where
  "map_query uid n s =
     bnd (foldm (\<lambda>i ps. bnd (bnd (rd (files s) (int i)) (\<lambda>f. bnd (rd (offsets s) (int i)) (\<lambda>r.
                   Inr \<lparr>sp_filename = f, sp_start = fst r, sp_end = snd r\<rparr>))) (\<lambda>p. Inr (ps @ [p])))
            [0..<length (files s)] [])
       (\<lambda>ps. Inr \<lparr>mq_user_id = uid, mq_n_partitions = n, mq_partitions = ps\<rparr>)"

definition reduce_query :: "string \<Rightarrow> int \<Rightarrow> string \<Rightarrow> string list \<Rightarrow> ReduceQuery" where
  "reduce_query uid partition_id dir fl = \<lparr>rq_user_id = uid, rq_files = fl, rq_partition_id = partition_id, rq_output_dir = dir\<rparr>"

section \<open>Grouping the intermediate files\<close>

definition file_index :: "string \<Rightarrow> int outcome" where
  "file_index f =
     (let start = find_first (CHR ''/'') f + 1;
          end_pos = find_first (CHR ''_'') f
      in bnd (substr f start (end_pos - start)) stoi)"

text \<open>\<open>idx2files\<close>, filled in the order in which the \<open>std::set\<close> of names is traversed.\<close>

definition group_file :: "string \<Rightarrow> (int \<Rightarrow> string list option) \<Rightarrow> (int \<Rightarrow> string list option) outcome" where
  "group_file f idx2files = bnd (file_index f) (\<lambda>idx.
     let idx2files = (if idx2files idx = None then idx2files(idx \<mapsto> []) else idx2files)
     in Inr (idx2files(idx \<mapsto> the (idx2files idx) @ [f])))"

definition group_files :: "string set \<Rightarrow> (int \<Rightarrow> string list option) outcome" where
  "group_files names = foldm group_file (sorted_list_of_set names) Map.empty"

section \<open>Pieces as map jobs see them\<close>

definition piece_partition :: "piece \<Rightarrow> ShardPartition" where
  "piece_partition = (\<lambda>(f, a, b). \<lparr>sp_filename = f, sp_start = a, sp_end = b\<rparr>)"

lemma map_query_pieces:
  assumes "length (files s) = length (offsets s)"
  shows "map_query uid n s = Inr \<lparr>mq_user_id = uid, mq_n_partitions = n, mq_partitions = map piece_partition (shard_pieces s)\<rparr>"
proof -
  let ?g = "\<lambda>i. \<lparr>sp_filename = files s ! i, sp_start = fst (offsets s ! i), sp_end = snd (offsets s ! i)\<rparr>"
  have "foldm (\<lambda>i ps. bnd (bnd (rd (files s) (int i)) (\<lambda>f. bnd (rd (offsets s) (int i)) (\<lambda>r.
      Inr \<lparr>sp_filename = f, sp_start = fst r, sp_end = snd r\<rparr>))) (\<lambda>p. Inr (ps @ [p]))) [0..<length (files s)] []
    = Inr ([] @ map ?g [0..<length (files s)])"
    by (rule foldm_collect) (simp add: assms)
  moreover have "map ?g [0..<length (files s)] = map piece_partition (shard_pieces s)"
    using assms by (intro nth_equalityI) (simp_all add: shard_pieces_def piece_partition_def case_prod_beta)
  ultimately show ?thesis by (simp add: map_query_def)
qed

text \<open>The buffer of a piece: its text, and a NUL when the piece ends past the end of the file.\<close>

definition piece_buffer :: "string \<Rightarrow> piece \<Rightarrow> string" where
  "piece_buffer c p = piece_text c p @ replicate (nat (snd (snd p)) - length c) NUL"

lemma read_piece:
  assumes "tiles f c a ((f, x, y) # ps) b" and "fs f = Some c" and "int (length c) < INT_MAX"
  shows "read_partition fs (piece_partition (f, x, y)) = Inr (piece_buffer c (f, x, y))"
proof -
  have xy: "x = int a" "int a < y" "nat y \<le> Suc (length c)" "a < length c" using assms(1) by (auto simp: not_less)
  then have sz: "to_int32 (y - x) = y - x" using assms(3) by (simp add: to_int32_def INT_MAX_def)
  have nn: "nat (y - x) = nat y - a" using xy by (simp add: nat_diff_distrib)
  have pad: "nat (y - x) - length (take (nat (y - x)) (drop (nat x) c)) = nat y - length c"
    using xy nn by (auto simp: min_def)
  have "read_partition fs (piece_partition (f, x, y)) =
      Inr (take (nat (y - x)) (drop (nat x) c) @ replicate (nat (y - x) - length (take (nat (y - x)) (drop (nat x) c))) NUL)"
    using xy(1,2) assms(2) sz [unfolded xy(1)] by (simp add: read_partition_def piece_partition_def Let_def)
  then show ?thesis by (simp only: pad piece_buffer_def piece_text_def) simp
qed

text \<open>Hypothesis on a mapper: a trailing NUL makes no difference, or no file needs one.\<close>

definition nul_safe :: "user_map \<Rightarrow> string \<Rightarrow> bool" where
  "nul_safe mapper c \<longleftrightarrow> c = [] \<or> last c = newline \<or> (\<forall>l. mapper (l @ [NUL]) = mapper l)"

lemma partition_pairs_NUL:
  assumes "t \<noteq> []" and "last t \<noteq> newline" and "\<forall>l. mapper (l @ [NUL]) = mapper l"
  shows "partition_pairs mapper (t @ [NUL]) = partition_pairs mapper t"
proof -
  have "NUL \<noteq> newline" by (simp add: NUL_def newline_def)
  from getlines_snoc [OF assms(1,2) this] obtain ls l where "getlines newline t = ls @ [l]" "getlines newline (t @ [NUL]) = ls @ [l @ [NUL]]"
    by (metis append_butlast_last_id)
  then show ?thesis using assms(3) by (simp add: partition_pairs_def)
qed

lemma tiles_pairs:
  "tiles f c a ps b \<Longrightarrow> length c \<le> b \<Longrightarrow> b \<le> Suc (length c) \<Longrightarrow> nul_safe mapper c \<Longrightarrow>
   concat (map (\<lambda>p. partition_pairs mapper (piece_buffer c p)) ps) = partition_pairs mapper (drop a c)"
proof (induction f c a ps b rule: tiles.induct)
  case (2 f c a g x y ps b)
  let ?p = "take (nat y - a) (drop a c)"
  have a: "a < nat y" "nat y \<le> b" using 2(2) tiles_mono [of f c "nat y" ps b] by auto
  have pt: "piece_text c (g, x, y) = ?p" using 2(2) by (simp add: piece_text_def nat_diff_distrib)
  have "drop (nat y) c = drop (nat y - a) (drop a c)" using a by simp
  then have split: "?p @ drop (nat y) c = drop a c" by (metis append_take_drop_id)
  have IH: "concat (map (\<lambda>p. partition_pairs mapper (piece_buffer c p)) ps) = partition_pairs mapper (drop (nat y) c)"
    using 2 by simp
  consider "nat y < length c" | "nat y = length c" | "length c < nat y" by linarith
  then show ?case
  proof cases
    case 1
    then have "?p \<noteq> []" "last ?p = c ! (nat y - 1)" using a by (auto simp: last_conv_nth)
    then have "last ?p = newline" using 2(2) 1 by simp
    then have "getlines newline (?p @ drop (nat y) c) = getlines newline ?p @ getlines newline (drop (nat y) c)"
      by (intro getlines_append) simp
    then show ?thesis using IH pt split 1 by (simp add: partition_pairs_def piece_buffer_def)
  next
    case 2
    then show ?thesis using IH pt split by (simp add: partition_pairs_def piece_buffer_def)
  next
    case 3
    then have y: "nat y = Suc (length c)" "last c \<noteq> newline" using 2(2) by auto
    have pd: "?p = drop a c" using 3 by simp
    have buf: "piece_buffer c (g, x, y) = drop a c @ [NUL]" using pt pd y(1) by (simp add: piece_buffer_def)
    have "a < length c" "tiles f c (nat y) ps b" using 2(2) by auto
    then have ne: "drop a c \<noteq> []" "last (drop a c) \<noteq> newline" and "ps = []" using y 2(4)
      by (auto dest: tiles_mono elim: tiles.elims)
    moreover have "\<forall>l. mapper (l @ [NUL]) = mapper l" using 2(5) y(2) \<open>a < length c\<close> by (auto simp: nul_safe_def)
    ultimately show ?thesis using buf partition_pairs_NUL [OF ne] by simp
  qed
qed (simp add: partition_pairs_def)

lemma tiles_read:
  "tiles f c a ps b \<Longrightarrow> fs f = Some c \<Longrightarrow> int (length c) < INT_MAX \<Longrightarrow> p \<in> set ps \<Longrightarrow>
   fst p = f \<and> read_partition fs (piece_partition p) = Inr (piece_buffer c p)"
proof (induction f c a ps b rule: tiles.induct)
  case (2 f c a g x y ps b)
  have g: "g = f" using 2(2) by simp
  then have "read_partition fs (piece_partition (f, x, y)) = Inr (piece_buffer c (f, x, y))"
    using 2(2) read_piece [where fs = fs and f = f and c = c, OF _ 2(3,4)] by blast
  then show ?case using 2 g by auto
qed simp

section \<open>The phases of a run without failures\<close>

definition map_phase :: "(string \<Rightarrow> u64) \<Rightarrow> factory \<Rightarrow> string \<Rightarrow> int \<Rightarrow> (string \<times> FileShard) list \<Rightarrow> string set \<times> filesystem
    \<Rightarrow> (string set \<times> filesystem) outcome" where
  "map_phase hash factory uid n = foldm (\<lambda>job st.
     bnd (map_query uid n (snd job)) (\<lambda>q.
     bnd (handle_map_job hash factory (fst job) q (snd st)) (\<lambda>out.
     Inr (fst st \<union> set (fst out), snd out))))"

definition reduce_phase :: "factory \<Rightarrow> string \<Rightarrow> string \<Rightarrow> (int \<Rightarrow> string list option) \<Rightarrow> int list \<Rightarrow> string list \<times> filesystem
    \<Rightarrow> (string list \<times> filesystem) outcome" where
  "reduce_phase factory uid dir idx2files = foldm (\<lambda>i st.
     bnd (handle_reduce_job factory (reduce_query uid i dir (the (idx2files i))) (snd st)) (\<lambda>out.
     Inr (fst st @ [fst out], snd out)))"

section \<open>The map phase\<close>

definition input_buffer :: "(string \<Rightarrow> string option) \<Rightarrow> piece \<Rightarrow> string" where
  "input_buffer fs p = piece_buffer (the (fs (fst p))) p"

definition shard_pairs :: "user_map \<Rightarrow> (string \<Rightarrow> string option) \<Rightarrow> FileShard \<Rightarrow> (string \<times> string) list" where
  "shard_pairs mapper fs s = concat (map (\<lambda>p. partition_pairs mapper (input_buffer fs p)) (shard_pieces s))"

text \<open>What the jobs put into the file \<open>f\<close> of partition \<open>i\<close>.\<close>

definition name_pairs :: "(string \<Rightarrow> u64) \<Rightarrow> int \<Rightarrow> (FileShard \<Rightarrow> (string \<times> string) list) \<Rightarrow> (string \<times> FileShard) list \<Rightarrow> nat \<Rightarrow> string
    \<Rightarrow> (string \<times> string) list" where
  "name_pairs hash n sp jobs i f =
     bucket_pairs hash n i (concat (map (\<lambda>job. if intermediate_name (fst job) (int i) = f then sp (snd job) else []) jobs))"

definition phase_names :: "int \<Rightarrow> (string \<times> FileShard) list \<Rightarrow> string set" where
  "phase_names n jobs = (\<Union>job\<in>set jobs. set (job_names (fst job) n))"

definition is_intermediate :: "string \<Rightarrow> bool" where
  "is_intermediate f \<longleftrightarrow> take 13 f = ''intermediate/''"

lemma intermediate_name_is: "is_intermediate (intermediate_name port i)"
  by (simp add: is_intermediate_def intermediate_name_def)

lemma job_names_are: "f \<in> set (job_names port n) \<Longrightarrow> is_intermediate f"
  by (auto simp: job_names_def intermediate_name_is)

lemma file_index_name:
  assumes "in_int i"
  shows "file_index (intermediate_name port i) = Inr i"
proof -
  let ?d = "to_string i" and ?r = "''_'' @ port @ ''.txt''"
  have nd: "CHR ''_'' \<notin> set ?d"
    by (auto simp: to_string_def is_digit_def dest!: to_string_nat_digits)
  have 1: "find_first (CHR ''/'') (intermediate_name port i) = 12"
    by (simp add: intermediate_name_def find_first_def)
  have "find_first (CHR ''_'') ((''intermediate/'' @ ?d) @ CHR ''_'' # port @ ''.txt'') = int (length (''intermediate/'' @ ?d))"
    by (rule find_first_append) (use nd in simp)
  then have 2: "find_first (CHR ''_'') (intermediate_name port i) = 13 + int (length ?d)"
    by (simp add: intermediate_name_def)
  have "substr (intermediate_name port i) 13 (int (length ?d)) = Inr ?d"
    by (simp add: substr_def intermediate_name_def)
  then show ?thesis using stoi_to_string [OF assms, of "[]"] by (simp add: file_index_def 1 2)
qed

lemma intermediate_name_port:
  assumes "intermediate_name p i = intermediate_name q j" and "in_int i" and "in_int j"
  shows "p = q" and "i = j"
proof -
  show ij: "i = j" using assms file_index_name by (metis Inr_inject)
  show "p = q" using assms(1) by (simp add: ij intermediate_name_def)
qed

lemma bucket_pairs_append [simp]: "bucket_pairs hash n i (xs @ ys) = bucket_pairs hash n i xs @ bucket_pairs hash n i ys"
  by (simp add: bucket_pairs_def)

text \<open>What a map phase of these jobs relies on.\<close>

definition jobs_ok :: "(string \<Rightarrow> string option) \<Rightarrow> (string \<times> FileShard) list \<Rightarrow> bool" where
  "jobs_ok fs jobs \<longleftrightarrow> (\<forall>job\<in>set jobs. length (files (snd job)) = length (offsets (snd job)) \<and>
     (\<forall>p\<in>set (shard_pieces (snd job)). read_partition fs (piece_partition p) = Inr (input_buffer fs p) \<and> \<not> is_intermediate (fst p)))"

lemma map_phase_run:
  assumes "get_mapper factory uid = Some mapper" and n: "0 < n" "in_int n" and "jobs_ok (contents fs) jobs"
    and "\<forall>f. is_intermediate f \<longrightarrow> writable fs f \<and> contents fs f = None"
  shows "\<exists>fs'. map_phase hash factory uid n jobs ({}, fs) = Inr (phase_names n jobs, fs') \<and> writable fs' = writable fs \<and>
    (\<forall>port i. i < nat n \<longrightarrow> file_text fs' (intermediate_name port (int i)) =
       concat (map pair_line (name_pairs hash n (shard_pairs mapper (contents fs)) jobs i (intermediate_name port (int i))))) \<and>
    (\<forall>f. \<not> is_intermediate f \<longrightarrow> contents fs' f = contents fs f)"
  using assms(4)
proof (induction jobs rule: rev_induct)
  case Nil
  then show ?case using assms(5) by (simp add: map_phase_def phase_names_def name_pairs_def bucket_pairs_def intermediate_name_is)
next
  case (snoc job jobs)
  obtain port s where job: "job = (port, s)" by force
  let ?sp = "shard_pairs mapper (contents fs)"
  have jo: "jobs_ok (contents fs) jobs" "length (files s) = length (offsets s)"
    "\<forall>p\<in>set (shard_pieces s). read_partition (contents fs) (piece_partition p) = Inr (input_buffer (contents fs) p) \<and> \<not> is_intermediate (fst p)"
    using snoc.prems by (auto simp: jobs_ok_def job)
  from snoc.IH [OF jo(1)] obtain fs1 where fs1: "map_phase hash factory uid n jobs ({}, fs) = Inr (phase_names n jobs, fs1)"
    "writable fs1 = writable fs"
    "\<And>port i. i < nat n \<Longrightarrow> file_text fs1 (intermediate_name port (int i)) = concat (map pair_line (name_pairs hash n ?sp jobs i (intermediate_name port (int i))))"
    "\<And>f. \<not> is_intermediate f \<Longrightarrow> contents fs1 f = contents fs f" by blast
  let ?q = "\<lparr>mq_user_id = uid, mq_n_partitions = n, mq_partitions = map piece_partition (shard_pieces s)\<rparr>"
  define buf where "buf = (\<lambda>p :: ShardPartition. input_buffer (contents fs) (sp_filename p, sp_start p, sp_end p))"
  have buf: "buf (piece_partition p) = input_buffer (contents fs) p" "sp_filename (piece_partition p) = fst p" for p
    by (cases p; simp add: buf_def piece_partition_def)+
  have rd: "read_partition (contents fs1) (piece_partition p) = Inr (buf (piece_partition p)) \<and> fst p \<notin> set (job_names port n)"
    if "p \<in> set (shard_pieces s)" for p
    using that jo(3) read_partition_cong [of "contents fs1" "piece_partition p" "contents fs"] fs1(4) job_names_are buf by metis
  have pairs: "concat (map (\<lambda>p. partition_pairs mapper (buf p)) (mq_partitions ?q)) = ?sp s"
    by (simp add: comp_def buf(1) shard_pairs_def)
  have "\<exists>fs'. handle_map_job hash factory port ?q fs1 = Inr (job_names port n, fs') \<and> writable fs' = writable fs1 \<and>
    (\<forall>i<nat n. file_text fs' (intermediate_name port (int i)) = file_text fs1 (intermediate_name port (int i)) @
       concat (map pair_line (bucket_pairs hash n i (?sp s)))) \<and>
    (\<forall>f. f \<notin> set (job_names port n) \<longrightarrow> contents fs' f = contents fs1 f)"
    using map_job_run [where q = ?q and buf = buf and fs = fs1 and port = port and hash = hash and factory = factory and mapper = mapper]
      assms(1,5) n fs1(2) rd buf(2) job_names_are unfolding pairs by auto
  then obtain fs2 where fs2: "handle_map_job hash factory port ?q fs1 = Inr (job_names port n, fs2)" "writable fs2 = writable fs1"
    "\<And>i. i < nat n \<Longrightarrow> file_text fs2 (intermediate_name port (int i)) = file_text fs1 (intermediate_name port (int i)) @
       concat (map pair_line (bucket_pairs hash n i (?sp s)))"
    "\<And>f. f \<notin> set (job_names port n) \<Longrightarrow> contents fs2 f = contents fs1 f" by blast
  have run: "map_phase hash factory uid n (jobs @ [job]) ({}, fs) = Inr (phase_names n (jobs @ [job]), fs2)"
    using fs1(1) fs2(1) map_query_pieces [OF jo(2)] by (auto simp: map_phase_def foldm_append job phase_names_def)
  have cont: "file_text fs2 (intermediate_name p (int i)) =
      concat (map pair_line (name_pairs hash n ?sp (jobs @ [job]) i (intermediate_name p (int i))))" if i: "i < nat n" for p i
  proof (cases "p = port")
    case True
    then show ?thesis using fs1(3) [OF i] fs2(3) [OF i] by (simp add: name_pairs_def job)
  next
    case False
    have ii: "in_int (int j)" if "j < nat n" for j using that n by (simp add: in_int_def INT_MIN_def)
    have "intermediate_name p (int i) \<noteq> intermediate_name port (int j)" if "j < nat n" for j
      using intermediate_name_port(1) [OF _ ii [OF i] ii [OF that]] False by blast
    then have "intermediate_name p (int i) \<notin> set (job_names port n)" "intermediate_name port (int i) \<noteq> intermediate_name p (int i)"
      using i job_names_simps [where port = port, OF n] by (auto simp: in_set_conv_nth dest: sym)
    then show ?thesis using fs1(3) [OF i] fs2(4) by (simp add: name_pairs_def job bucket_pairs_def)
  qed
  show ?case using run cont fs2(2,4) fs1(2,4) job_names_are by (intro exI [of _ fs2]) metis
qed

section \<open>The grouping\<close>

definition index_files :: "(string \<Rightarrow> int) \<Rightarrow> string list \<Rightarrow> int \<Rightarrow> string list option" where
  "index_files ix fl i = (let l = filter (\<lambda>f. ix f = i) fl in if l = [] then None else Some l)"

lemma foldm_group_file:
  "(\<forall>f\<in>set fl. file_index f = Inr (ix f)) \<Longrightarrow> foldm group_file fl (index_files ix pre) = Inr (index_files ix (pre @ fl))"
proof (induction fl arbitrary: pre)
  case (Cons f fl)
  have "group_file f (index_files ix pre) = Inr (index_files ix (pre @ [f]))"
    using Cons.prems by (auto simp: group_file_def index_files_def Let_def fun_eq_iff)
  then show ?case using Cons by simp
qed simp

lemma group_files_run:
  assumes "finite names" and "\<forall>f\<in>names. file_index f = Inr (ix f)"
  shows "group_files names = Inr (index_files ix (sorted_list_of_set names))"
  using foldm_group_file [of "sorted_list_of_set names" ix "[]"] assms
  by (simp add: group_files_def index_files_def [abs_def])

text \<open>The file names of a phase and their partitions.\<close>

lemma job_names_iff: "f \<in> set (job_names port n) \<longleftrightarrow> (\<exists>i<nat n. f = intermediate_name port (int i))"
proof
  assume "f \<in> set (job_names port n)"
  then obtain k where "0 \<le> k" "k < n" "f = intermediate_name port k" by (auto simp: job_names_def)
  then show "\<exists>i<nat n. f = intermediate_name port (int i)" by (intro exI [of _ "nat k"]) simp
next
  assume "\<exists>i<nat n. f = intermediate_name port (int i)"
  then show "f \<in> set (job_names port n)" by (auto simp: job_names_def)
qed

lemma phase_names_iff: "f \<in> phase_names n jobs \<longleftrightarrow> (\<exists>job\<in>set jobs. \<exists>i<nat n. f = intermediate_name (fst job) (int i))"
  by (simp add: phase_names_def job_names_iff)

lemma phase_names_finite: "finite (phase_names n jobs)"
  by (simp add: phase_names_def)

section \<open>Multisets of pairs\<close>

lemma concat_single:
  "distinct L \<Longrightarrow> g \<in> set L \<Longrightarrow> concat (map (\<lambda>f. if g = f then xs else []) L) = xs"
proof (induction L)
  case (Cons f L)
  have "concat (map (\<lambda>f. if g = f then xs else []) L) = []" if "g \<notin> set L" using that by auto
  then show ?case using Cons by auto
qed simp

lemma name_pairs_mset:
  assumes "distinct L" and "\<And>job. job \<in> set jobs \<Longrightarrow> intermediate_name (fst job) (int i) \<in> set L"
  shows "mset (concat (map (name_pairs hash n sp jobs i) L)) = mset (bucket_pairs hash n i (concat (map (\<lambda>job. sp (snd job)) jobs)))"
  using assms(2)
proof (induction jobs)
  case Nil
  then show ?case by (induction L) (simp_all add: name_pairs_def bucket_pairs_def)
next
  case (Cons job jobs)
  let ?h = "\<lambda>f. if intermediate_name (fst job) (int i) = f then bucket_pairs hash n i (sp (snd job)) else []"
  have "mset (concat (map (\<lambda>f. ?h f @ name_pairs hash n sp jobs i f) L)) =
      mset (concat (map ?h L)) + mset (concat (map (name_pairs hash n sp jobs i) L))" by (induction L) simp_all
  moreover have "name_pairs hash n sp (job # jobs) i = (\<lambda>f. ?h f @ name_pairs hash n sp jobs i f)"
    by (rule ext) (simp add: name_pairs_def bucket_pairs_def)
  moreover have "concat (map ?h L) = bucket_pairs hash n i (sp (snd job))"
    using Cons.prems by (intro concat_single [OF assms(1)]) simp
  ultimately show ?case using Cons by simp
qed

lemma group_pairs_mset:
  assumes "mset xs = mset ys"
  shows "map fst (group_pairs xs) = sorted_list_of_set (fst ` set ys)"
    and "kvs \<in> set (group_pairs xs) \<Longrightarrow> mset (snd kvs) = mset (values_of (fst kvs) ys)"
proof -
  have "set xs = set ys" using assms by (rule mset_eq_setD)
  then show "map fst (group_pairs xs) = sorted_list_of_set (fst ` set ys)" by simp
  have "mset (values_of k xs) = mset (values_of k ys)" for k
    using assms by (simp add: values_of_def)
  then show "kvs \<in> set (group_pairs xs) \<Longrightarrow> mset (snd kvs) = mset (values_of (fst kvs) ys)"
    by (auto simp: group_pairs_def)
qed

section \<open>The reduce phase\<close>

lemma output_name_inj: "output_name dir i = output_name dir j \<Longrightarrow> in_int i \<Longrightarrow> in_int j \<Longrightarrow> i = j"
  using stoi_to_string [of i "[]"] stoi_to_string [of j "[]"] by (simp add: output_name_def)

lemma reduce_phase_run:
  assumes "get_reducer factory uid = Some reducer" and "distinct parts" and "\<forall>i\<in>set parts. in_int i"
    and "\<forall>i\<in>set parts. writable fs (output_name dir i) \<and> contents fs (output_name dir i) = None"
    and "\<forall>i\<in>set parts. \<forall>f\<in>set (the (idx i)). (\<forall>j. f \<noteq> output_name dir j) \<and>
      (case contents fs f of None \<Rightarrow> ps i f = [] | Some c \<Rightarrow> c = concat (map pair_line (ps i f))) \<and> (\<forall>kv\<in>set (ps i f). clean_pair kv)"
    and "\<forall>i\<in>set parts. \<forall>kvs\<in>set (group_pairs (concat (map (ps i) (the (idx i))))).
      reducer (fst kvs) (snd kvs) = Inr (out (fst kvs) (snd kvs))"
  shows "\<exists>fs'. reduce_phase factory uid dir idx parts ([], fs) = Inr (map (output_name dir) parts, fs') \<and> writable fs' = writable fs \<and>
    (\<forall>i\<in>set parts. file_text fs' (output_name dir i) = group_text out (group_pairs (concat (map (ps i) (the (idx i)))))) \<and>
    (\<forall>f. f \<notin> output_name dir ` set parts \<longrightarrow> contents fs' f = contents fs f)"
  using assms(2-)
proof (induction parts rule: rev_induct)
  case Nil
  then show ?case by (simp add: reduce_phase_def)
next
  case (snoc i parts)
  have "\<exists>fs'. reduce_phase factory uid dir idx parts ([], fs) = Inr (map (output_name dir) parts, fs') \<and> writable fs' = writable fs \<and>
    (\<forall>i\<in>set parts. file_text fs' (output_name dir i) = group_text out (group_pairs (concat (map (ps i) (the (idx i)))))) \<and>
    (\<forall>f. f \<notin> output_name dir ` set parts \<longrightarrow> contents fs' f = contents fs f)"
    by (rule snoc.IH) (use snoc.prems in auto)
  then obtain fs1 where fs1: "reduce_phase factory uid dir idx parts ([], fs) = Inr (map (output_name dir) parts, fs1)" "writable fs1 = writable fs"
    "\<And>i. i \<in> set parts \<Longrightarrow> file_text fs1 (output_name dir i) = group_text out (group_pairs (concat (map (ps i) (the (idx i)))))"
    "\<And>f. f \<notin> output_name dir ` set parts \<Longrightarrow> contents fs1 f = contents fs f" by blast
  let ?q = "reduce_query uid i dir (the (idx i))"
  have q: "rq_user_id ?q = uid" "rq_files ?q = the (idx i)" "output_name (rq_output_dir ?q) (rq_partition_id ?q) = output_name dir i"
    by (simp_all add: reduce_query_def)
  have new: "output_name dir j \<noteq> output_name dir i" if "j \<in> set parts" for j
    using that snoc.prems(1,2) output_name_inj [of dir j i] by auto
  then have i: "contents fs1 (output_name dir i) = None" using fs1(4) snoc.prems(3) by (metis imageE in_set_conv_decomp)
  have fls: "contents fs1 f = contents fs f" if "f \<in> set (the (idx i))" for f
    using that snoc.prems(4) by (intro fs1(4)) auto
  have "\<exists>fs'. handle_reduce_job factory ?q fs1 = Inr (output_name dir i, fs') \<and> writable fs' = writable fs1 \<and>
    file_text fs' (output_name dir i) = file_text fs1 (output_name dir i) @ group_text out (group_pairs (concat (map (ps i) (the (idx i))))) \<and>
    (\<forall>f. f \<noteq> output_name dir i \<longrightarrow> contents fs' f = contents fs1 f)"
    using reduce_job_run [where q = ?q and factory = factory and reducer = reducer and fs = fs1 and ps = "ps i" and out = out, unfolded q]
      assms(1) snoc.prems(3-5) fs1(2) fls by auto
  then obtain fs2 where fs2: "handle_reduce_job factory ?q fs1 = Inr (output_name dir i, fs2)" "writable fs2 = writable fs1"
    "file_text fs2 (output_name dir i) = group_text out (group_pairs (concat (map (ps i) (the (idx i)))))"
    "\<And>f. f \<noteq> output_name dir i \<Longrightarrow> contents fs2 f = contents fs1 f" using i by auto
  have "reduce_phase factory uid dir idx (parts @ [i]) ([], fs) = Inr (map (output_name dir) (parts @ [i]), fs2)"
    using fs1(1) fs2(1) by (simp add: reduce_phase_def foldm_append)
  moreover have "file_text fs2 (output_name dir j) = group_text out (group_pairs (concat (map (ps j) (the (idx j)))))"
    if "j \<in> set (parts @ [i])" for j
    using that fs2(3) fs2(4) [OF new] fs1(3) by auto
  ultimately show ?case using fs2(2,4) fs1(2,4) by (intro exI [of _ fs2]) auto
qed

section \<open>From the input files to the jobs\<close>

definition input_pairs :: "user_map \<Rightarrow> (string \<Rightarrow> string option) \<Rightarrow> string list \<Rightarrow> (string \<times> string) list" where
  "input_pairs mapper fs fl = concat (map (\<lambda>f. partition_pairs mapper (the (fs f))) fl)"

definition inputs_ok :: "user_map \<Rightarrow> (string \<Rightarrow> string option) \<Rightarrow> string list \<Rightarrow> bool" where
  "inputs_ok mapper fs fl \<longleftrightarrow> (\<forall>f\<in>set fl. \<not> is_intermediate f \<and>
     (case fs f of None \<Rightarrow> False | Some c \<Rightarrow> nul_safe mapper c \<and> int (length c) < INT_MAX))"

lemma covers_pieces:
  assumes "list_all2 (covers fs) fl pss" and "inputs_ok mapper fs fl"
  shows "concat (map (\<lambda>p. partition_pairs mapper (input_buffer fs p)) (concat pss)) = input_pairs mapper fs fl"
    and "p \<in> set (concat pss) \<Longrightarrow> read_partition fs (piece_partition p) = Inr (input_buffer fs p) \<and> \<not> is_intermediate (fst p)"
proof -
  have one: "concat (map (\<lambda>p. partition_pairs mapper (input_buffer fs p)) ps) = partition_pairs mapper (the (fs f)) \<and>
      (\<forall>p\<in>set ps. read_partition fs (piece_partition p) = Inr (input_buffer fs p) \<and> fst p = f)"
    if c: "covers fs f ps" and ok: "inputs_ok mapper fs [f]" for f ps
  proof -
    obtain c b where cb: "fs f = Some c" "tiles f c 0 ps b" "length c \<le> b" "b \<le> Suc (length c)" using c by (auto simp: covers_def)
    have cc: "nul_safe mapper c" "int (length c) < INT_MAX" using ok cb(1) by (auto simp: inputs_ok_def)
    have rd: "fst p = f \<and> read_partition fs (piece_partition p) = Inr (piece_buffer c p)" if "p \<in> set ps" for p
      by (rule tiles_read [where fs = fs and p = p, OF cb(2,1) cc(2) that])
    then have "map (\<lambda>p. partition_pairs mapper (input_buffer fs p)) ps = map (\<lambda>p. partition_pairs mapper (piece_buffer c p)) ps"
      using cb(1) by (intro map_cong) (simp_all add: input_buffer_def)
    then have "concat (map (\<lambda>p. partition_pairs mapper (input_buffer fs p)) ps) = partition_pairs mapper (the (fs f))"
      using tiles_pairs [OF cb(2-4) cc(1)] cb(1) by (simp only: drop0 option.sel)
    then show ?thesis using cb(1) rd by (simp add: input_buffer_def)
  qed
  show "concat (map (\<lambda>p. partition_pairs mapper (input_buffer fs p)) (concat pss)) = input_pairs mapper fs fl"
    using assms by (induction fl pss rule: list_all2_induct) (simp_all add: input_pairs_def inputs_ok_def one)
  show "p \<in> set (concat pss) \<Longrightarrow> read_partition fs (piece_partition p) = Inr (input_buffer fs p) \<and> \<not> is_intermediate (fst p)"
    using assms
  proof (induction fl pss rule: list_all2_induct)
    case (Cons f fl ps pss)
    have "inputs_ok mapper fs [f]" "\<not> is_intermediate f" using Cons.prems by (simp_all add: inputs_ok_def)
    then show ?case using Cons one [of f ps] by (auto simp: inputs_ok_def)
  qed simp
qed

lemma shards_jobs:
  assumes "0 < map_kilobytes spec" and "map_kilobytes spec \<le> 2097151"
    and "shard_files fs spec = Some (Inr (True, shards))" and "inputs_ok mapper fs (input_files spec)"
    and "mset (map snd jobs) = mset shards"
  shows "jobs_ok fs jobs"
    and "mset (concat (map (\<lambda>job. shard_pairs mapper fs (snd job)) jobs)) = mset (input_pairs mapper fs (input_files spec))"
proof -
  from shard_files_true [OF assms(1-3)] obtain st pss where
    sh: "shards = (if files (shard st) \<noteq> [] then fileShards st @ [shard st] else fileShards st)"
    and ok: "st_ok (map_kilobytes spec * 1024) st"
    and pss: "st_pieces st = concat pss" "list_all2 (covers fs) (input_files spec) pss" .
  have pieces: "concat (map shard_pieces shards) = concat pss" 
    using pss(1) by (cases "files (shard st) = []") (simp_all add: sh st_pieces_def shard_pieces_def)
  note cov = covers_pieces [OF pss(2) assms(4)]
  have jobs: "snd ` set jobs = set shards" using mset_eq_setD [OF assms(5)] by simp
  have len: "length (files s) = length (offsets s)" if "s \<in> set shards" for s
    using that ok by (auto simp: sh st_ok_def split: if_splits)
  have "p \<in> set (concat pss)" if "s \<in> set shards" "p \<in> set (shard_pieces s)" for s p
    using that by (subst pieces [symmetric]) auto
  then show "jobs_ok fs jobs" using len cov(2) jobs unfolding jobs_ok_def by (metis imageI)
  have "mset (concat (map (\<lambda>job. shard_pairs mapper fs (snd job)) jobs)) = mset (concat (map (shard_pairs mapper fs) (map snd jobs)))"
    by (simp add: comp_def)
  also have "\<dots> = \<Sum>\<^sub># (image_mset (\<lambda>s. mset (shard_pairs mapper fs s)) (mset (map snd jobs)))" by (induction jobs) simp_all
  also have "\<dots> = mset (concat (map (shard_pairs mapper fs) shards))" by (simp only: assms(5)) (induction shards, simp_all)
  also have "concat (map (shard_pairs mapper fs) shards) =
      concat (map (\<lambda>p. partition_pairs mapper (input_buffer fs p)) (concat (map shard_pieces shards)))"
    by (induction shards) (simp_all add: shard_pairs_def)
  also have "\<dots> = input_pairs mapper fs (input_files spec)" by (simp only: pieces cov(1))
  finally show "mset (concat (map (\<lambda>job. shard_pairs mapper fs (snd job)) jobs)) = mset (input_pairs mapper fs (input_files spec))" .
qed

section \<open>A whole run\<close>

definition disk_ok :: "string \<Rightarrow> filesystem \<Rightarrow> bool" where
  "disk_ok dir fs \<longleftrightarrow> (\<forall>f. is_intermediate f \<longrightarrow> writable fs f \<and> contents fs f = None) \<and>
     (\<forall>i. writable fs (output_name dir i) \<and> contents fs (output_name dir i) = None \<and> \<not> is_intermediate (output_name dir i))"

definition clean_mapper :: "user_map \<Rightarrow> bool" where
  "clean_mapper mapper \<longleftrightarrow> (\<forall>l. newline \<notin> set l \<longrightarrow> (\<forall>kv\<in>set (mapper l). clean_pair kv))"

text \<open>The keys of partition \<open>i\<close>.\<close>

definition bucket_keys :: "(string \<Rightarrow> u64) \<Rightarrow> int \<Rightarrow> (string \<times> string) list \<Rightarrow> int \<Rightarrow> string list" where
  "bucket_keys hash n kvs i = sorted_list_of_set {k \<in> fst ` set kvs. int (bucket hash n k) = i}"

lemma input_pairs_clean: "clean_mapper mapper \<Longrightarrow> kv \<in> set (input_pairs mapper fs fl) \<Longrightarrow> clean_pair kv"
  by (auto simp: input_pairs_def partition_pairs_def clean_mapper_def dest: getlines_no_delim)

text \<open>The groups of a partition: its keys in order, each with all of its values in some order.\<close>

lemma partition_groups:
  assumes "distinct L" and "\<And>job. job \<in> set jobs \<Longrightarrow> intermediate_name (fst job) (int i) \<in> set L"
    and "mset (concat (map (\<lambda>job. sp (snd job)) jobs)) = mset kvs"
  shows "map fst (group_pairs (concat (map (name_pairs hash n sp jobs i) L))) = bucket_keys hash n kvs (int i)"
    and "g \<in> set (group_pairs (concat (map (name_pairs hash n sp jobs i) L))) \<Longrightarrow> mset (snd g) = mset (values_of (fst g) kvs)"
proof -
  let ?xs = "concat (map (name_pairs hash n sp jobs i) L)"
  have m: "mset ?xs = mset (bucket_pairs hash n i kvs)"
    using name_pairs_mset [where hash = hash and n = n and sp = sp, OF assms(1,2)] assms(3) by (simp add: bucket_pairs_def)
  have keys: "fst ` set (bucket_pairs hash n i kvs) = {k \<in> fst ` set kvs. int (bucket hash n k) = int i}"
    by (auto simp: bucket_pairs_def)
  show fst: "map fst (group_pairs ?xs) = bucket_keys hash n kvs (int i)"
    by (simp only: group_pairs_mset(1) [OF m] keys bucket_keys_def)
  assume g: "g \<in> set (group_pairs ?xs)"
  then have "fst g \<in> set (bucket_keys hash n kvs (int i))" using fst by (metis imageI list.set_map)
  then have "bucket hash n (fst g) = i" by (simp add: bucket_keys_def)
  then have "values_of (fst g) (bucket_pairs hash n i kvs) = values_of (fst g) kvs"
    by (auto simp: values_of_def bucket_pairs_def intro!: arg_cong [where f = "map snd"] filter_cong)
  then show "mset (snd g) = mset (values_of (fst g) kvs)" using group_pairs_mset(2) [OF m g] by simp
qed

lemma phase_grouping:
  assumes "in_int n" and "jobs \<noteq> []"
  shows "\<exists>idx. group_files (phase_names n jobs) = Inr idx \<and> dom idx = {0..<n} \<and>
    (\<forall>i<nat n. distinct (the (idx (int i))) \<and> set (the (idx (int i))) = (\<lambda>job. intermediate_name (fst job) (int i)) ` set jobs)"
proof -
  let ?names = "phase_names n jobs"
  have ii: "in_int (int i)" if "i < nat n" for i using that assms(1) by (auto simp: in_int_def INT_MIN_def)
  define ix where "ix f = projr (file_index f)" for f
  have ix: "ix (intermediate_name port (int i)) = int i" if "i < nat n" for port i
    using file_index_name [OF ii [OF that]] by (simp add: ix_def)
  let ?L = "\<lambda>i. filter (\<lambda>f. ix f = i) (sorted_list_of_set ?names)"
  let ?idx = "index_files ix (sorted_list_of_set ?names)"
  have "\<forall>f\<in>?names. file_index f = Inr (ix f)"
    using ii by (auto simp: phase_names_iff ix file_index_name)
  then have group: "group_files ?names = Inr ?idx" by (rule group_files_run [OF phase_names_finite])
  have L: "set (?L (int i)) = (\<lambda>job. intermediate_name (fst job) (int i)) ` set jobs" if i: "i < nat n" for i
    using i by (force simp: phase_names_finite phase_names_iff ix)
  have empty: "?L i = []" if "i \<notin> {0..<n}" for i
    using that by (auto simp: filter_empty_conv phase_names_finite phase_names_iff ix)
  have idx: "?idx (int i) = Some (?L (int i))" if "i < nat n" for i
  proof -
    have "set (?L (int i)) \<noteq> {}" unfolding L [OF that] using assms(2) by simp
    then have "?L (int i) \<noteq> []" by (simp only: set_empty) simp
    then show ?thesis by (simp only: index_files_def Let_def if_False)
  qed
  have "dom ?idx = {0..<n}"
  proof (intro set_eqI iffI)
    show "i \<in> dom ?idx \<Longrightarrow> i \<in> {0..<n}" for i using empty by (force simp: index_files_def Let_def split: if_splits)
    show "i \<in> {0..<n} \<Longrightarrow> i \<in> dom ?idx" for i using idx [of "nat i"] by auto
  qed
  moreover have "distinct (?L i)" for i by simp
  ultimately show ?thesis using group L idx by (intro exI [of _ ?idx]) simp
qed

lemma mapreduce_run:
  assumes reg: "get_mapper factory uid = Some mapper" "get_reducer factory uid = Some reducer" and n: "0 < n" "in_int n"
    and jobs: "jobs_ok (contents fs) jobs" "jobs \<noteq> []"
    and kvs: "mset (concat (map (\<lambda>job. shard_pairs mapper (contents fs) (snd job)) jobs)) = mset kvs" "\<And>kv. kv \<in> set kvs \<Longrightarrow> clean_pair kv"
    and disk: "disk_ok dir fs"
    and out: "\<And>k vs. k \<in> fst ` set kvs \<Longrightarrow> mset vs = mset (values_of k kvs) \<Longrightarrow> reducer k vs = Inr (out k vs)"
  shows "\<exists>names fs1 idx. map_phase hash factory uid n jobs ({}, fs) = Inr (names, fs1) \<and> group_files names = Inr idx \<and>
    dom idx = {0..<n} \<and> (\<forall>parts. distinct parts \<and> set parts = dom idx \<longrightarrow>
      (\<exists>fs2. reduce_phase factory uid dir idx parts ([], fs1) = Inr (map (output_name dir) parts, fs2) \<and>
        (\<forall>i\<in>dom idx. \<exists>w. file_text fs2 (output_name dir i) = group_text out w \<and> map fst w = bucket_keys hash n kvs i \<and>
           (\<forall>g\<in>set w. mset (snd g) = mset (values_of (fst g) kvs)))))"
proof -
  let ?sp = "shard_pairs mapper (contents fs)" and ?names = "phase_names n jobs"
  have ii: "in_int (int i)" if "i < nat n" for i using that n by (simp add: in_int_def INT_MIN_def)
  have "\<forall>f. is_intermediate f \<longrightarrow> writable fs f \<and> contents fs f = None" using disk by (simp add: disk_ok_def)
  from map_phase_run [OF reg(1) n jobs(1) this, of hash] obtain fs1 where
    fs1: "map_phase hash factory uid n jobs ({}, fs) = Inr (?names, fs1)" "writable fs1 = writable fs"
    "\<And>port i. i < nat n \<Longrightarrow> file_text fs1 (intermediate_name port (int i)) =
       concat (map pair_line (name_pairs hash n ?sp jobs i (intermediate_name port (int i))))"
    "\<And>f. \<not> is_intermediate f \<Longrightarrow> contents fs1 f = contents fs f" by blast
  from phase_grouping [OF n(2) jobs(2)] obtain idx where group: "group_files ?names = Inr idx" and dom: "dom idx = {0..<n}"
    and L: "\<And>i. i < nat n \<Longrightarrow> distinct (the (idx (int i)))"
      "\<And>i. i < nat n \<Longrightarrow> set (the (idx (int i))) = (\<lambda>job. intermediate_name (fst job) (int i)) ` set jobs" by blast
  let ?ps = "\<lambda>i f. name_pairs hash n ?sp jobs (nat i) f" and ?g = "\<lambda>i. group_pairs (concat (map (name_pairs hash n ?sp jobs (nat i)) (the (idx i))))"
  have g: "map fst (?g i) = bucket_keys hash n kvs i" "\<And>x. x \<in> set (?g i) \<Longrightarrow> mset (snd x) = mset (values_of (fst x) kvs)" if "i \<in> dom idx" for i
  proof -
    have i: "nat i < nat n" "int (nat i) = i" using that dom by auto
    have mem: "intermediate_name (fst job) (int (nat i)) \<in> set (the (idx i))" if "job \<in> set jobs" for job
      using L(2) [OF i(1)] i(2) that by simp
    note pg = partition_groups [where hash = hash and n = n and sp = ?sp and i = "nat i" and L = "the (idx i)",
        OF L(1) [OF i(1), unfolded i(2)] mem kvs(1), unfolded i(2)]
    show "map fst (?g i) = bucket_keys hash n kvs i" by (rule pg(1))
    show "\<And>x. x \<in> set (?g i) \<Longrightarrow> mset (snd x) = mset (values_of (fst x) kvs)" by (rule pg(2))
  qed
  have clean: "clean_pair kv" if "kv \<in> set (?ps i f)" for i f kv
  proof -
    have "kv \<in> set (concat (map (\<lambda>job. ?sp (snd job)) jobs))" using that by (auto simp: name_pairs_def bucket_pairs_def split: if_splits)
    then show ?thesis using kvs mset_eq_setD [OF kvs(1)] by blast
  qed
  have fls: "(\<forall>j. f \<noteq> output_name dir j) \<and> (case contents fs1 f of None \<Rightarrow> ?ps i f = [] | Some c \<Rightarrow> c = concat (map pair_line (?ps i f)))"
    if i0: "i \<in> dom idx" "f \<in> set (the (idx i))" for i f
  proof -
    have i: "nat i < nat n" "int (nat i) = i" using i0(1) dom by auto
    obtain port where f: "f = intermediate_name port i" using i0(2) L(2) [OF i(1)] i(2) by auto
    then have "\<forall>j. f \<noteq> output_name dir j" using disk intermediate_name_is unfolding disk_ok_def by metis
    moreover have "?ps i f = []" if "concat (map pair_line (?ps i f)) = []" using that by (cases "?ps i f") (simp_all add: pair_line_def)
    moreover note fs1(3) [OF i(1), of port, unfolded i(2), folded f]
    ultimately show ?thesis by (cases "contents fs1 f") simp_all
  qed
  have red: "reducer (fst x) (snd x) = Inr (out (fst x) (snd x))" if "i \<in> dom idx" "x \<in> set (?g i)" for i x
  proof -
    have "fst x \<in> set (bucket_keys hash n kvs i)" using g(1) [OF that(1)] that(2) by (metis imageI list.set_map)
    then show ?thesis using g(2) [OF that] by (intro out) (simp_all add: bucket_keys_def)
  qed
  have "\<exists>fs2. reduce_phase factory uid dir idx parts ([], fs1) = Inr (map (output_name dir) parts, fs2) \<and>
      (\<forall>i\<in>dom idx. \<exists>w. file_text fs2 (output_name dir i) = group_text out w \<and> map fst w = bucket_keys hash n kvs i \<and>
           (\<forall>g\<in>set w. mset (snd g) = mset (values_of (fst g) kvs)))" if parts: "distinct parts" "set parts = dom idx" for parts
  proof -
    have int: "\<forall>i\<in>set parts. in_int i" using n parts(2) dom by (auto simp: in_int_def INT_MIN_def)
    have outs: "\<forall>i\<in>set parts. writable fs1 (output_name dir i) \<and> contents fs1 (output_name dir i) = None"
      using disk fs1(2,4) by (simp add: disk_ok_def)
    from reduce_phase_run [where ps = ?ps and idx = idx and out = out, OF reg(2) parts(1) int outs] obtain fs2 where
      "reduce_phase factory uid dir idx parts ([], fs1) = Inr (map (output_name dir) parts, fs2)"
      "\<forall>i\<in>set parts. file_text fs2 (output_name dir i) = group_text out (?g i)"
      using fls clean red unfolding parts(2) by blast
    then show ?thesis using g unfolding parts(2) by blast
  qed
  then show ?thesis using fs1(1) group dom by blast
qed

section \<open>Word count\<close>

definition input_words :: "(string \<Rightarrow> string option) \<Rightarrow> string list \<Rightarrow> string list" where
  "input_words fs fl = concat (map (\<lambda>f. concat (map (\<lambda>l. words (c_string l)) (getlines newline (the (fs f))))) fl)"

text \<open>The reference: every word of the partition once, in order, with the number of its occurrences.\<close>

definition word_count_text :: "(string \<Rightarrow> u64) \<Rightarrow> int \<Rightarrow> string list \<Rightarrow> int \<Rightarrow> string" where
  "word_count_text hash n ws i =
     concat (map (\<lambda>w. w @ '' '' @ to_string (int (count_list ws w)) @ [newline])
       (sorted_list_of_set {w \<in> set ws. int (bucket hash n w) = i}))"

lemma input_pairs_words: "input_pairs UserMapper_map fs fl = map (\<lambda>w. (w, ''1'')) (input_words fs fl)"
proof -
  have "UserMapper_map = (\<lambda>l. map (\<lambda>w. (w, ''1'')) (words (c_string l)))" by (rule ext) (rule UserMapper_map_words)
  then show ?thesis by (simp add: input_pairs_def partition_pairs_def input_words_def map_concat comp_def)
qed

lemma values_of_words: "values_of k (map (\<lambda>w. (w, ''1'')) ws) = replicate (count_list ws k) ''1''"
  by (induction ws) (simp_all add: values_of_def)

lemma group_text_counts:
  assumes "map fst w = bucket_keys hash n (map (\<lambda>w. (w, ''1'')) ws) i"
    and "\<And>g. g \<in> set w \<Longrightarrow> mset (snd g) = mset (values_of (fst g) (map (\<lambda>w. (w, ''1'')) ws))"
  shows "group_text (\<lambda>k vs. [(k, to_string (int (length vs)))]) w = word_count_text hash n ws i"
proof -
  have len: "length (snd g) = count_list ws (fst g)" if "g \<in> set w" for g
    using arg_cong [OF assms(2) [OF that], of size] by (simp add: values_of_words)
  have "group_text (\<lambda>k vs. [(k, to_string (int (length vs)))]) w =
      concat (map (\<lambda>k. k @ '' '' @ to_string (int (count_list ws k)) @ [newline]) (map fst w))"
    using len by (auto simp: group_text_def result_line_def comp_def intro!: arg_cong [where f = concat])
  also have "{k \<in> fst ` set (map (\<lambda>w. (w, ''1'')) ws). int (bucket hash n k) = i} = {k \<in> set ws. int (bucket hash n k) = i}" by force
  then have "map fst w = sorted_list_of_set {k \<in> set ws. int (bucket hash n k) = i}" using assms(1) by (simp add: bucket_keys_def)
  finally show ?thesis by (simp only: word_count_text_def)
qed

lemma count_list_le: "count_list ws w \<le> length ws"
  by (induction ws) auto

section \<open>Properties\<close>

lemma mapreduce_job:
  assumes "0 < map_kilobytes spec" and "map_kilobytes spec \<le> 2097151" and "0 < n_output_files spec" and "in_int (n_output_files spec)"
    and "shard_files (contents fs) spec = Some (Inr (True, shards))" and "shards \<noteq> []" and "mset (map snd jobs) = mset shards"
    and "get_mapper factory (user_id spec) = Some mapper" and "get_reducer factory (user_id spec) = Some reducer"
    and "inputs_ok mapper (contents fs) (input_files spec)" and "clean_mapper mapper" and "disk_ok (output_dir spec) fs"
    and "\<And>k vs. mset vs = mset (values_of k (input_pairs mapper (contents fs) (input_files spec))) \<Longrightarrow> reducer k vs = Inr (out k vs)"
  shows "\<exists>names fs1 idx. map_phase hash factory (user_id spec) (n_output_files spec) jobs ({}, fs) = Inr (names, fs1) \<and>
    group_files names = Inr idx \<and> dom idx = {0..<n_output_files spec} \<and> (\<forall>parts. distinct parts \<and> set parts = dom idx \<longrightarrow>
      (\<exists>fs2. reduce_phase factory (user_id spec) (output_dir spec) idx parts ([], fs1) = Inr (map (output_name (output_dir spec)) parts, fs2) \<and>
        (\<forall>i\<in>dom idx. \<exists>w. file_text fs2 (output_name (output_dir spec) i) = group_text out w \<and>
           map fst w = bucket_keys hash (n_output_files spec) (input_pairs mapper (contents fs) (input_files spec)) i \<and>
           (\<forall>g\<in>set w. mset (snd g) = mset (values_of (fst g) (input_pairs mapper (contents fs) (input_files spec)))))))"
proof (rule mapreduce_run)
  note sj = shards_jobs [OF assms(1,2,5,10,7)]
  show "jobs_ok (contents fs) jobs" by (rule sj(1))
  show "mset (concat (map (\<lambda>job. shard_pairs mapper (contents fs) (snd job)) jobs)) = mset (input_pairs mapper (contents fs) (input_files spec))"
    by (rule sj(2))
  show "jobs \<noteq> []" using assms(6,7) by auto
  show "clean_pair kv" if "kv \<in> set (input_pairs mapper (contents fs) (input_files spec))" for kv
    by (rule input_pairs_clean [OF assms(11) that])
  show "reducer k vs = Inr (out k vs)" if "mset vs = mset (values_of k (input_pairs mapper (contents fs) (input_files spec)))" for k vs
    by (rule assms(13) [OF that])
qed (rule assms)+

lemma word_count_job:
  assumes "0 < map_kilobytes spec" and "map_kilobytes spec \<le> 2097151" and "0 < n_output_files spec" and "in_int (n_output_files spec)"
    and "shard_files (contents fs) spec = Some (Inr (True, shards))" and "shards \<noteq> []" and "mset (map snd jobs) = mset shards"
    and "get_mapper factory (user_id spec) = Some UserMapper_map" and "get_reducer factory (user_id spec) = Some UserReducer_reduce"
    and "\<And>f. f \<in> set (input_files spec) \<Longrightarrow> \<exists>c. contents fs f = Some c \<and> int (length c) < INT_MAX \<and> \<not> is_intermediate f"
    and "disk_ok (output_dir spec) fs" and "int (length (input_words (contents fs) (input_files spec))) \<le> INT_MAX"
  shows "\<exists>names fs1 idx. map_phase hash factory (user_id spec) (n_output_files spec) jobs ({}, fs) = Inr (names, fs1) \<and>
    group_files names = Inr idx \<and> dom idx = {0..<n_output_files spec} \<and> (\<forall>parts. distinct parts \<and> set parts = dom idx \<longrightarrow>
      (\<exists>fs2. reduce_phase factory (user_id spec) (output_dir spec) idx parts ([], fs1) = Inr (map (output_name (output_dir spec)) parts, fs2) \<and>
        (\<forall>i\<in>dom idx. file_text fs2 (output_name (output_dir spec) i) =
           word_count_text hash (n_output_files spec) (input_words (contents fs) (input_files spec)) i)))"
proof -
  let ?ws = "input_words (contents fs) (input_files spec)" and ?out = "\<lambda>k vs. [(k, to_string (int (length vs)))]"
  let ?kvs = "map (\<lambda>w. (w, ''1'')) ?ws" and ?n = "n_output_files spec"
  have ok: "inputs_ok UserMapper_map (contents fs) (input_files spec)"
    using assms(10) by (fastforce simp: inputs_ok_def nul_safe_def UserMapper_map_NUL split: option.splits)
  note sj = shards_jobs [OF assms(1,2,5) ok assms(7)]
  have red: "UserReducer_reduce k vs = Inr (?out k vs)" if "mset vs = mset (values_of k ?kvs)" for k vs
  proof (rule UserReducer_count)
    show "\<forall>v\<in>set vs. v = ''1''" using mset_eq_setD [OF that] by (simp add: values_of_words)
    have "length vs = count_list ?ws k" using arg_cong [OF that, of size] by (simp add: values_of_words)
    then show "int (length vs) \<le> INT_MAX" using count_list_le [of ?ws k] assms(12) by linarith
  qed
  have "jobs \<noteq> []" using assms(6,7) by auto
  moreover have "clean_pair kv" if "kv \<in> set ?kvs" for kv
    using that input_pairs_clean [of UserMapper_map kv] UserMapper_map_clean
    by (simp only: input_pairs_words [symmetric]) (simp add: clean_mapper_def)
  ultimately have run: "\<exists>names fs1 idx. map_phase hash factory (user_id spec) ?n jobs ({}, fs) = Inr (names, fs1) \<and>
    group_files names = Inr idx \<and> dom idx = {0..<?n} \<and> (\<forall>parts. distinct parts \<and> set parts = dom idx \<longrightarrow>
      (\<exists>fs2. reduce_phase factory (user_id spec) (output_dir spec) idx parts ([], fs1) = Inr (map (output_name (output_dir spec)) parts, fs2) \<and>
        (\<forall>i\<in>dom idx. \<exists>w. file_text fs2 (output_name (output_dir spec) i) = group_text ?out w \<and> map fst w = bucket_keys hash ?n ?kvs i \<and>
           (\<forall>g\<in>set w. mset (snd g) = mset (values_of (fst g) ?kvs)))))"
    using mapreduce_run [OF assms(8,9,3,4) sj(1) _ sj(2) _ assms(11), of ?out hash] red by (simp only: input_pairs_words) blast
  have "file_text fs2 f = word_count_text hash ?n ?ws i"
    if "\<exists>w. file_text fs2 f = group_text ?out w \<and> map fst w = bucket_keys hash ?n ?kvs i \<and>
           (\<forall>g\<in>set w. mset (snd g) = mset (values_of (fst g) ?kvs))" for fs2 f i
    using that group_text_counts [of _ hash ?n ?ws i] by metis
  with run show ?thesis by meson
qed

text \<open>
  C4: A run without failures computes what MapReduce promises. The shards of the input files are mapped
  by any workers in any order, the intermediate files are grouped, and the partitions are reduced
  in any order. Then every partition \<open>i\<close> has an output file, which holds what the reducer emits for the keys
  of that partition, in increasing order, each reduced once with all the values that the mapper emits for it
  on the lines of the input files.
\<close>

theorem mapreduce_correct:
  assumes "0 < map_kilobytes spec" and "map_kilobytes spec \<le> 2097151" and "0 < n_output_files spec" and "in_int (n_output_files spec)"
    and "shard_files (contents fs) spec = Some (Inr (True, shards))" and "shards \<noteq> []" and "mset (map snd jobs) = mset shards"
    and "get_mapper factory (user_id spec) = Some mapper" and "get_reducer factory (user_id spec) = Some reducer"
    and "inputs_ok mapper (contents fs) (input_files spec)" and "clean_mapper mapper" and "disk_ok (output_dir spec) fs"
    and "\<And>k vs. mset vs = mset (values_of k (input_pairs mapper (contents fs) (input_files spec))) \<Longrightarrow> reducer k vs = Inr (out k vs)"
  shows "\<exists>names fs1 idx. map_phase hash factory (user_id spec) (n_output_files spec) jobs ({}, fs) = Inr (names, fs1) \<and>
    group_files names = Inr idx \<and> dom idx = {0..<n_output_files spec} \<and> (\<forall>parts. distinct parts \<and> set parts = dom idx \<longrightarrow>
      (\<exists>fs2. reduce_phase factory (user_id spec) (output_dir spec) idx parts ([], fs1) = Inr (map (output_name (output_dir spec)) parts, fs2) \<and>
        (\<forall>i\<in>dom idx. \<exists>w. file_text fs2 (output_name (output_dir spec) i) = group_text out w \<and>
           map fst w = bucket_keys hash (n_output_files spec) (input_pairs mapper (contents fs) (input_files spec)) i \<and>
           (\<forall>g\<in>set w. mset (snd g) = mset (values_of (fst g) (input_pairs mapper (contents fs) (input_files spec)))))))"
  by (rule mapreduce_job) (fact assms)+

text \<open>A run on one input file of two lines, with shards of 1 KB and two workers.\<close>

definition demo_spec1 :: MapReduceSpec where
  "demo_spec1 = demo_spec\<lparr>map_kilobytes := 1\<rparr>"

definition demo_factory :: factory where
  "demo_factory = \<lparr>mappers = [''cs6210'' \<mapsto> UserMapper_map], reducers = [''cs6210'' \<mapsto> UserReducer_reduce]\<rparr>"

definition demo_input :: filesystem where
  "demo_input = \<lparr>contents = demo_fs, writable = (\<lambda>_. True)\<rparr>"

definition demo_jobs :: "(string \<times> FileShard) list" where
  "demo_jobs = zip [''50051'', ''50052''] demo_shards"

lemma demo_words: "input_words demo_fs [''input/a.txt''] = [replicate 1100 (CHR ''x''), ''tail'']"
proof -
  have "getlines newline demo_text = [replicate 1100 (CHR ''x''), ''tail'']"
    unfolding demo_text_def by (subst getlines_line) (simp_all add: newline_def getlines_last)
  moreover have "c_string (replicate 1100 (CHR ''x'')) = replicate 1100 (CHR ''x'')"
    unfolding c_string_def by (rule takeWhile_eq_all_conv [THEN iffD2]) (auto simp: NUL_def)
  moreover have "words (replicate 1100 (CHR ''x'')) = [replicate 1100 (CHR ''x'')]"
    using split_at_token [of "replicate 1100 (CHR ''x'')" "\<lambda>c. c \<in> set delims" "[]"] by (simp add: words_def delims_def)
  ultimately show ?thesis by (simp add: input_words_def demo_fs_def c_string_def NUL_def words_def delims_def)
qed

lemma demo_inputs:
  "contents demo_input f = (if f = ''input/a.txt'' then Some demo_text else None)" "writable demo_input f" "length demo_text = 1105"
  by (simp_all add: demo_input_def demo_fs_def demo_text_def)

lemma demo_disk_ok: "disk_ok ''output'' demo_input"
  by (simp add: disk_ok_def demo_inputs is_intermediate_def output_name_def)

text \<open>A line count: every line gives the same key.\<close>

definition line_factory :: factory where
  "line_factory = \<lparr>mappers = [''cs6210'' \<mapsto> (\<lambda>l. [(''lines'', ''1'')])],
     reducers = [''cs6210'' \<mapsto> (\<lambda>k vs. Inr [(k, to_string (int (length vs)))])]\<rparr>"

theorem mapreduce_correct_witness:
  "\<exists>names fs1 idx. map_phase (\<lambda>k. of_nat (length k)) line_factory ''cs6210'' 8 demo_jobs ({}, demo_input) = Inr (names, fs1) \<and>
    group_files names = Inr idx \<and> dom idx = {0..<8}"
  using mapreduce_correct [of demo_spec1 demo_input demo_shards demo_jobs line_factory "\<lambda>l. [(''lines'', ''1'')]"
      "\<lambda>k vs. Inr [(k, to_string (int (length vs)))]" "\<lambda>k vs. [(k, to_string (int (length vs)))]" "\<lambda>k. of_nat (length k)"] demo_run demo_disk_ok
  by (simp add: demo_spec1_def demo_spec_def demo_jobs_def demo_shards_def line_factory_def get_mapper_def get_reducer_def demo_inputs
    inputs_ok_def nul_safe_def clean_mapper_def clean_pair_def newline_def in_int_def INT_MAX_def INT_MIN_def is_intermediate_def)
    (auto simp: demo_input_def)

end
