(* ===== verification/Master.thy ===== *)
theory Master
  imports MapReduceRun "HOL-Library.Sublist"
begin

text \<open>
  The bookkeeping of the MapReduce master: the data members and the handlers of \<^verbatim>\<open>project4/src/master.cc\<close>
  with the clients of \<^verbatim>\<open>worker_client.cc\<close> and the calls of \<^verbatim>\<open>client_call.h\<close>. Every definition is a piece
  of code that no other thread interleaves with; \<open>MasterRun\<close> composes them into the threads of the master. The lemmas
  show that every handler keeps two invariants: \<open>clients_ok\<close> on the workers and \<open>counters_ok\<close> on the jobs.
\<close>

section \<open>Clients, calls and the state of the master\<close>

record WorkerClient =
  map_shards :: "FileShard list"
  reduce_partitions :: "int list"
  completed_map_jobs :: int
  completed_reduce_jobs :: int

definition new_WorkerClient :: WorkerClient where
  "new_WorkerClient = \<lparr>map_shards = [], reduce_partitions = [], completed_map_jobs = 0, completed_reduce_jobs = 0\<rparr>"

record ClientCall =
  is_map_job :: bool
  status_ok :: bool
  worker_ip_addr :: string
  result_files :: "string list"

datatype rpc = MapRpc string MapQuery | ReduceRpc string ReduceQuery

text \<open>
  An entry of \<open>ip_addr2worker\<close> may hold a null pointer: \<open>operator[]\<close> inserts one when it finds nothing.
  \<open>sent\<close> holds the calls whose response has not been counted, \<open>removed\<close> the files that were deleted.
\<close>

record Master =
  m_user_id :: string
  m_output_dir :: string
  num_workers :: int
  num_dropped_workers :: int
  num_dropped_map_jobs :: int
  num_dropped_reduce_jobs :: int
  num_map_msgs :: int
  num_reduce_msgs :: int
  num_shards :: int
  m_num_partitions :: int
  map_complete :: bool
  reduce_complete :: bool
  worker_ips :: "string list"
  dropped_worker_ips :: "string list"
  ip_addr2worker :: "string \<Rightarrow> WorkerClient option option"
  ready_queue :: "string list"
  m_shards :: "FileShard list"
  unfinished_shards :: "FileShard list"
  m_partitions :: "int list"
  unfinished_partitions :: "int list"
  worker2job :: "string \<Rightarrow> int option"
  m_intermediate_files :: "string set"
  output_files :: "string list"
  sent :: "rpc list"
  removed :: "string list"

definition add_worker :: "string \<Rightarrow> Master \<Rightarrow> Master" where
  "add_worker ip m = m\<lparr>ip_addr2worker := (ip_addr2worker m)(ip \<mapsto> Some new_WorkerClient),
     ready_queue := ready_queue m @ [ip], worker_ips := worker_ips m @ [ip]\<rparr>"

definition new_Master :: "MapReduceSpec \<Rightarrow> FileShard list \<Rightarrow> Master outcome" where
  "new_Master spec file_shards =
     foldm (\<lambda>i m. bnd (rd (worker_ipaddr_ports spec) (int i)) (\<lambda>ip. Inr (add_worker ip m))) [0..<nat (n_workers spec)]
       \<lparr>m_user_id = user_id spec, m_output_dir = output_dir spec, num_workers = n_workers spec, num_dropped_workers = 0,
        num_dropped_map_jobs = 0, num_dropped_reduce_jobs = 0, num_map_msgs = 0, num_reduce_msgs = 0,
        num_shards = int (length file_shards), m_num_partitions = n_output_files spec, map_complete = False, reduce_complete = False,
        worker_ips = [], dropped_worker_ips = [], ip_addr2worker = Map.empty, ready_queue = [], m_shards = file_shards,
        unfinished_shards = [], m_partitions = [], unfinished_partitions = [], worker2job = Map.empty, m_intermediate_files = {},
        output_files = [], sent = [], removed = []\<rparr>"

text \<open>\<open>ip_addr2worker[ip].get()\<close>.\<close>

definition client_at :: "string \<Rightarrow> Master \<Rightarrow> WorkerClient option \<times> Master" where
  "client_at ip m = (case ip_addr2worker m ip of
       None \<Rightarrow> (None, m\<lparr>ip_addr2worker := (ip_addr2worker m)(ip \<mapsto> None)\<rparr>)
     | Some c \<Rightarrow> (c, m))"

section \<open>Failed workers\<close>

definition remove_worker_ip :: "string \<Rightarrow> Master \<Rightarrow> Master" where
  "remove_worker_ip ip m = m\<lparr>worker2job := (worker2job m)(ip := None), ip_addr2worker := (ip_addr2worker m)(ip := None),
     worker_ips := remove1 ip (worker_ips m), dropped_worker_ips := dropped_worker_ips m @ [ip]\<rparr>"

text \<open>The loop over the intermediate files stops after the first one whose name contains the port.\<close>

definition remove_intermediate_file :: "string \<Rightarrow> Master \<Rightarrow> Master" where
  "remove_intermediate_file base m = (case find (\<lambda>f. sublist base f) (sorted_list_of_set (m_intermediate_files m)) of
       None \<Rightarrow> m
     | Some f \<Rightarrow> m\<lparr>m_intermediate_files := m_intermediate_files m - {f}, removed := removed m @ [f]\<rparr>)"

definition handle_worker_failure :: "string \<Rightarrow> Master \<Rightarrow> Master outcome" where
  "handle_worker_failure ip m =
     (if \<not> map_complete m then
        case client_at ip m of
          (None, m) \<Rightarrow> Inr m
        | (Some client, m) \<Rightarrow>
            let m = m\<lparr>unfinished_shards := unfinished_shards m @ map_shards client,
                      num_dropped_map_jobs := num_dropped_map_jobs m + completed_map_jobs client\<rparr>;
                m = remove_worker_ip ip m
            in bnd (substr ip (find_first (CHR '':'') ip + 1) npos) (\<lambda>base.
               let m = remove_intermediate_file base m
               in Inr (m\<lparr>num_workers := num_workers m - 1, num_dropped_workers := num_dropped_workers m + 1\<rparr>))
      else
        case client_at ip m of
          (None, m) \<Rightarrow> Inl BadPointer
        | (Some client, m) \<Rightarrow>
            let m = m\<lparr>unfinished_partitions := unfinished_partitions m @ reduce_partitions client,
                      removed := removed m @ map (output_name (m_output_dir m)) (reduce_partitions client),
                      num_dropped_reduce_jobs := num_dropped_reduce_jobs m + completed_reduce_jobs client\<rparr>;
                m = remove_worker_ip ip m
            in Inr (m\<lparr>num_workers := num_workers m - 1, num_dropped_workers := num_dropped_workers m + 1\<rparr>))"

text \<open>
  The loop of the monitor that waits for the pongs of a round: every event is the address of a worker and
  whether the ping failed. The bound \<open>num_workers\<close> is read again in every iteration. \<open>None\<close>: the
  loop waits for an event that has not come.
\<close>

fun receive_pongs :: "nat \<Rightarrow> (string \<times> bool) list \<Rightarrow> Master \<Rightarrow> ((string \<times> bool) list \<times> Master) outcome option" where
  "receive_pongs i [] m = (if int i < num_workers m then None else Some (Inr ([], m)))"
| "receive_pongs i ((ip, error_msg) # events) m =
     (if int i < num_workers m then
        if error_msg then
          case handle_worker_failure ip m of
            Inl e \<Rightarrow> Some (Inl e)
          | Inr m \<Rightarrow> receive_pongs (Suc i) events m
        else receive_pongs (Suc i) events m
      else Some (Inr ((ip, error_msg) # events, m)))"

section \<open>Responses\<close>

text \<open>
  \<open>poll_response\<close>: what happens with a completed call before its client is looked up, and whether it is.
  \<open>count_response\<close>: the client is looked up, it may have been dropped meanwhile, and the call is counted.
\<close>

definition poll_response :: "ClientCall \<Rightarrow> Master \<Rightarrow> bool \<times> Master" where
  "poll_response call m =
     (if status_ok call then
        if worker_ip_addr call \<notin> set (worker_ips m) then (False, m)
        else (True, m\<lparr>ready_queue := ready_queue m @ [worker_ip_addr call], worker2job := (worker2job m)(worker_ip_addr call := None)\<rparr>)
      else if is_map_job call then (False, m\<lparr>num_dropped_map_jobs := num_dropped_map_jobs m + 1\<rparr>)
      else (False, m\<lparr>num_dropped_reduce_jobs := num_dropped_reduce_jobs m + 1\<rparr>))"

definition count_response :: "ClientCall \<Rightarrow> Master \<Rightarrow> Master" where
  "count_response call m = (case client_at (worker_ip_addr call) m of
       (None, m) \<Rightarrow> m
     | (Some client, m) \<Rightarrow>
         if is_map_job call then
           m\<lparr>num_map_msgs := num_map_msgs m + 1,
             ip_addr2worker := (ip_addr2worker m)(worker_ip_addr call \<mapsto> Some (client\<lparr>completed_map_jobs := completed_map_jobs client + 1\<rparr>)),
             m_intermediate_files := m_intermediate_files m \<union> set (result_files call)\<rparr>
         else
           m\<lparr>num_reduce_msgs := num_reduce_msgs m + 1,
             ip_addr2worker := (ip_addr2worker m)(worker_ip_addr call \<mapsto> Some (client\<lparr>completed_reduce_jobs := completed_reduce_jobs client + 1\<rparr>)),
             output_files := output_files m @ result_files call\<rparr>)"

text \<open>
  \<open>cleanup\<close>: after every response the thread that polls sees whether the main thread waits for it. \<open>Polling\<close>: it waits for
  a response, \<open>Counting\<close>: it has found the worker of a response in use, \<open>Cleanup\<close>: it is at that label,
  \<open>Notified is_map\<close>: it has notified the main thread and waits, \<open>PollReturned\<close>: it has ended.
\<close>

datatype poll_pc = Polling | Counting rpc ClientCall | Cleanup | Notified bool | PollReturned

definition notify_master :: "Master \<Rightarrow> bool" where
  "notify_master m \<longleftrightarrow>
     num_dropped_workers m = 0 \<and> num_map_msgs m - num_dropped_map_jobs m = num_shards m \<and> \<not> map_complete m \<or>
     num_dropped_workers m = 0 \<and> num_reduce_msgs m - num_dropped_reduce_jobs m = m_num_partitions m \<and> \<not> reduce_complete m \<or>
     num_dropped_workers m > 0"

definition poll_cleanup :: "bool \<Rightarrow> Master \<Rightarrow> bool \<times> poll_pc" where
  "poll_cleanup map_reduce_flag m =
     (if map_reduce_flag \<and> notify_master m then (False, Notified (\<not> map_complete m))
      else (map_reduce_flag, if reduce_complete m then PollReturned else Polling))"

definition poll_resume :: "bool \<Rightarrow> Master \<Rightarrow> poll_pc" where
  "poll_resume is_map m = (if map_complete m \<and> is_map \<or> reduce_complete m \<and> \<not> is_map then PollReturned else Polling)"

section \<open>The main thread\<close>

text \<open>What \<open>schedule_monitor\<close> decides after a round of the monitor.\<close>

definition schedule_monitor :: "Master \<Rightarrow> Master" where
  "schedule_monitor m =
     (let m = (if \<not> map_complete m then
                 if unfinished_shards m = [] \<and> num_map_msgs m - num_dropped_map_jobs m = num_shards m
                 then m\<lparr>map_complete := True\<rparr> else m
               else if \<not> reduce_complete m then
                 if unfinished_partitions m = [] \<and> int (length (output_files m)) = m_num_partitions m
                 then m\<lparr>reduce_complete := True\<rparr> else m
               else m)
      in m\<lparr>num_dropped_workers := 0\<rparr>)"

definition send_mapper_job :: "string \<Rightarrow> FileShard \<Rightarrow> Master \<Rightarrow> Master outcome" where
  "send_mapper_job ip s m = (case client_at ip m of
       (None, m) \<Rightarrow> Inl BadPointer
     | (Some client, m) \<Rightarrow>
         bnd (map_query (m_user_id m) (m_num_partitions m) s) (\<lambda>query.
         Inr (m\<lparr>ip_addr2worker := (ip_addr2worker m)(ip \<mapsto> Some (client\<lparr>map_shards := map_shards client @ [s]\<rparr>)),
                sent := sent m @ [MapRpc ip query]\<rparr>)))"

definition send_reducer_job :: "string \<Rightarrow> int \<Rightarrow> string list \<Rightarrow> Master \<Rightarrow> Master outcome" where
  "send_reducer_job ip partition_id fl m = (case client_at ip m of
       (None, m) \<Rightarrow> Inl BadPointer
     | (Some client, m) \<Rightarrow> Inr (m\<lparr>sent := sent m @ [ReduceRpc ip (reduce_query (m_user_id m) partition_id (m_output_dir m) fl)]\<rparr>))"

text \<open>
  The part of the loops over shards and partitions that holds the lock: the next ready worker is taken, a dropped one is
  skipped.
\<close>

definition take_ready :: "int \<Rightarrow> Master \<Rightarrow> string option \<times> Master" where
  "take_ready job m = (case ready_queue m of
       [] \<Rightarrow> (None, m)
     | worker_ip # rest \<Rightarrow>
         let m = m\<lparr>ready_queue := rest\<rparr>
         in if worker_ip \<in> set (dropped_worker_ips m) then (None, m)
            else (Some worker_ip, m\<lparr>worker2job := (worker2job m)(worker_ip \<mapsto> job)\<rparr>))"

text \<open>The end of a round: is the phase complete, and which jobs are sent in the next round?\<close>

definition end_map_round :: "Master \<Rightarrow> bool \<times> Master" where
  "end_map_round m =
     (let complete = (unfinished_shards m = [] \<and> map_complete m);
          m = (if complete then m\<lparr>m_shards := []\<rparr> else m);
          m = (if unfinished_shards m \<noteq> [] then m\<lparr>m_shards := unfinished_shards m, unfinished_shards := []\<rparr> else m)
      in (complete, m))"

definition end_reduce_round :: "Master \<Rightarrow> bool \<times> Master" where
  "end_reduce_round m =
     (let complete = (unfinished_partitions m = [] \<and> reduce_complete m);
          m = (if complete then m\<lparr>m_partitions := []\<rparr> else m);
          m = (if unfinished_partitions m \<noteq> [] then m\<lparr>m_partitions := unfinished_partitions m, unfinished_partitions := []\<rparr> else m)
      in (complete, m))"

text \<open>The end of \<open>run\<close>: the intermediate files are deleted.\<close>

definition delete_intermediate_files :: "Master \<Rightarrow> Master" where
  "delete_intermediate_files m = m\<lparr>removed := removed m @ sorted_list_of_set (m_intermediate_files m)\<rparr>"

section \<open>Invariant\<close>

definition cl :: "Master \<Rightarrow> string \<Rightarrow> WorkerClient" where
  "cl m ip = the (the (ip_addr2worker m ip))"

definition live :: "Master \<Rightarrow> string \<Rightarrow> bool" where
  "live m ip \<longleftrightarrow> (\<exists>c. ip_addr2worker m ip = Some (Some c))"

definition shard_ok :: "FileShard \<Rightarrow> bool" where
  "shard_ok s \<longleftrightarrow> length (files s) = length (offsets s)"

definition is_map_rpc :: "string \<Rightarrow> rpc \<Rightarrow> bool" where
  "is_map_rpc ip r = (case r of MapRpc w q \<Rightarrow> w = ip | ReduceRpc w q \<Rightarrow> False)"

text \<open>The clients: exactly the workers that have not been dropped; no client ever records a partition.\<close>

definition clients_ok :: "Master \<Rightarrow> bool" where
  "clients_ok m \<longleftrightarrow> distinct (worker_ips m) \<and> num_workers m = int (length (worker_ips m)) \<and>
     (\<forall>ip. live m ip \<longleftrightarrow> ip \<in> set (worker_ips m)) \<and> set (ready_queue m) \<subseteq> set (worker_ips m) \<union> set (dropped_worker_ips m) \<and>
     set (worker_ips m) \<inter> set (dropped_worker_ips m) = {} \<and> unfinished_partitions m = [] \<and>
     (\<forall>ip\<in>set (worker_ips m). reduce_partitions (cl m ip) = [] \<and> list_all shard_ok (map_shards (cl m ip)) \<and>
        completed_map_jobs (cl m ip) + int (length (filter (is_map_rpc ip) (sent m))) \<le> int (length (map_shards (cl m ip)))) \<and>
     list_all shard_ok (m_shards m) \<and> list_all shard_ok (unfinished_shards m)"

text \<open>
  The counters of the map phase: \<open>u\<close> are the shards of the current round that have not been sent, \<open>e\<close> the calls that
  ended with an error, \<open>r\<close> whether shards have been sent twice.
\<close>

definition counters_ok :: "FileShard list \<Rightarrow> nat \<Rightarrow> bool \<Rightarrow> FileShard list \<Rightarrow> Master \<Rightarrow> bool" where
  "counters_ok all e r u m \<longleftrightarrow>
     num_map_msgs m - num_dropped_map_jobs m = (\<Sum>ip\<leftarrow>worker_ips m. completed_map_jobs (cl m ip)) - int e \<and>
     (\<not> r \<longrightarrow> (\<Sum>ip\<leftarrow>worker_ips m. int (length (map_shards (cl m ip)))) + int (length u) + int (length (unfinished_shards m)) = num_shards m) \<and>
     (\<forall>s\<in>set all. s \<in> set u \<or> s \<in> set (unfinished_shards m) \<or> (\<exists>ip\<in>set (worker_ips m). s \<in> set (map_shards (cl m ip))))"

text \<open>Every name that a map job reports has an index, so the grouping cannot throw.\<close>

definition names_ok :: "Master \<Rightarrow> bool" where
  "names_ok m \<longleftrightarrow> in_int (m_num_partitions m) \<and> finite (m_intermediate_files m) \<and>
     (\<forall>f\<in>m_intermediate_files m. \<exists>i. file_index f = Inr i) \<and> (\<forall>ip q. MapRpc ip q \<in> set (sent m) \<longrightarrow> in_int (mq_n_partitions q))"

lemma sum_list_one:
  fixes f g :: "'a \<Rightarrow> int"
  assumes "distinct xs" and "x \<in> set xs" and "\<And>y. y \<noteq> x \<Longrightarrow> f y = g y"
  shows "sum_list (map g xs) = sum_list (map f xs) - f x + g x"
  using assms(1,2)
proof (induction xs)
  case (Cons y ys)
  show ?case
  proof (cases "y = x")
    case True
    have "g z = f z" if "z \<in> set ys" for z using that True Cons.prems(1) assms(3) [of z] by (metis distinct.simps(2))
    then have "map g ys = map f ys" by simp
    then have "sum_list (map g ys) = sum_list (map f ys)" by (rule arg_cong)
    then show ?thesis using True by simp
  next
    case False
    then show ?thesis using Cons assms(3) [OF False] by simp
  qed
qed simp

lemma client_at_live: "live m ip \<Longrightarrow> client_at ip m = (Some (cl m ip), m)"
  by (auto simp: live_def client_at_def cl_def)

lemma clients_okD:
  assumes "clients_ok m"
  shows "distinct (worker_ips m)" and "num_workers m = int (length (worker_ips m))" and "\<And>ip. live m ip \<longleftrightarrow> ip \<in> set (worker_ips m)"
    and "\<And>ip. ip \<in> set (ready_queue m) \<Longrightarrow> ip \<in> set (worker_ips m) \<or> ip \<in> set (dropped_worker_ips m)"
    and "set (worker_ips m) \<inter> set (dropped_worker_ips m) = {}" and "unfinished_partitions m = []"
    and "\<And>ip. ip \<in> set (worker_ips m) \<Longrightarrow> reduce_partitions (cl m ip) = []"
    and "\<And>ip. ip \<in> set (worker_ips m) \<Longrightarrow> list_all shard_ok (map_shards (cl m ip))"
    and "\<And>ip. ip \<in> set (worker_ips m) \<Longrightarrow>
      completed_map_jobs (cl m ip) + int (length (filter (is_map_rpc ip) (sent m))) \<le> int (length (map_shards (cl m ip)))"
    and "list_all shard_ok (m_shards m)" and "list_all shard_ok (unfinished_shards m)"
  using assms unfolding clients_ok_def by blast+

lemma clients_okI:
  assumes "distinct (worker_ips m)" and "num_workers m = int (length (worker_ips m))" and "\<And>ip. live m ip \<longleftrightarrow> ip \<in> set (worker_ips m)"
    and "\<And>ip. ip \<in> set (ready_queue m) \<Longrightarrow> ip \<in> set (worker_ips m) \<or> ip \<in> set (dropped_worker_ips m)"
    and "set (worker_ips m) \<inter> set (dropped_worker_ips m) = {}" and "unfinished_partitions m = []"
    and "\<And>ip. ip \<in> set (worker_ips m) \<Longrightarrow> reduce_partitions (cl m ip) = []"
    and "\<And>ip. ip \<in> set (worker_ips m) \<Longrightarrow> list_all shard_ok (map_shards (cl m ip))"
    and "\<And>ip. ip \<in> set (worker_ips m) \<Longrightarrow>
      completed_map_jobs (cl m ip) + int (length (filter (is_map_rpc ip) (sent m))) \<le> int (length (map_shards (cl m ip)))"
    and "list_all shard_ok (m_shards m)" and "list_all shard_ok (unfinished_shards m)"
  shows "clients_ok m"
  unfolding clients_ok_def using assms by blast

text \<open>The constructor.\<close>

lemma fold_add_worker:
  "fold add_worker ips m = m\<lparr>ip_addr2worker := (\<lambda>ip. if ip \<in> set ips then Some (Some new_WorkerClient) else ip_addr2worker m ip),
     ready_queue := ready_queue m @ ips, worker_ips := worker_ips m @ ips\<rparr>"
  by (induction ips arbitrary: m) (auto simp: add_worker_def fun_eq_iff)

lemma foldm_add_worker:
  "k \<le> length ips \<Longrightarrow> foldm (\<lambda>i m. bnd (rd ips (int i)) (\<lambda>ip. Inr (add_worker ip m))) [0..<k] m = Inr (fold add_worker (take k ips) m)"
  by (induction k) (simp_all add: foldm_append take_Suc_conv_app_nth)

lemma new_Master_ok:
  assumes "n_workers spec = int (length (worker_ipaddr_ports spec))" and "distinct (worker_ipaddr_ports spec)" and "list_all shard_ok fl"
  shows "\<exists>m. new_Master spec fl = Inr m \<and> clients_ok m \<and> counters_ok fl 0 False fl m \<and> m_shards m = fl \<and>
    \<not> map_complete m \<and> worker_ips m = worker_ipaddr_ports spec"
proof -
  let ?ips = "worker_ipaddr_ports spec"
  have run: "\<exists>m. new_Master spec fl = Inr m \<and> worker_ips m = ?ips \<and> ready_queue m = ?ips \<and> dropped_worker_ips m = [] \<and> sent m = [] \<and>
      ip_addr2worker m = (\<lambda>ip. if ip \<in> set ?ips then Some (Some new_WorkerClient) else None) \<and> num_workers m = n_workers spec \<and>
      m_shards m = fl \<and> unfinished_shards m = [] \<and> unfinished_partitions m = [] \<and> \<not> map_complete m \<and> num_map_msgs m = 0 \<and>
      num_dropped_map_jobs m = 0 \<and> num_shards m = int (length fl)"
    using foldm_add_worker [of "length ?ips" ?ips] by (simp add: new_Master_def assms(1) fold_add_worker fun_eq_iff)
  then obtain m where m: "new_Master spec fl = Inr m" "worker_ips m = ?ips" "ready_queue m = ?ips" "dropped_worker_ips m = []" "sent m = []"
      "ip_addr2worker m = (\<lambda>ip. if ip \<in> set ?ips then Some (Some new_WorkerClient) else None)" "num_workers m = n_workers spec"
      "m_shards m = fl" "unfinished_shards m = []" "unfinished_partitions m = []" "\<not> map_complete m" "num_map_msgs m = 0"
      "num_dropped_map_jobs m = 0" "num_shards m = int (length fl)" by blast
  have c: "live m ip = (ip \<in> set ?ips)" "ip \<in> set ?ips \<Longrightarrow> cl m ip = new_WorkerClient" for ip
    using m(6) by (simp_all add: live_def cl_def)
  have "clients_ok m" by (rule clients_okI) (use m c assms in \<open>auto simp: new_WorkerClient_def\<close>)
  have sum: "(\<Sum>ip\<leftarrow>?ips. f (cl m ip)) = 0" if "f new_WorkerClient = (0::int)" for f
  proof -
    have "map (\<lambda>ip. f (cl m ip)) ?ips = map (\<lambda>_. 0) ?ips" using c(2) that by simp
    then show ?thesis by (metis sum_list_0)
  qed
  have "counters_ok fl 0 False fl m"
    using m sum [of completed_map_jobs] sum [of "\<lambda>c. int (length (map_shards c))"] by (simp add: counters_ok_def new_WorkerClient_def)
  with \<open>clients_ok m\<close> show ?thesis using m by blast
qed

text \<open>Sending a job: only the chosen client and the calls in flight change.\<close>

lemma send_job_ok:
  assumes "clients_ok m" and "ip \<in> set (worker_ips m)" and "shard_ok s"
  shows "\<exists>m'. send_mapper_job ip s m = Inr m' \<and> clients_ok m' \<and> map_complete m' = map_complete m \<and> m_shards m' = m_shards m \<and>
    set (sent m) \<subseteq> set (sent m') \<and> (counters_ok all e r (s # u) m \<longrightarrow> counters_ok all e r u m')"
proof -
  note D = clients_okD [OF assms(1)]
  let ?c = "cl m ip"
  have lv: "live m ip" using D(3) assms(2) by simp
  obtain q where q: "map_query (m_user_id m) (m_num_partitions m) s = Inr q" using map_query_pieces assms(3) by (auto simp: shard_ok_def)
  let ?m = "m\<lparr>ip_addr2worker := (ip_addr2worker m)(ip \<mapsto> Some (?c\<lparr>map_shards := map_shards ?c @ [s]\<rparr>)), sent := sent m @ [MapRpc ip q]\<rparr>"
  have run: "send_mapper_job ip s m = Inr ?m"
    using lv q by (simp add: send_mapper_job_def client_at_live)
  have c: "cl ?m w = (if w = ip then ?c\<lparr>map_shards := map_shards ?c @ [s]\<rparr> else cl m w)" "live ?m w = live m w" for w
    using D(3) assms(2) by (auto simp: cl_def live_def)
  have f: "worker_ips ?m = worker_ips m" "num_workers ?m = num_workers m" "ready_queue ?m = ready_queue m" "dropped_worker_ips ?m = dropped_worker_ips m"
    "unfinished_partitions ?m = unfinished_partitions m" "sent ?m = sent m @ [MapRpc ip q]" "m_shards ?m = m_shards m"
    "unfinished_shards ?m = unfinished_shards m" "num_map_msgs ?m = num_map_msgs m" "num_dropped_map_jobs ?m = num_dropped_map_jobs m"
    "num_shards ?m = num_shards m" "map_complete ?m = map_complete m" by simp_all
  have "clients_ok ?m"
  proof (rule clients_okI)
    show "completed_map_jobs (cl ?m w) + int (length (filter (is_map_rpc w) (sent ?m))) \<le> int (length (map_shards (cl ?m w)))"
      if "w \<in> set (worker_ips ?m)" for w using that D(9) [of w] by (simp only: f c) (auto simp: is_map_rpc_def)
    show "w \<in> set (worker_ips ?m) \<or> w \<in> set (dropped_worker_ips ?m)" if "w \<in> set (ready_queue ?m)" for w
      using that D(4) unfolding f by blast
  qed (use D assms(3) in \<open>auto simp only: f c\<close>, auto simp: list_all_iff)
  moreover have "counters_ok all e r u ?m" if co: "counters_ok all e r (s # u) m"
  proof -
    have s1: "(\<Sum>w\<leftarrow>worker_ips m. completed_map_jobs (cl ?m w)) = (\<Sum>w\<leftarrow>worker_ips m. completed_map_jobs (cl m w))"
      by (intro arg_cong [where f = sum_list] map_cong refl) (simp add: c)
    have s2: "(\<Sum>w\<leftarrow>worker_ips m. int (length (map_shards (cl ?m w)))) = (\<Sum>w\<leftarrow>worker_ips m. int (length (map_shards (cl m w)))) + 1"
      using sum_list_one [OF D(1) assms(2), of "\<lambda>w. int (length (map_shards (cl m w)))" "\<lambda>w. int (length (map_shards (cl ?m w)))"] c by simp
    have s3: "x \<in> set u \<or> x \<in> set (unfinished_shards m) \<or> (\<exists>w\<in>set (worker_ips m). x \<in> set (map_shards (cl ?m w)))" if x: "x \<in> set all" for x
    proof -
      have "x \<in> set (map_shards (cl m w)) \<Longrightarrow> x \<in> set (map_shards (cl ?m w))" "s \<in> set (map_shards (cl ?m ip))" for w
        by (simp_all only: c) auto
      moreover have "x \<in> set (s # u) \<or> x \<in> set (unfinished_shards m) \<or> (\<exists>w\<in>set (worker_ips m). x \<in> set (map_shards (cl m w)))"
        using co x unfolding counters_ok_def by blast
      ultimately show ?thesis using assms(2) by auto
    qed
    show ?thesis unfolding counters_ok_def f s1 s2 using co s3 by (simp add: counters_ok_def add.assoc)
  qed
  moreover have "set (sent m) \<subseteq> set (sent ?m)" by auto
  ultimately show ?thesis using run f by blast
qed

text \<open>Taking a worker from the ready queue: what is taken is in use.\<close>

lemma take_ready_ok:
  assumes "clients_ok m" and "take_ready job m = (w, t)"
  shows "clients_ok t" and "counters_ok all e r u t = counters_ok all e r u m" and "map_complete t = map_complete m" and "m_shards t = m_shards m"
    and "m_partitions t = m_partitions m" and "sent t = sent m" and "names_ok t = names_ok m" and "dropped_worker_ips t = dropped_worker_ips m"
    and "unfinished_shards t = unfinished_shards m" and "worker_ips t = worker_ips m" and "w = Some ip \<Longrightarrow> ip \<in> set (worker_ips m)"
proof -
  have f: "\<exists>q j. t = m\<lparr>ready_queue := q, worker2job := j\<rparr> \<and> set q \<subseteq> set (ready_queue m) \<and> (w = Some ip \<longrightarrow> ip \<in> set (worker_ips m))"
  proof (cases "ready_queue m")
    case Nil
    then have "t = m\<lparr>ready_queue := [], worker2job := worker2job m\<rparr>" "w = None" using assms(2) by (auto simp: take_ready_def)
    then show ?thesis by (intro exI [of _ "[]"] exI [of _ "worker2job m"]) simp
  next
    case (Cons v rest)
    show ?thesis
    proof (cases "v \<in> set (dropped_worker_ips m)")
      case True
      then have "t = m\<lparr>ready_queue := rest, worker2job := worker2job m\<rparr>" "w = None" using assms(2) Cons by (auto simp: take_ready_def)
      then show ?thesis using Cons by (intro exI [of _ rest] exI [of _ "worker2job m"]) auto
    next
      case False
      then have "t = m\<lparr>ready_queue := rest, worker2job := (worker2job m)(v \<mapsto> job)\<rparr>" "w = Some v" using assms(2) Cons by (auto simp: take_ready_def)
      moreover have "v \<in> set (worker_ips m)" using clients_okD(4) [OF assms(1), of v] Cons False by auto
      ultimately show ?thesis using Cons by auto
    qed
  qed
  then obtain q j where t: "t = m\<lparr>ready_queue := q, worker2job := j\<rparr>" "set q \<subseteq> set (ready_queue m)" by blast
  show "clients_ok t" using assms(1) t by (auto simp: clients_ok_def live_def cl_def)
  show "counters_ok all e r u t = counters_ok all e r u m" "map_complete t = map_complete m" "m_shards t = m_shards m"
    "m_partitions t = m_partitions m" "sent t = sent m" "names_ok t = names_ok m" "dropped_worker_ips t = dropped_worker_ips m"
    "unfinished_shards t = unfinished_shards m" "worker_ips t = worker_ips m"
    by (simp_all add: t(1) counters_ok_def cl_def names_ok_def)
  show "w = Some ip \<Longrightarrow> ip \<in> set (worker_ips m)" using f by blast
qed

text \<open>
  A response: an error is counted at once, everything else when the client is looked up. \<open>answers\<close>: what the calls and
  responses of a worker have in common, see \<open>handle_map_job\<close> and \<open>handle_reduce_job\<close>.
\<close>

lemma filter_remove1: "length (filter P (remove1 x xs)) = length (filter P xs) - (if x \<in> set xs \<and> P x then 1 else 0)"
proof (induction xs)
  case (Cons y ys)
  have "x \<in> set ys \<Longrightarrow> P x \<Longrightarrow> 0 < length (filter P ys)" by (induction ys) auto
  then show ?case using Cons by auto
qed simp

lemma forget_call_ok:
  assumes "clients_ok m"
  shows "clients_ok (m\<lparr>sent := remove1 c (sent m)\<rparr>)" and "counters_ok all e r u (m\<lparr>sent := remove1 c (sent m)\<rparr>) = counters_ok all e r u m"
    and "names_ok m \<Longrightarrow> names_ok (m\<lparr>sent := remove1 c (sent m)\<rparr>)"
proof -
  note D = clients_okD [OF assms]
  let ?t = "m\<lparr>sent := remove1 c (sent m)\<rparr>"
  have t: "cl ?t = cl m" "live ?t = live m" by (simp_all add: cl_def live_def fun_eq_iff)
  show "clients_ok ?t"
  proof (rule clients_okI)
    show "completed_map_jobs (cl ?t w) + int (length (filter (is_map_rpc w) (sent ?t))) \<le> int (length (map_shards (cl ?t w)))"
      if "w \<in> set (worker_ips ?t)" for w using that D(9) [of w] by (simp add: t filter_remove1)
  qed (use D in \<open>auto simp: t\<close>)
  show "counters_ok all e r u ?t = counters_ok all e r u m" by (simp add: counters_ok_def t)
  show "names_ok m \<Longrightarrow> names_ok ?t" using notin_set_remove1 by (fastforce simp: names_ok_def)
qed

lemma poll_response_ok:
  assumes "clients_ok m" and "poll_response call m = (b, t)"
  shows "clients_ok t" and "map_complete t = map_complete m" and "m_shards t = m_shards m" and "sent t = sent m" and "names_ok t = names_ok m"
    and "dropped_worker_ips t = dropped_worker_ips m" and "unfinished_shards t = unfinished_shards m" and "worker_ips t = worker_ips m"
    and "b \<Longrightarrow> worker_ip_addr call \<in> set (worker_ips m) \<and> status_ok call"
    and "counters_ok all e r u m \<Longrightarrow> counters_ok all (if is_map_job call \<and> \<not> status_ok call then Suc e else e) r u t"
proof -
  note D = clients_okD [OF assms(1)]
  consider "\<not> status_ok call" | "status_ok call" "worker_ip_addr call \<notin> set (worker_ips m)" |
    "status_ok call" "worker_ip_addr call \<in> set (worker_ips m)" by blast
  then have *: "clients_ok t \<and> map_complete t = map_complete m \<and> m_shards t = m_shards m \<and> sent t = sent m \<and> names_ok t = names_ok m \<and>
      dropped_worker_ips t = dropped_worker_ips m \<and> unfinished_shards t = unfinished_shards m \<and> worker_ips t = worker_ips m \<and>
      (b \<longrightarrow> worker_ip_addr call \<in> set (worker_ips m) \<and> status_ok call) \<and>
      (counters_ok all e r u m \<longrightarrow> counters_ok all (if is_map_job call \<and> \<not> status_ok call then Suc e else e) r u t)"
  proof cases
    case 1
    then have t: "\<not> b" "t = (if is_map_job call then m\<lparr>num_dropped_map_jobs := num_dropped_map_jobs m + 1\<rparr>
        else m\<lparr>num_dropped_reduce_jobs := num_dropped_reduce_jobs m + 1\<rparr>)" using assms(2) by (simp_all add: poll_response_def split: if_splits)
    show ?thesis unfolding t using assms(1) 1 t(1) by (simp add: clients_ok_def counters_ok_def live_def cl_def names_ok_def)
  next
    case 2
    then show ?thesis using assms by (simp add: poll_response_def)
  next
    case 3
    then have t: "b" "t = m\<lparr>ready_queue := ready_queue m @ [worker_ip_addr call], worker2job := (worker2job m)(worker_ip_addr call := None)\<rparr>"
      using assms(2) by (simp_all add: poll_response_def)
    show ?thesis unfolding t using assms(1) 3 by (simp add: clients_ok_def counters_ok_def live_def cl_def names_ok_def)
  qed
  then show "clients_ok t" "map_complete t = map_complete m" "m_shards t = m_shards m" "sent t = sent m" "names_ok t = names_ok m"
    "dropped_worker_ips t = dropped_worker_ips m" "unfinished_shards t = unfinished_shards m" "worker_ips t = worker_ips m"
    "b \<Longrightarrow> worker_ip_addr call \<in> set (worker_ips m) \<and> status_ok call"
    "counters_ok all e r u m \<Longrightarrow> counters_ok all (if is_map_job call \<and> \<not> status_ok call then Suc e else e) r u t" by blast+
qed

fun answers :: "string \<Rightarrow> rpc \<Rightarrow> ClientCall \<Rightarrow> bool" where
  "answers port (MapRpc ip q) call \<longleftrightarrow> is_map_job call \<and> worker_ip_addr call = ip \<and> result_files call = job_names port (mq_n_partitions q)"
| "answers port (ReduceRpc ip q) call \<longleftrightarrow> \<not> is_map_job call \<and> worker_ip_addr call = ip \<and>
     result_files call = [output_name (rq_output_dir q) (rq_partition_id q)]"

lemma null_entry_ok:
  assumes "clients_ok m" and "\<not> live m ip"
  shows "\<exists>t. client_at ip m = (None, t) \<and> clients_ok t \<and> map_complete t = map_complete m \<and> m_shards t = m_shards m \<and> sent t = sent m \<and>
    names_ok t = names_ok m \<and> dropped_worker_ips t = dropped_worker_ips m \<and> unfinished_shards t = unfinished_shards m \<and> worker_ips t = worker_ips m \<and>
    (counters_ok all e r u m \<longrightarrow> counters_ok all e r u t)"
proof (cases "ip_addr2worker m ip")
  case None
  let ?t = "m\<lparr>ip_addr2worker := (ip_addr2worker m)(ip \<mapsto> None)\<rparr>"
  note D = clients_okD [OF assms(1)]
  have ip: "ip \<notin> set (worker_ips m)" using D(3) assms(2) by simp
  have t: "live ?t w = live m w" "w \<in> set (worker_ips m) \<Longrightarrow> cl ?t w = cl m w" for w using ip None by (auto simp: live_def cl_def)
  have "clients_ok ?t" by (rule clients_okI) (use D in \<open>auto simp: t\<close>)
  moreover have "counters_ok all e r u ?t" if "counters_ok all e r u m"
  proof -
    have "(\<Sum>w\<leftarrow>worker_ips m. g (cl ?t w)) = (\<Sum>w\<leftarrow>worker_ips m. g (cl m w))" for g :: "WorkerClient \<Rightarrow> int"
      by (intro arg_cong [where f = sum_list] map_cong refl) (simp add: t)
    from this [of completed_map_jobs] this [of "\<lambda>c. int (length (map_shards c))"] show ?thesis
      using that t(2) unfolding counters_ok_def by simp
  qed
  ultimately show ?thesis using None by (intro exI [of _ ?t]) (simp add: client_at_def names_ok_def)
next
  case (Some c)
  then show ?thesis using assms by (auto simp: client_at_def live_def)
qed

lemma job_names_index:
  assumes "in_int n" and "f \<in> set (job_names port n)"
  shows "\<exists>i. file_index f = Inr i"
proof -
  obtain i where "i < nat n" "f = intermediate_name port (int i)" using assms(2) by (auto simp: job_names_iff)
  moreover from this assms(1) have "in_int (int i)" by (auto simp: in_int_def INT_MIN_def)
  ultimately show ?thesis using file_index_name by blast
qed

lemma count_response_ok:
  assumes "clients_ok m" and "c \<in> set (sent m)" and "answers port c call" and "m0 = m\<lparr>sent := remove1 c (sent m)\<rparr>"
  shows "clients_ok (count_response call m0)" and "map_complete (count_response call m0) = map_complete m" and "m_shards (count_response call m0) = m_shards m"
    and "names_ok m \<Longrightarrow> names_ok (count_response call m0)" and "dropped_worker_ips (count_response call m0) = dropped_worker_ips m"
    and "unfinished_shards (count_response call m0) = unfinished_shards m" and "worker_ips (count_response call m0) = worker_ips m"
    and "counters_ok all e r u m \<Longrightarrow> counters_ok all e r u (count_response call m0)"
proof -
  let ?ip = "worker_ip_addr call" and ?t = "count_response call m0"
  note forget = forget_call_ok [OF assms(1), where c = c]
  have "clients_ok ?t \<and> map_complete ?t = map_complete m \<and> m_shards ?t = m_shards m \<and> (names_ok m \<longrightarrow> names_ok ?t) \<and>
    dropped_worker_ips ?t = dropped_worker_ips m \<and> unfinished_shards ?t = unfinished_shards m \<and> worker_ips ?t = worker_ips m \<and>
    (counters_ok all e r u m \<longrightarrow> counters_ok all e r u ?t)"
  proof (cases "live m ?ip")
    case False
    then have nl: "\<not> live m0 ?ip" by (simp add: assms(4) live_def)
    from null_entry_ok [OF forget(1) nl [unfolded assms(4)], of all e r u] obtain t where t: "client_at ?ip m0 = (None, t)" "clients_ok t"
      "map_complete t = map_complete m" "m_shards t = m_shards m" "names_ok t = names_ok m0" "dropped_worker_ips t = dropped_worker_ips m"
      "unfinished_shards t = unfinished_shards m" "worker_ips t = worker_ips m" "counters_ok all e r u m0 \<longrightarrow> counters_ok all e r u t"
      unfolding assms(4) by auto
    then show ?thesis using forget(2,3) by (simp add: count_response_def assms(4))
  next
    case True
    note D = clients_okD [OF assms(1)]
    let ?c = "cl m ?ip"
    have lv: "client_at ?ip m0 = (Some ?c, m0)" using True by (simp add: client_at_live live_def cl_def assms(4))
    have ip: "?ip \<in> set (worker_ips m)" using D(3) True by simp
    define F where "F = m_intermediate_files ?t"
    let ?n = "if is_map_job call then ?c\<lparr>completed_map_jobs := completed_map_jobs ?c + 1\<rparr>
      else ?c\<lparr>completed_reduce_jobs := completed_reduce_jobs ?c + 1\<rparr>"
    have t: "ip_addr2worker ?t = (ip_addr2worker m)(?ip \<mapsto> Some ?n)" using lv by (simp add: count_response_def assms(4))
    have f: "worker_ips ?t = worker_ips m" "num_workers ?t = num_workers m" "ready_queue ?t = ready_queue m"
      "dropped_worker_ips ?t = dropped_worker_ips m" "unfinished_partitions ?t = unfinished_partitions m" "sent ?t = remove1 c (sent m)"
      "m_shards ?t = m_shards m" "unfinished_shards ?t = unfinished_shards m" "num_map_msgs ?t = num_map_msgs m + (if is_map_job call then 1 else 0)"
      "num_dropped_map_jobs ?t = num_dropped_map_jobs m" "num_shards ?t = num_shards m" "map_complete ?t = map_complete m"
      "m_num_partitions ?t = m_num_partitions m"
      "m_intermediate_files ?t = m_intermediate_files m \<union> (if is_map_job call then set (result_files call) else {})"
      using lv by (simp_all add: count_response_def assms(4))
    have c: "cl ?t w = (if w = ?ip then ?n else cl m w)" "live ?t w = live m w" for w
      using True by (auto simp: cl_def live_def t)
    have sh: "map_shards (cl ?t w) = map_shards (cl m w)" "reduce_partitions (cl ?t w) = reduce_partitions (cl m w)"
      "completed_map_jobs (cl ?t w) = completed_map_jobs (cl m w) + (if w = ?ip \<and> is_map_job call then 1 else 0)" for w by (simp_all add: c(1))
    have im: "is_map_rpc w c \<longleftrightarrow> is_map_job call \<and> w = ?ip" for w using assms(3) by (cases c) (auto simp: is_map_rpc_def)
    have "clients_ok ?t"
    proof (rule clients_okI)
      show "completed_map_jobs (cl ?t w) + int (length (filter (is_map_rpc w) (sent ?t))) \<le> int (length (map_shards (cl ?t w)))"
        if "w \<in> set (worker_ips ?t)" for w
      proof -
        have "\<exists>k. length (filter (is_map_rpc w) (sent m)) = Suc k" if "is_map_rpc w c"
          using that assms(2) by (cases "filter (is_map_rpc w) (sent m)") (auto simp: filter_empty_conv)
        then show ?thesis using D(9) [of w] that assms(2) unfolding f(1,6) sh filter_remove1 by (auto simp: im split: if_splits)
      qed
    qed (use D in \<open>auto simp only: f c(2) sh\<close>)
    moreover have "names_ok ?t" if nm: "names_ok m"
    proof -
      have "\<exists>i. file_index x = Inr i" if "is_map_job call" "x \<in> set (result_files call)" for x
      proof (cases c)
        case (MapRpc w q)
        then have "in_int (mq_n_partitions q)" using assms(2) nm by (auto simp: names_ok_def)
        then show ?thesis using MapRpc assms(3) that job_names_index by auto
      qed (use assms(3) that in simp)
      then show ?thesis using nm notin_set_remove1 unfolding names_ok_def f by (fastforce split: if_splits)
    qed
    moreover have "counters_ok all e r u ?t" if "counters_ok all e r u m"
    proof -
      have "(\<Sum>w\<leftarrow>worker_ips m. completed_map_jobs (cl ?t w)) =
          (\<Sum>w\<leftarrow>worker_ips m. completed_map_jobs (cl m w)) + (if is_map_job call then 1 else 0)"
        using sum_list_one [OF D(1) ip, of "\<lambda>w. completed_map_jobs (cl m w)" "\<lambda>w. completed_map_jobs (cl ?t w)"] sh(3) by simp
      then show ?thesis using that unfolding counters_ok_def f sh(1) by simp
    qed
    ultimately show ?thesis using f by blast
  qed
  then show "clients_ok ?t" "map_complete ?t = map_complete m" "m_shards ?t = m_shards m" "names_ok m \<Longrightarrow> names_ok ?t"
    "dropped_worker_ips ?t = dropped_worker_ips m" "unfinished_shards ?t = unfinished_shards m" "worker_ips ?t = worker_ips m"
    "counters_ok all e r u m \<Longrightarrow> counters_ok all e r u ?t" by blast+
qed

text \<open>A reduce job: the client does not record it.\<close>

lemma send_reducer_ok:
  assumes "clients_ok m" and "ip \<in> set (worker_ips m)"
  shows "\<exists>q. send_reducer_job ip p fl m = Inr (m\<lparr>sent := sent m @ [ReduceRpc ip q]\<rparr>) \<and> clients_ok (m\<lparr>sent := sent m @ [ReduceRpc ip q]\<rparr>)"
proof -
  have "live m ip" using clients_okD(3) [OF assms(1)] assms(2) by simp
  then show ?thesis using assms(1)
    by (intro exI [of _ "reduce_query (m_user_id m) p (m_output_dir m) fl"])
      (simp add: send_reducer_job_def client_at_live clients_ok_def live_def cl_def is_map_rpc_def)
qed

text \<open>A failed worker.\<close>

lemma port_substr: "\<exists>b. substr ip (find_first c ip + 1) npos = Inr b"
proof -
  have "length (takeWhile (\<lambda>x. x \<noteq> c) ip) < length ip" if "c \<in> set ip"
    using that by (induction ip) auto
  then show ?thesis by (auto simp: substr_def find_first_def)
qed

lemma remove_intermediate_file_frame: "\<exists>F R. remove_intermediate_file b m = m\<lparr>m_intermediate_files := F, removed := R\<rparr>"
proof (cases "find (\<lambda>f. sublist b f) (sorted_list_of_set (m_intermediate_files m))")
  case None
  then have "remove_intermediate_file b m = m\<lparr>m_intermediate_files := m_intermediate_files m, removed := removed m\<rparr>"
    by (simp add: remove_intermediate_file_def)
  then show ?thesis by blast
next
  case (Some f)
  then show ?thesis by (auto simp: remove_intermediate_file_def)
qed

lemma dropped_clients_ok:
  assumes "clients_ok m" and "ip \<in> set (worker_ips m)" and "list_all shard_ok us"
    and f: "worker_ips t = remove1 ip (worker_ips m)" "dropped_worker_ips t = dropped_worker_ips m @ [ip]"
      "ip_addr2worker t = (ip_addr2worker m)(ip := None)" "num_workers t = num_workers m - 1" "ready_queue t = ready_queue m"
      "unfinished_partitions t = unfinished_partitions m" "sent t = sent m" "m_shards t = m_shards m"
      "unfinished_shards t = unfinished_shards m @ us"
  shows "clients_ok t"
proof (rule clients_okI)
  note D = clients_okD [OF assms(1)]
  have c: "cl t w = cl m w" "live t w = live m w" if "w \<noteq> ip" for w using that by (simp_all add: cl_def live_def f)
  have ws: "set (worker_ips t) = set (worker_ips m) - {ip}" using D(1) by (simp add: f)
  show "distinct (worker_ips t)" using D(1) by (simp add: f)
  show "num_workers t = int (length (worker_ips t))"
  proof -
    obtain k where "length (worker_ips m) = Suc k" using assms(2) by (cases "worker_ips m") auto
    then show ?thesis using D(2) assms(2) by (simp add: f length_remove1)
  qed
  show "live t w \<longleftrightarrow> w \<in> set (worker_ips t)" for w using D(3) [of w] c(2) [of w] by (cases "w = ip") (auto simp: ws live_def f(3))
  show "w \<in> set (worker_ips t) \<or> w \<in> set (dropped_worker_ips t)" if "w \<in> set (ready_queue t)" for w
    using that D(4) [of w] unfolding ws f(2,5) by auto
  show "set (worker_ips t) \<inter> set (dropped_worker_ips t) = {}" using D(5) unfolding ws f(2) by auto
  show "unfinished_partitions t = []" using D(6) f by simp
  show "list_all shard_ok (m_shards t)" "list_all shard_ok (unfinished_shards t)" using D(10,11) assms(3) f by simp_all
  fix w assume "w \<in> set (worker_ips t)"
  then have w: "w \<noteq> ip" "w \<in> set (worker_ips m)" unfolding ws by auto
  show "reduce_partitions (cl t w) = []" "list_all shard_ok (map_shards (cl t w))"
    "completed_map_jobs (cl t w) + int (length (filter (is_map_rpc w) (sent t))) \<le> int (length (map_shards (cl t w)))"
    using D(7-9) [OF w(2)] by (simp_all add: c [OF w(1)] f)
qed

lemma map_failure_ok:
  assumes "clients_ok m" and ip: "ip \<in> set (worker_ips m)" and "\<not> map_complete m"
  shows "\<exists>t. handle_worker_failure ip m = Inr t \<and> clients_ok t \<and> \<not> map_complete t \<and> m_shards t = m_shards m \<and>
    unfinished_shards t = unfinished_shards m @ map_shards (cl m ip) \<and> worker_ips t = remove1 ip (worker_ips m) \<and>
    dropped_worker_ips t = dropped_worker_ips m @ [ip] \<and> sent t = sent m \<and> (counters_ok all e r u m \<longrightarrow> counters_ok all e r u t)"
proof -
  note D = clients_okD [OF assms(1)]
  let ?c = "cl m ip"
  let ?m1 = "remove_worker_ip ip (m\<lparr>unfinished_shards := unfinished_shards m @ map_shards ?c,
    num_dropped_map_jobs := num_dropped_map_jobs m + completed_map_jobs ?c\<rparr>)"
  obtain b where b: "substr ip (find_first (CHR '':'') ip + 1) npos = Inr b" using port_substr by blast
  obtain F R where fr: "remove_intermediate_file b ?m1 = ?m1\<lparr>m_intermediate_files := F, removed := R\<rparr>"
    using remove_intermediate_file_frame by blast
  let ?t = "?m1\<lparr>m_intermediate_files := F, removed := R, num_workers := num_workers m - 1, num_dropped_workers := num_dropped_workers m + 1\<rparr>"
  have run: "handle_worker_failure ip m = Inr ?t"
    using D(3) [of ip] ip assms(3) b fr by (simp add: handle_worker_failure_def client_at_live Let_def) (simp add: remove_worker_ip_def)
  have f: "worker_ips ?t = remove1 ip (worker_ips m)" "dropped_worker_ips ?t = dropped_worker_ips m @ [ip]"
      "ip_addr2worker ?t = (ip_addr2worker m)(ip := None)" "num_workers ?t = num_workers m - 1" "ready_queue ?t = ready_queue m"
      "unfinished_partitions ?t = unfinished_partitions m" "sent ?t = sent m" "m_shards ?t = m_shards m"
      "unfinished_shards ?t = unfinished_shards m @ map_shards ?c" "map_complete ?t = map_complete m"
      "num_map_msgs ?t = num_map_msgs m" "num_dropped_map_jobs ?t = num_dropped_map_jobs m + completed_map_jobs ?c" "num_shards ?t = num_shards m"
    by (simp_all add: remove_worker_ip_def)
  have ok: "clients_ok ?t" by (rule dropped_clients_ok [OF assms(1) ip D(8) [OF ip] f(1-9)])
  have "counters_ok all e r u ?t" if co: "counters_ok all e r u m"
  proof -
    have ws: "set (remove1 ip (worker_ips m)) = set (worker_ips m) - {ip}" using D(1) by simp
    have c: "cl ?t w = cl m w" if "w \<noteq> ip" for w using that by (simp add: cl_def remove_worker_ip_def)
    have sm: "(\<Sum>w\<leftarrow>worker_ips m. g (cl m w)) = g ?c + (\<Sum>w\<leftarrow>remove1 ip (worker_ips m). g (cl ?t w))" for g :: "WorkerClient \<Rightarrow> int"
    proof -
      have "map (\<lambda>w. g (cl m w)) (remove1 ip (worker_ips m)) = map (\<lambda>w. g (cl ?t w)) (remove1 ip (worker_ips m))"
        using ws c by (intro map_cong) auto
      then have "(\<Sum>w\<leftarrow>remove1 ip (worker_ips m). g (cl m w)) = (\<Sum>w\<leftarrow>remove1 ip (worker_ips m). g (cl ?t w))"
        by (rule arg_cong)
      then show ?thesis using sum_list_map_remove1 [OF ip, of "\<lambda>w. g (cl m w)"] by linarith
    qed
    have "x \<in> set u \<or> x \<in> set (unfinished_shards m @ map_shards ?c) \<or> (\<exists>w\<in>set (remove1 ip (worker_ips m)). x \<in> set (map_shards (cl ?t w)))"
      if x: "x \<in> set all" for x
    proof -
      have "x \<in> set u \<or> x \<in> set (unfinished_shards m) \<or> (\<exists>w\<in>set (worker_ips m). x \<in> set (map_shards (cl m w)))"
        using co x unfolding counters_ok_def by blast
      then show ?thesis unfolding ws using c by (metis DiffI Un_iff set_append singletonD)
    qed
    then show ?thesis using co sm [of completed_map_jobs] sm [of "\<lambda>c. int (length (map_shards c))"]
      unfolding counters_ok_def f by auto
  qed
  then show ?thesis using run ok f assms(3) by blast
qed

lemma reduce_failure_ok:
  assumes "clients_ok m" and ip: "ip \<in> set (worker_ips m)" and "map_complete m"
  shows "\<exists>t. handle_worker_failure ip m = Inr t \<and> clients_ok t \<and> map_complete t \<and> unfinished_partitions t = [] \<and>
    worker_ips t = remove1 ip (worker_ips m) \<and> unfinished_shards t = unfinished_shards m \<and> dropped_worker_ips t = dropped_worker_ips m @ [ip] \<and>
    sent t = sent m \<and> m_shards t = m_shards m"
proof -
  note D = clients_okD [OF assms(1)]
  let ?c = "cl m ip"
  let ?t = "(remove_worker_ip ip (m\<lparr>num_dropped_reduce_jobs := num_dropped_reduce_jobs m + completed_reduce_jobs ?c\<rparr>))
    \<lparr>num_workers := num_workers m - 1, num_dropped_workers := num_dropped_workers m + 1\<rparr>"
  have run: "handle_worker_failure ip m = Inr ?t"
    using D(3) [of ip] ip assms(3) D(6) D(7) [OF ip] by (simp add: handle_worker_failure_def client_at_live Let_def) (simp add: remove_worker_ip_def)
  have "clients_ok ?t" by (rule dropped_clients_ok [OF assms(1) ip, of "[]"]) (simp_all add: remove_worker_ip_def)
  then show ?thesis using run assms(3) D(6) by (simp add: remove_worker_ip_def)
qed

text \<open>The names of the intermediate files stay well formed, so grouping them cannot throw.\<close>

lemma names_ok_sent: "names_ok m \<Longrightarrow> names_ok (m\<lparr>sent := sent m @ [ReduceRpc ip q]\<rparr>)"
  by (simp add: names_ok_def)

lemma names_ok_send: "send_mapper_job ip sh m = Inr m' \<Longrightarrow> names_ok m \<Longrightarrow> names_ok m'"
  by (auto simp: send_mapper_job_def client_at_def map_query_def bnd_eq_Inr names_ok_def split: option.splits)

lemma names_ok_failure: "handle_worker_failure ip m = Inr t \<Longrightarrow> names_ok m \<Longrightarrow> names_ok t"
  by (auto simp: handle_worker_failure_def client_at_def remove_worker_ip_def remove_intermediate_file_def names_ok_def
      bnd_eq_Inr Let_def split: if_splits option.splits)

lemma group_files_total:
  assumes "names_ok m"
  shows "\<exists>idx. group_files (m_intermediate_files m) = Inr idx"
  using group_files_run [of "m_intermediate_files m" "\<lambda>f. projr (file_index f)"] assms by (fastforce simp: names_ok_def)

text \<open>The decision after a round of the monitor, and the end of the round.\<close>

lemma schedule_monitor_map:
  assumes "\<not> map_complete m"
  shows "schedule_monitor m = m\<lparr>map_complete := (unfinished_shards m = [] \<and> num_map_msgs m - num_dropped_map_jobs m = num_shards m),
    num_dropped_workers := 0\<rparr>"
  using assms by (simp add: schedule_monitor_def)

lemma schedule_monitor_frame:
  "\<exists>b c. schedule_monitor m = m\<lparr>map_complete := b, reduce_complete := c, num_dropped_workers := 0\<rparr> \<and> (map_complete m \<longrightarrow> b)"
proof -
  have "schedule_monitor m = m\<lparr>map_complete := map_complete (schedule_monitor m), reduce_complete := reduce_complete (schedule_monitor m),
      num_dropped_workers := 0\<rparr> \<and> (map_complete m \<longrightarrow> map_complete (schedule_monitor m))"
    by (simp add: schedule_monitor_def Let_def)
  then show ?thesis by blast
qed

lemma bookkeeping_frame:
  assumes "clients_ok m" and "names_ok m"
  shows "clients_ok (m\<lparr>map_complete := b, reduce_complete := c, num_dropped_workers := n\<rparr>)"
    and "names_ok (m\<lparr>map_complete := b, reduce_complete := c, num_dropped_workers := n\<rparr>)"
    and "counters_ok all e r u (m\<lparr>map_complete := b, reduce_complete := c, num_dropped_workers := n\<rparr>) = counters_ok all e r u m"
  using assms by (simp_all add: clients_ok_def names_ok_def counters_ok_def live_def cl_def)

lemma end_map_round_ok:
  assumes "clients_ok m" and "names_ok m" and "end_map_round m = (complete, t)"
  shows "clients_ok t" and "names_ok t" and "map_complete t = map_complete m" and "complete \<longleftrightarrow> unfinished_shards m = [] \<and> map_complete m"
    and "dropped_worker_ips t = dropped_worker_ips m" and "sent t = sent m"
    and "\<not> complete \<Longrightarrow> counters_ok all e r [] m \<Longrightarrow> counters_ok all e (r \<or> unfinished_shards m = []) (m_shards t) t"
  using assms by (auto simp: end_map_round_def Let_def clients_ok_def counters_ok_def live_def cl_def names_ok_def split: if_splits)

lemma end_reduce_round_ok:
  assumes "clients_ok m" and "names_ok m" and "end_reduce_round m = (complete, t)"
  shows "clients_ok t" and "names_ok t" and "map_complete t = map_complete m" and "dropped_worker_ips t = dropped_worker_ips m" and "sent t = sent m"
  using assms by (auto simp: end_reduce_round_def Let_def clients_ok_def live_def cl_def names_ok_def split: if_splits)

end
