(* ===== verification/MasterRun.thy ===== *)
theory MasterRun
  imports Master
begin

text \<open>
  The threads of the MapReduce master, \<^verbatim>\<open>Master::run\<close>, \<^verbatim>\<open>Master::poll_workers\<close> and \<^verbatim>\<open>Master::monitor\<close> of
  \<^verbatim>\<open>project4/src/master.cc\<close>, interleaved. A step is the code between two points where another thread may run: the ends
  of the locked regions, the waits on the condition variables and the calls. The monitor is
  reduced to what it reports: the failure of a worker, at any time, also of one that has been dropped already; \<open>MasterThreads\<close>
  adds its code.

  \<^item> \<open>run\<close> and \<open>poll_workers\<close> look a client up in \<open>ip_addr2worker\<close> and use the raw pointer without the lock, and the monitor
  may erase the client before, between and after the two. A client that was erased before the look-up is the null pointer
  \<open>operator[]\<close> returns, and the code crashes where it does not test for it. One that was erased between look-up and use is a
  freed object, and the use is an invalid access. Both are the fault \<open>BadPointer\<close>. \<open>MapSend\<close> and \<open>ReduceSend\<close> are the
  states before the last use of the pointer, whether it was read or not: a failure of the worker in that state ends in
  \<open>BadPointer\<close>. For \<open>poll_workers\<close>, which tests for null, \<open>poll_count\<close> is the case where the look-up saw what is there
  at the use and \<open>poll_count_freed\<close> the case where the client was erased in between.

  \<^item> The updates of \<open>poll_workers\<close> after its look-up are one step, as are those of the main thread after its own: unlocked accesses to
  the same counter or container by two threads at once are not modelled.

  \<^item> The test of \<open>map_complete\<close> in \<open>handle_worker_failure\<close> belongs to the locked region behind it. The interleaving in which
  \<open>run\<close> sets the flag between the two, so that the branch of the map phase runs after the phase, is not modelled.

  \<^item> A wait on a condition variable is the guard of the step behind it, the condition's predicate: a thread whose predicate
  holds can run. When \<open>poll_workers\<close> wakes and resets \<open>map_reduce_flag\<close> while the main thread is back in the wait of the next
  round, the code does not notify it, and it can leave the wait only by a spurious wake-up or a later notification; the model lets it
  run at once. Without a failed worker this state is not reached: the thread that polls wakes only when the phase is complete.
\<close>

section \<open>Threads\<close>

text \<open>
  \<open>MapSend i ip\<close>: the lock has been released, the shard is not sent; the client may have been looked up. \<open>MapWait\<close>, \<open>MapMonitor\<close> and
  \<open>MapDecided\<close>: the three parts of \<open>schedule_monitor\<close>, which waits for the thread that polls, waits for the monitor
  and decides. \<open>MapJoin\<close>: the thread that polls is joined.
\<close>

datatype main_pc = Starting | Mapping nat | MapSend nat string | MapWait | MapMonitor | MapDecided | MapJoin
  | Reducing nat | ReduceSend nat string | ReduceWait | ReduceMonitor | ReduceDecided | ReduceJoin | Returned

text \<open>
  \<open>map_errors\<close> counts the map calls that ended with an error, \<open>resent\<close> records that a round ended with
  nothing left over and nothing complete, after which the same shards are sent again.
\<close>

record run_state =
  mst :: Master
  pc :: main_pc
  polling :: poll_pc
  map_reduce_flag :: bool
  idx2files :: "int \<Rightarrow> string list option"
  map_errors :: nat
  resent :: bool
  stopped :: "c_fault option"

definition run_init :: "MapReduceSpec \<Rightarrow> FileShard list \<Rightarrow> run_state \<Rightarrow> bool" where
  "run_init spec file_shards s \<longleftrightarrow> (\<exists>m. new_Master spec file_shards = Inr m \<and>
     s = \<lparr>mst = m, pc = Starting, polling = Polling, map_reduce_flag = False, idx2files = Map.empty, map_errors = 0,
          resent = False, stopped = None\<rparr>)"

definition goes :: "run_state \<Rightarrow> Master outcome \<Rightarrow> run_state" where
  "goes s r = (case r of Inl e \<Rightarrow> s\<lparr>stopped := Some e\<rparr> | Inr m \<Rightarrow> s\<lparr>mst := m\<rparr>)"

definition goes_to :: "run_state \<Rightarrow> main_pc \<Rightarrow> Master outcome \<Rightarrow> run_state" where
  "goes_to s p r = (case r of Inl e \<Rightarrow> s\<lparr>stopped := Some e\<rparr> | Inr m \<Rightarrow> s\<lparr>mst := m, pc := p\<rparr>)"

inductive run_main_step :: "run_state \<Rightarrow> run_state \<Rightarrow> bool" where
  first_pongs: "pc s = Starting \<Longrightarrow> run_main_step s (s\<lparr>mst := (mst s)\<lparr>num_dropped_workers := 0\<rparr>, pc := Mapping 0\<rparr>)"
| map_take: "pc s = Mapping i \<Longrightarrow> i < length (m_shards (mst s)) \<Longrightarrow> ready_queue (mst s) \<noteq> [] \<Longrightarrow>
    take_ready (int i) (mst s) = (w, m) \<Longrightarrow>
    run_main_step s (s\<lparr>mst := m, pc := (case w of None \<Rightarrow> Mapping i | Some ip \<Rightarrow> MapSend i ip)\<rparr>)"
| map_send: "pc s = MapSend i ip \<Longrightarrow>
    run_main_step s (goes_to s (Mapping (Suc i)) (send_mapper_job ip (m_shards (mst s) ! i) (mst s)))"
| map_sent: "pc s = Mapping i \<Longrightarrow> length (m_shards (mst s)) \<le> i \<Longrightarrow> run_main_step s (s\<lparr>pc := MapWait, map_reduce_flag := True\<rparr>)"
| map_notified: "pc s = MapWait \<Longrightarrow> \<not> map_reduce_flag s \<Longrightarrow> run_main_step s (s\<lparr>pc := MapMonitor\<rparr>)"
| map_decide: "pc s = MapMonitor \<Longrightarrow>
    run_main_step s (s\<lparr>mst := schedule_monitor (mst s), pc := MapDecided, map_reduce_flag := True\<rparr>)"
| map_round: "pc s = MapDecided \<Longrightarrow> end_map_round (mst s) = (complete, m) \<Longrightarrow>
    run_main_step s (s\<lparr>mst := m, pc := (if complete then MapJoin else Mapping 0),
      resent := (resent s \<or> (\<not> complete \<and> unfinished_shards (mst s) = []))\<rparr>)"
| group: "pc s = MapJoin \<Longrightarrow> polling s = PollReturned \<Longrightarrow> group_files (m_intermediate_files (mst s)) = Inr idx \<Longrightarrow>
    distinct parts \<Longrightarrow> set parts = dom idx \<Longrightarrow>
    run_main_step s (s\<lparr>mst := (mst s)\<lparr>m_partitions := parts\<rparr>, pc := Reducing 0, polling := Polling, idx2files := idx\<rparr>)"
| group_fault: "pc s = MapJoin \<Longrightarrow> polling s = PollReturned \<Longrightarrow> group_files (m_intermediate_files (mst s)) = Inl e \<Longrightarrow>
    run_main_step s (s\<lparr>stopped := Some e\<rparr>)"
| reduce_take: "pc s = Reducing i \<Longrightarrow> i < length (m_partitions (mst s)) \<Longrightarrow> ready_queue (mst s) \<noteq> [] \<Longrightarrow>
    take_ready (m_partitions (mst s) ! i) (mst s) = (w, m) \<Longrightarrow>
    run_main_step s (s\<lparr>mst := m, pc := (case w of None \<Rightarrow> Reducing i | Some ip \<Rightarrow> ReduceSend i ip)\<rparr>)"
| reduce_send: "pc s = ReduceSend i ip \<Longrightarrow> p = m_partitions (mst s) ! i \<Longrightarrow>
    fl = (case idx2files s p of None \<Rightarrow> [] | Some fl \<Rightarrow> fl) \<Longrightarrow>
    run_main_step s (goes_to s (Reducing (Suc i)) (send_reducer_job ip p fl (mst s)))"
| reduce_sent: "pc s = Reducing i \<Longrightarrow> length (m_partitions (mst s)) \<le> i \<Longrightarrow>
    run_main_step s (s\<lparr>pc := ReduceWait, map_reduce_flag := True\<rparr>)"
| reduce_notified: "pc s = ReduceWait \<Longrightarrow> \<not> map_reduce_flag s \<Longrightarrow> run_main_step s (s\<lparr>pc := ReduceMonitor\<rparr>)"
| reduce_decide: "pc s = ReduceMonitor \<Longrightarrow>
    run_main_step s (s\<lparr>mst := schedule_monitor (mst s), pc := ReduceDecided, map_reduce_flag := True\<rparr>)"
| reduce_round: "pc s = ReduceDecided \<Longrightarrow> end_reduce_round (mst s) = (complete, m) \<Longrightarrow>
    run_main_step s (s\<lparr>mst := m, pc := (if complete then ReduceJoin else Reducing 0)\<rparr>)"
| finish: "pc s = ReduceJoin \<Longrightarrow> polling s = PollReturned \<Longrightarrow>
    run_main_step s (s\<lparr>mst := delete_intermediate_files (mst s), pc := Returned\<rparr>)"

inductive poll_step :: "run_state \<Rightarrow> run_state \<Rightarrow> bool" where
  poll_response: "polling s = Polling \<Longrightarrow> c \<in> set (sent (mst s)) \<Longrightarrow> answers port c call \<Longrightarrow> poll_response call (mst s) = (b, m) \<Longrightarrow>
    poll_step s (s\<lparr>mst := (if b then m else m\<lparr>sent := remove1 c (sent m)\<rparr>), polling := (if b then Counting c call else Cleanup),
      map_errors := (if is_map_job call \<and> \<not> status_ok call then Suc (map_errors s) else map_errors s)\<rparr>)"
| poll_count: "polling s = Counting c call \<Longrightarrow>
    poll_step s (s\<lparr>mst := count_response call ((mst s)\<lparr>sent := remove1 c (sent (mst s))\<rparr>), polling := Cleanup\<rparr>)"
| poll_count_freed: "polling s = Counting c call \<Longrightarrow> worker_ip_addr call \<in> set (dropped_worker_ips (mst s)) \<Longrightarrow>
    poll_step s (s\<lparr>stopped := Some BadPointer\<rparr>)"
| poll_cleanup: "polling s = Cleanup \<Longrightarrow> poll_cleanup (map_reduce_flag s) (mst s) = (f, p) \<Longrightarrow>
    poll_step s (s\<lparr>polling := p, map_reduce_flag := f\<rparr>)"
| poll_resume: "polling s = Notified is_map \<Longrightarrow> map_reduce_flag s \<Longrightarrow>
    poll_step s (s\<lparr>polling := poll_resume is_map (mst s), map_reduce_flag := False\<rparr>)"

inductive monitor_step :: "run_state \<Rightarrow> run_state \<Rightarrow> bool" where
  failure: "ip \<in> set (worker_ips (mst s)) \<union> set (dropped_worker_ips (mst s)) \<Longrightarrow> pc s \<noteq> Returned \<Longrightarrow>
    monitor_step s (goes s (handle_worker_failure ip (mst s)))"

inductive master_step :: "run_state \<Rightarrow> run_state \<Rightarrow> bool" where
  main: "stopped s = None \<Longrightarrow> run_main_step s t \<Longrightarrow> master_step s t"
| poll: "stopped s = None \<Longrightarrow> poll_step s t \<Longrightarrow> master_step s t"
| monitor: "stopped s = None \<Longrightarrow> monitor_step s t \<Longrightarrow> master_step s t"

section \<open>Invariant\<close>

text \<open>What is left to send in the current round, and the part of the main thread that belongs to the map phase.\<close>

definition unsent :: "run_state \<Rightarrow> FileShard list" where
  "unsent s = (case pc s of Starting \<Rightarrow> m_shards (mst s) | Mapping i \<Rightarrow> drop i (m_shards (mst s))
     | MapSend i ip \<Rightarrow> drop i (m_shards (mst s)) | _ \<Rightarrow> [])"

definition map_pc :: "main_pc \<Rightarrow> bool" where
  "map_pc p = (case p of Starting \<Rightarrow> True | Mapping i \<Rightarrow> True | MapSend i ip \<Rightarrow> True | MapWait \<Rightarrow> True | MapMonitor \<Rightarrow> True | _ \<Rightarrow> False)"

definition jobs_ok :: "FileShard list \<Rightarrow> run_state \<Rightarrow> bool" where
  "jobs_ok all s \<longleftrightarrow>
     (map_pc (pc s) \<longrightarrow> \<not> map_complete (mst s)) \<and> (\<not> map_pc (pc s) \<and> pc s \<noteq> MapDecided \<longrightarrow> map_complete (mst s)) \<and>
     (\<not> map_complete (mst s) \<longrightarrow> counters_ok all (map_errors s) (resent s) (unsent s) (mst s)) \<and>
     (pc s = MapDecided \<and> map_complete (mst s) \<longrightarrow> unfinished_shards (mst s) = [])"

definition main_ok :: "run_state \<Rightarrow> bool" where
  "main_ok s = (case pc s of
       MapSend i ip \<Rightarrow> i < length (m_shards (mst s)) \<and> (ip \<in> set (worker_ips (mst s)) \<or> ip \<in> set (dropped_worker_ips (mst s)))
     | ReduceSend i ip \<Rightarrow> ip \<in> set (worker_ips (mst s)) \<or> ip \<in> set (dropped_worker_ips (mst s))
     | _ \<Rightarrow> True)"

definition poll_ok :: "run_state \<Rightarrow> bool" where
  "poll_ok s = (case polling s of Counting c call \<Rightarrow> c \<in> set (sent (mst s)) \<and> (\<exists>port. answers port c call) | _ \<Rightarrow> True)"

definition fault_ok :: "run_state \<Rightarrow> bool" where
  "fault_ok s \<longleftrightarrow> stopped s = None \<or> stopped s = Some BadPointer \<and> dropped_worker_ips (mst s) \<noteq> []"

definition run_inv :: "FileShard list \<Rightarrow> run_state \<Rightarrow> bool" where
  "run_inv all s \<longleftrightarrow> clients_ok (mst s) \<and> names_ok (mst s) \<and> jobs_ok all s \<and> main_ok s \<and> poll_ok s \<and> fault_ok s"

lemmas run_inv_parts = run_inv_def jobs_ok_def main_ok_def poll_ok_def fault_ok_def

lemma run_inv_init:
  assumes "n_workers spec = int (length (worker_ipaddr_ports spec))" and "distinct (worker_ipaddr_ports spec)"
    and "list_all shard_ok fl" and "in_int (n_output_files spec)" and "run_init spec fl s"
  shows "run_inv fl s"
proof -
  from new_Master_ok [OF assms(1-3)] obtain m where m: "new_Master spec fl = Inr m" "clients_ok m" "counters_ok fl 0 False fl m"
    "m_shards m = fl" "\<not> map_complete m" by blast
  have "names_ok m"
    using m(1) foldm_add_worker [of "length (worker_ipaddr_ports spec)" "worker_ipaddr_ports spec"] assms(1,4)
    by (auto simp: new_Master_def fold_add_worker names_ok_def)
  then show ?thesis using assms(5) m by (auto simp: run_init_def run_inv_parts unsent_def map_pc_def)
qed

text \<open>A step that leaves the workers and the shards of the round alone keeps the invariant.\<close>

lemma run_inv_frame:
  assumes "run_inv all s" and "stopped s = None" and "clients_ok m" and "names_ok m"
    and "map_complete m = map_complete (mst s)" and "m_shards m = m_shards (mst s)" and "unfinished_shards m = unfinished_shards (mst s)"
    and "worker_ips m = worker_ips (mst s)" and "dropped_worker_ips m = dropped_worker_ips (mst s)"
    and "\<And>u. counters_ok all (map_errors s) (resent s) u (mst s) \<Longrightarrow> counters_ok all e (resent s) u m"
    and "poll_ok (s\<lparr>mst := m, polling := p\<rparr>)"
  shows "run_inv all (s\<lparr>mst := m, polling := p, map_reduce_flag := f, map_errors := e\<rparr>)"
proof -
  let ?t = "s\<lparr>mst := m, polling := p, map_reduce_flag := f, map_errors := e\<rparr>"
  have "unsent ?t = unsent s" by (simp add: unsent_def assms(6) split: main_pc.splits)
  then have "jobs_ok all ?t" using assms(1,5,7,10) by (simp add: run_inv_def jobs_ok_def)
  moreover have "main_ok ?t" using assms(1) by (simp add: run_inv_def main_ok_def assms(6,8,9) split: main_pc.splits)
  moreover have "poll_ok ?t" using assms(11) by (simp add: poll_ok_def split: poll_pc.splits)
  moreover have "fault_ok ?t" using assms(2) by (simp add: fault_ok_def)
  ultimately show ?thesis using assms(3,4) by (simp add: run_inv_def)
qed

lemma poll_step_inv:
  assumes "poll_step s t" and "run_inv all s" and "stopped s = None"
  shows "run_inv all t"
proof -
  have I: "clients_ok (mst s)" "names_ok (mst s)" "poll_ok s" using assms(2) by (simp_all add: run_inv_def)
  show ?thesis
    using assms(1)
  proof cases
    case (poll_response c port call b m)
    note r = poll_response_ok [OF I(1) poll_response(5)]
    let ?e = "if is_map_job call \<and> \<not> status_ok call then Suc (map_errors s) else map_errors s"
    have t: "t = s\<lparr>mst := (if b then m else m\<lparr>sent := remove1 c (sent m)\<rparr>), polling := (if b then Counting c call else Cleanup),
        map_reduce_flag := map_reduce_flag s, map_errors := ?e\<rparr>" using poll_response(1) by simp
    show ?thesis unfolding t
    proof (rule run_inv_frame [OF assms(2,3)])
      show "clients_ok (if b then m else m\<lparr>sent := remove1 c (sent m)\<rparr>)" using r(1) forget_call_ok(1) by simp
      show "names_ok (if b then m else m\<lparr>sent := remove1 c (sent m)\<rparr>)" using r(5) I(2) forget_call_ok(3) [OF r(1)] by simp
      show "counters_ok all ?e (resent s) u (if b then m else m\<lparr>sent := remove1 c (sent m)\<rparr>)"
        if "counters_ok all (map_errors s) (resent s) u (mst s)" for u
        using r(10) [OF that] forget_call_ok(2) [OF r(1)] by simp
      show "poll_ok (s\<lparr>mst := (if b then m else m\<lparr>sent := remove1 c (sent m)\<rparr>), polling := (if b then Counting c call else Cleanup)\<rparr>)"
        using poll_response(3,4) r(4) by (auto simp: poll_ok_def)
    qed (use r in simp_all)
  next
    case (poll_count c call)
    obtain port where c: "c \<in> set (sent (mst s))" "answers port c call" using I(3) poll_count(2) by (auto simp: poll_ok_def)
    note r = count_response_ok [OF I(1) c refl]
    have t: "t = s\<lparr>mst := count_response call ((mst s)\<lparr>sent := remove1 c (sent (mst s))\<rparr>), polling := Cleanup,
        map_reduce_flag := map_reduce_flag s, map_errors := map_errors s\<rparr>" using poll_count(1) by simp
    show ?thesis unfolding t by (rule run_inv_frame [OF assms(2,3) r(1) r(4) [OF I(2)]]) (use r in \<open>simp_all add: poll_ok_def\<close>)
  next
    case (poll_count_freed c call)
    then show ?thesis using assms(2) by (auto simp: run_inv_parts unsent_def split: main_pc.splits poll_pc.splits)
  next
    case (poll_cleanup f p)
    have "\<And>c call. p \<noteq> Counting c call" using poll_cleanup(3) by (auto simp: poll_cleanup_def split: if_splits)
    then have "poll_ok (s\<lparr>mst := mst s, polling := p\<rparr>)" by (simp add: poll_ok_def split: poll_pc.splits)
    then have "run_inv all (s\<lparr>mst := mst s, polling := p, map_reduce_flag := f, map_errors := map_errors s\<rparr>)"
      by (intro run_inv_frame [OF assms(2,3) I(1,2)]) simp_all
    then show ?thesis using poll_cleanup(1) by simp
  next
    case (poll_resume is_map)
    have "poll_ok (s\<lparr>mst := mst s, polling := poll_resume is_map (mst s)\<rparr>)" by (simp add: poll_ok_def poll_resume_def)
    then have "run_inv all (s\<lparr>mst := mst s, polling := poll_resume is_map (mst s), map_reduce_flag := False, map_errors := map_errors s\<rparr>)"
      by (intro run_inv_frame [OF assms(2,3) I(1,2)]) simp_all
    then show ?thesis using poll_resume(1) by simp
  qed
qed

lemma failure_of_dropped:
  assumes "clients_ok m" and "\<not> live m ip"
  shows "map_complete m \<Longrightarrow> handle_worker_failure ip m = Inl BadPointer"
    and "\<not> map_complete m \<Longrightarrow> handle_worker_failure ip m = Inr (snd (client_at ip m))"
proof -
  obtain t where "client_at ip m = (None, t)" using null_entry_ok [OF assms] by blast
  then show "map_complete m \<Longrightarrow> handle_worker_failure ip m = Inl BadPointer"
    "\<not> map_complete m \<Longrightarrow> handle_worker_failure ip m = Inr (snd (client_at ip m))" by (simp_all add: handle_worker_failure_def)
qed

lemma monitor_step_inv:
  assumes "monitor_step s t" and "run_inv all s" and "stopped s = None"
  shows "run_inv all t"
  using assms(1)
proof cases
  case (failure ip)
  have I: "clients_ok (mst s)" "names_ok (mst s)" "jobs_ok all s" "main_ok s" "poll_ok s" using assms(2) by (simp_all add: run_inv_def)
  note D = clients_okD [OF I(1)]
  have poll: "poll_ok (s\<lparr>mst := m\<rparr>)" if "sent m = sent (mst s)" for m using I(5) that by (simp add: poll_ok_def split: poll_pc.splits)
  have main: "main_ok (s\<lparr>mst := m\<rparr>)" if "m_shards m = m_shards (mst s)" "worker_ips m = remove1 ip (worker_ips (mst s))"
    "dropped_worker_ips m = dropped_worker_ips (mst s) @ [ip]" for m using I(4) that D(1) by (auto simp: main_ok_def split: main_pc.splits)
  consider (dropped) "ip \<notin> set (worker_ips (mst s))" "ip \<in> set (dropped_worker_ips (mst s))" |
    (map) "ip \<in> set (worker_ips (mst s))" "\<not> map_complete (mst s)" | (reduce) "ip \<in> set (worker_ips (mst s))" "map_complete (mst s)"
    using failure(2) by blast
  then show ?thesis
  proof cases
    case dropped
    then have nl: "\<not> live (mst s) ip" using D(3) by simp
    show ?thesis
    proof (cases "map_complete (mst s)")
      case True
      then have "t = s\<lparr>stopped := Some BadPointer\<rparr>" using failure(1) failure_of_dropped(1) [OF I(1) nl] by (simp add: goes_def)
      then show ?thesis using assms(2) dropped by (auto simp: run_inv_parts unsent_def split: main_pc.splits poll_pc.splits)
    next
      case False
      obtain m where "client_at ip (mst s) = (None, m)" using null_entry_ok [OF I(1) nl] by blast
      with False have t: "t = s\<lparr>mst := m, polling := polling s, map_reduce_flag := map_reduce_flag s, map_errors := map_errors s\<rparr>"
        using failure(1) failure_of_dropped(2) [OF I(1) nl] by (simp add: goes_def)
      note ne = null_entry_ok [OF I(1) nl, unfolded \<open>client_at ip (mst s) = (None, m)\<close>]
      have cnt: "counters_ok all (map_errors s) (resent s) u m" if "counters_ok all (map_errors s) (resent s) u (mst s)" for u
        using ne that by blast
      from ne have m: "clients_ok m" "map_complete m = map_complete (mst s)" "m_shards m = m_shards (mst s)" "sent m = sent (mst s)"
        "names_ok m" "dropped_worker_ips m = dropped_worker_ips (mst s)" "unfinished_shards m = unfinished_shards (mst s)"
        "worker_ips m = worker_ips (mst s)" using I(2) by blast+
      show ?thesis unfolding t
        by (rule run_inv_frame [OF assms(2,3) m(1,5,2,3,7,8,6) cnt]) (use poll [OF m(4)] in \<open>simp_all add: poll_ok_def\<close>)
    qed
  next
    case map
    from map_failure_ok [OF I(1) map, of all "map_errors s" "resent s" "unsent s"] obtain m where
      m: "handle_worker_failure ip (mst s) = Inr m" "clients_ok m" "\<not> map_complete m" "m_shards m = m_shards (mst s)"
      "worker_ips m = remove1 ip (worker_ips (mst s))" "dropped_worker_ips m = dropped_worker_ips (mst s) @ [ip]" "sent m = sent (mst s)"
      "counters_ok all (map_errors s) (resent s) (unsent s) (mst s) \<longrightarrow> counters_ok all (map_errors s) (resent s) (unsent s) m" by blast
    have t: "t = s\<lparr>mst := m\<rparr>" using failure(1) m(1) by (simp add: goes_def)
    have "unsent t = unsent s" unfolding t by (simp add: unsent_def m(4) split: main_pc.splits)
    then have "jobs_ok all t" using I(3) m(3,8) map(2) unfolding t by (simp add: jobs_ok_def)
    then show ?thesis using t m(2) names_ok_failure [OF m(1) I(2)] main [OF m(4-6)] poll [OF m(7)] assms(3)
      by (simp add: run_inv_def fault_ok_def)
  next
    case reduce
    from reduce_failure_ok [OF I(1) reduce] obtain m where
      m: "handle_worker_failure ip (mst s) = Inr m" "clients_ok m" "map_complete m" "m_shards m = m_shards (mst s)"
      "worker_ips m = remove1 ip (worker_ips (mst s))" "dropped_worker_ips m = dropped_worker_ips (mst s) @ [ip]" "sent m = sent (mst s)"
      "unfinished_shards m = unfinished_shards (mst s)" by blast
    have t: "t = s\<lparr>mst := m\<rparr>" using failure(1) m(1) by (simp add: goes_def)
    have "jobs_ok all t" using I(3) m(3,8) reduce(2) unfolding t by (simp add: jobs_ok_def)
    then show ?thesis using t m(2) names_ok_failure [OF m(1) I(2)] main [OF m(4-6)] poll [OF m(7)] assms(3)
      by (simp add: run_inv_def fault_ok_def)
  qed
qed

lemma send_dropped:
  assumes "\<not> live m ip"
  shows "send_mapper_job ip sh m = Inl BadPointer" and "send_reducer_job ip p fl m = Inl BadPointer"
  using assms by (auto simp: send_mapper_job_def send_reducer_job_def client_at_def live_def split: option.splits)

lemma master_main_step_inv:
  assumes "run_main_step s t" and "run_inv all s" and "stopped s = None"
  shows "run_inv all t"
proof -
  have I: "clients_ok (mst s)" "names_ok (mst s)" "jobs_ok all s" "main_ok s" "poll_ok s" using assms(2) by (simp_all add: run_inv_def)
  note D = clients_okD [OF I(1)]
  note parts = jobs_ok_def main_ok_def poll_ok_def fault_ok_def unsent_def map_pc_def
  show ?thesis
    using assms(1)
  proof cases
    case first_pongs
    have m: "clients_ok ((mst s)\<lparr>num_dropped_workers := 0\<rparr>)" "names_ok ((mst s)\<lparr>num_dropped_workers := 0\<rparr>)"
      "counters_ok all e r u ((mst s)\<lparr>num_dropped_workers := 0\<rparr>) = counters_ok all e r u (mst s)" for e r u
      using I(1,2) by (simp_all add: clients_ok_def names_ok_def counters_ok_def live_def cl_def)
    show ?thesis using I(3,5) m first_pongs assms(3) by (simp add: run_inv_def parts split: poll_pc.splits)
  next
    case (map_take i w m)
    note r = take_ready_ok [OF I(1) map_take(5)]
    show ?thesis using I(2,3,5) r(1-10) r(11) [of "the w"] map_take(1-3) assms(3)
      by (cases w) (simp_all add: run_inv_def parts split: poll_pc.splits)
  next
    case (map_send i ip)
    let ?sh = "m_shards (mst s) ! i"
    have i: "i < length (m_shards (mst s))" "ip \<in> set (worker_ips (mst s)) \<or> ip \<in> set (dropped_worker_ips (mst s))"
      "\<not> map_complete (mst s)" "counters_ok all (map_errors s) (resent s) (?sh # drop (Suc i) (m_shards (mst s))) (mst s)"
      using I(3,4) map_send(2) by (simp_all add: parts Cons_nth_drop_Suc)
    show ?thesis
    proof (cases "ip \<in> set (worker_ips (mst s))")
      case True
      have "shard_ok ?sh" using D(10) i(1) by (simp add: list_all_length)
      from send_job_ok [OF I(1) True this, of all "map_errors s" "resent s" "drop (Suc i) (m_shards (mst s))"] i(4) obtain m where
        m: "send_mapper_job ip ?sh (mst s) = Inr m" "clients_ok m" "map_complete m = map_complete (mst s)" "m_shards m = m_shards (mst s)"
        "set (sent (mst s)) \<subseteq> set (sent m)" "counters_ok all (map_errors s) (resent s) (drop (Suc i) (m_shards (mst s))) m" by auto
      show ?thesis using I(5) m(2-6) names_ok_send [OF m(1) I(2)] i(3) assms(3) unfolding map_send(1) m(1) goes_to_def
        by (auto simp: run_inv_def parts split: poll_pc.splits)
    next
      case False
      then have "\<not> live (mst s) ip" using D(3) by simp
      from send_dropped(1) [OF this, of ?sh] have t: "t = s\<lparr>stopped := Some BadPointer\<rparr>" using map_send(1) by (simp add: goes_to_def)
      have "dropped_worker_ips (mst s) \<noteq> []" using i(2) False by auto
      then show ?thesis using I t map_send(2) by (auto simp: run_inv_def parts split: poll_pc.splits)
    qed
  next
    case (map_sent i)
    then show ?thesis using I assms(3) by (simp add: run_inv_def parts split: poll_pc.splits)
  next
    case map_notified
    then show ?thesis using I assms(3) by (simp add: run_inv_def parts split: poll_pc.splits)
  next
    case map_decide
    obtain b c where d: "schedule_monitor (mst s) = (mst s)\<lparr>map_complete := b, reduce_complete := c, num_dropped_workers := 0\<rparr>"
      using schedule_monitor_frame by blast
    have "\<not> map_complete (mst s)" using I(3) map_decide(2) by (simp add: parts)
    then have "b \<longrightarrow> unfinished_shards (mst s) = []" using schedule_monitor_map [of "mst s"] arg_cong [OF d, of map_complete] by auto
    then show ?thesis using I(3,5) bookkeeping_frame [OF I(1,2)] map_decide assms(3)
      by (simp add: run_inv_def parts d split: poll_pc.splits)
  next
    case (map_round complete m)
    note r = end_map_round_ok [OF I(1,2) map_round(3)]
    have poll: "poll_ok t" using I(5) r(6) map_round(1) by (simp add: poll_ok_def split: poll_pc.splits)
    show ?thesis
    proof (cases complete)
      case True
      then show ?thesis using r(1-4) map_round(1,2) poll assms(3) by (simp add: run_inv_def jobs_ok_def main_ok_def fault_ok_def map_pc_def)
    next
      case False
      have "map_complete (mst s) \<Longrightarrow> unfinished_shards (mst s) = []" using I(3) map_round(2) unfolding jobs_ok_def by blast
      then have nc: "\<not> map_complete (mst s)" using False r(4) by blast
      have "unsent s = []" using map_round(2) by (simp add: unsent_def)
      then have "counters_ok all (map_errors s) (resent s) [] (mst s)" using I(3) nc unfolding jobs_ok_def by metis
      note cnt = r(7) [OF False this]
      have t: "mst t = m" "pc t = Mapping 0" "map_errors t = map_errors s" "stopped t = None"
        "resent t = (resent s \<or> unfinished_shards (mst s) = [])" using map_round(1) False assms(3) by simp_all
      have nm: "\<not> map_complete m" using r(3) nc by simp
      have "jobs_ok all t" unfolding jobs_ok_def unsent_def map_pc_def t using cnt nm by simp
      then show ?thesis using r(1,2) t poll by (simp add: run_inv_def main_ok_def fault_ok_def)
    qed
  next
    case (group idx parts)
    then show ?thesis using I assms(3)
      by (auto simp: run_inv_def jobs_ok_def main_ok_def poll_ok_def fault_ok_def map_pc_def clients_ok_def live_def cl_def names_ok_def)
  next
    case (group_fault e)
    then show ?thesis using group_files_total [OF I(2)] by simp
  next
    case (reduce_take i w m)
    note r = take_ready_ok [OF I(1) reduce_take(5)]
    show ?thesis using I(2,3,5) r(1-10) r(11) [of "the w"] reduce_take(1-3) assms(3)
      by (cases w) (simp_all add: run_inv_def parts split: poll_pc.splits)
  next
    case (reduce_send i ip p fl)
    show ?thesis
    proof (cases "ip \<in> set (worker_ips (mst s))")
      case True
      from send_reducer_ok [OF I(1) True] obtain q where
        m: "send_reducer_job ip p fl (mst s) = Inr ((mst s)\<lparr>sent := sent (mst s) @ [ReduceRpc ip q]\<rparr>)"
        "clients_ok ((mst s)\<lparr>sent := sent (mst s) @ [ReduceRpc ip q]\<rparr>)" by blast
      show ?thesis using I(3,5) m(2) names_ok_sent [OF I(2)] reduce_send(2) assms(3) unfolding reduce_send(1) m(1) goes_to_def
        by (auto simp: run_inv_def parts split: poll_pc.splits)
    next
      case False
      then have "\<not> live (mst s) ip" using D(3) by simp
      from send_dropped(2) [OF this, of p fl] have t: "t = s\<lparr>stopped := Some BadPointer\<rparr>" using reduce_send(1) by (simp add: goes_to_def)
      have "dropped_worker_ips (mst s) \<noteq> []" using I(4) reduce_send(2) False by (auto simp: main_ok_def)
      then show ?thesis using I t reduce_send(2) by (auto simp: run_inv_def parts split: poll_pc.splits)
    qed
  next
    case (reduce_sent i)
    then show ?thesis using I assms(3) by (simp add: run_inv_def parts split: poll_pc.splits)
  next
    case reduce_notified
    then show ?thesis using I assms(3) by (simp add: run_inv_def parts split: poll_pc.splits)
  next
    case reduce_decide
    obtain b c where d: "schedule_monitor (mst s) = (mst s)\<lparr>map_complete := b, reduce_complete := c, num_dropped_workers := 0\<rparr>"
      "map_complete (mst s) \<longrightarrow> b" using schedule_monitor_frame by blast
    then show ?thesis using I(3,5) bookkeeping_frame [OF I(1,2)] reduce_decide assms(3)
      by (simp add: run_inv_def parts split: poll_pc.splits)
  next
    case (reduce_round complete m)
    note r = end_reduce_round_ok [OF I(1,2) reduce_round(3)]
    show ?thesis using I(3,5) r reduce_round(1,2) assms(3) by (auto simp: run_inv_def parts split: poll_pc.splits)
  next
    case finish
    then show ?thesis using I assms(3)
      by (auto simp: run_inv_def jobs_ok_def main_ok_def poll_ok_def fault_ok_def map_pc_def delete_intermediate_files_def
          clients_ok_def live_def cl_def names_ok_def)
  qed
qed

section \<open>Reachable states\<close>

definition spec_usable :: "MapReduceSpec \<Rightarrow> FileShard list \<Rightarrow> bool" where
  "spec_usable spec fl \<longleftrightarrow> n_workers spec = int (length (worker_ipaddr_ports spec)) \<and> distinct (worker_ipaddr_ports spec) \<and>
     list_all shard_ok fl \<and> in_int (n_output_files spec)"

lemma master_step_inv: "master_step s t \<Longrightarrow> run_inv all s \<Longrightarrow> run_inv all t"
  by (auto elim!: master_step.cases intro: master_main_step_inv poll_step_inv monitor_step_inv)

interpretation master_inv: inductive_invariant "\<lambda>s. spec_usable spec fl \<and> run_init spec fl s" master_step "run_inv fl" for spec fl
  by unfold_locales (auto simp: spec_usable_def intro: run_inv_init master_step_inv)

lemma master_reachable_inv:
  assumes "spec_usable spec fl" and "reachable (run_init spec fl) master_step s"
  shows "run_inv fl s"
proof (rule master_inv.inv_reachable)
  show "reachable (\<lambda>s. spec_usable spec fl \<and> run_init spec fl s) master_step s"
    using assms(2) by induction (auto intro: reachable.intros assms(1))
qed

section \<open>Demonstration runs\<close>

text \<open>Three workers and two shards; only the first two workers are given one.\<close>

definition three_workers :: MapReduceSpec where
  "three_workers = demo_spec\<lparr>n_workers := 3, worker_ipaddr_ports := [''w:1'', ''w:2'', ''w:3''], n_output_files := 2\<rparr>"

definition two_shards :: "FileShard list" where
  "two_shards = [\<lparr>files = [''a''], offsets = [(0, 9)]\<rparr>, \<lparr>files = [''b''], offsets = [(0, 9)]\<rparr>]"

definition sent_call :: "string \<Rightarrow> nat \<Rightarrow> rpc" where
  "sent_call ip i = MapRpc ip \<lparr>mq_user_id = ''cs6210'', mq_n_partitions = 2, mq_partitions = map piece_partition (shard_pieces (two_shards ! i))\<rparr>"

definition demo_call :: "string \<Rightarrow> string \<Rightarrow> ClientCall" where
  "demo_call ip port = \<lparr>is_map_job = True, status_ok = True, worker_ip_addr = ip, result_files = job_names port 2\<rparr>"

definition demo_init :: Master where
  "demo_init = projr (new_Master three_workers two_shards)"

definition demo_take1 :: Master where
  "demo_take1 = snd (take_ready 0 demo_init)"

definition demo_send1 :: Master where
  "demo_send1 = projr (send_mapper_job ''w:1'' (two_shards ! 0) demo_take1)"

definition demo_take2 :: Master where
  "demo_take2 = snd (take_ready 1 demo_send1)"

definition demo_send2 :: Master where
  "demo_send2 = projr (send_mapper_job ''w:2'' (two_shards ! 1) demo_take2)"

definition answer :: "string \<Rightarrow> string \<Rightarrow> nat \<Rightarrow> Master \<Rightarrow> Master" where
  "answer ip port i m = (let m = snd (poll_response (demo_call ip port) m)
     in count_response (demo_call ip port) (m\<lparr>sent := remove1 (sent_call ip i) (sent m)\<rparr>))"

definition run_at :: "main_pc \<Rightarrow> poll_pc \<Rightarrow> bool \<Rightarrow> Master \<Rightarrow> run_state" where
  "run_at p pl f m = \<lparr>mst = m, pc = p, polling = pl, map_reduce_flag = f, idx2files = Map.empty, map_errors = 0, resent = False,
     stopped = None\<rparr>"

abbreviation demo_reachable :: "run_state \<Rightarrow> bool" where
  "demo_reachable \<equiv> reachable (run_init three_workers two_shards) master_step"

lemma run_at_simps [simp]: "mst (run_at p pl f m) = m" "pc (run_at p pl f m) = p" "polling (run_at p pl f m) = pl"
  "map_reduce_flag (run_at p pl f m) = f" "map_errors (run_at p pl f m) = 0" "resent (run_at p pl f m) = False" "stopped (run_at p pl f m) = None"
  by (simp_all add: run_at_def)

lemma run_at_take:
  assumes "i < length (m_shards m)" and "ready_queue m \<noteq> []" and "take_ready (int i) m = (Some w, m')"
    and "demo_reachable (run_at (Mapping i) pl f m)"
  shows "demo_reachable (run_at (MapSend i w) pl f m')"
proof (rule reachable_step [OF assms(4)])
  show "master_step (run_at (Mapping i) pl f m) (run_at (MapSend i w) pl f m')"
    using main [OF _ run_main_step.map_take [of "run_at (Mapping i) pl f m" i "Some w" m']] assms by (simp add: run_at_def)
qed

lemma run_at_send:
  assumes "send_mapper_job w (m_shards m ! i) m = Inr m'" and "demo_reachable (run_at (MapSend i w) pl f m)"
  shows "demo_reachable (run_at (Mapping (Suc i)) pl f m')"
proof (rule reachable_step [OF assms(2)])
  show "master_step (run_at (MapSend i w) pl f m) (run_at (Mapping (Suc i)) pl f m')"
    using main [OF _ run_main_step.map_send [of "run_at (MapSend i w) pl f m" i w]] assms by (simp add: goes_to_def) (simp add: run_at_def)
qed

lemma run_at_answer:
  assumes "sent_call ip i \<in> set (sent m)" and "poll_response (demo_call ip port) m = (True, m')" and "demo_reachable (run_at p Polling f m)"
  shows "demo_reachable (run_at p Cleanup f (answer ip port i m))"
proof -
  have "answers port (sent_call ip i) (demo_call ip port)" by (simp add: sent_call_def demo_call_def)
  from poll_step.poll_response [OF _ _ this, of "run_at p Polling f m" True m'] assms(1,2)
  have "master_step (run_at p Polling f m) (run_at p (Counting (sent_call ip i) (demo_call ip port)) f m')"
    by (intro poll) (simp_all add: run_at_def demo_call_def)
  with assms(3) have r: "demo_reachable (run_at p (Counting (sent_call ip i) (demo_call ip port)) f m')" by (rule reachable_step)
  have "master_step (run_at p (Counting (sent_call ip i) (demo_call ip port)) f m') (run_at p Cleanup f (answer ip port i m))"
    using poll_step.poll_count [of "run_at p (Counting (sent_call ip i) (demo_call ip port)) f m'"] assms(2)
    by (intro poll) (simp_all add: run_at_def answer_def)
  with r show ?thesis by (rule reachable_step)
qed

lemma run_at_cleanup:
  assumes "poll_cleanup f m = (f', pl)" and "demo_reachable (run_at p Cleanup f m)"
  shows "demo_reachable (run_at p pl f' m)"
proof (rule reachable_step [OF assms(2)])
  show "master_step (run_at p Cleanup f m) (run_at p pl f' m)"
    using poll [OF _ poll_step.poll_cleanup [of "run_at p Cleanup f m" f' pl]] assms by (simp add: run_at_def)
qed

lemma run_at_sent:
  assumes "length (m_shards m) \<le> i" and "demo_reachable (run_at (Mapping i) pl f m)"
  shows "demo_reachable (run_at MapWait pl True m)"
proof (rule reachable_step [OF assms(2)])
  show "master_step (run_at (Mapping i) pl f m) (run_at MapWait pl True m)"
    using main [OF _ run_main_step.map_sent [of "run_at (Mapping i) pl f m" i]] assms by (simp add: run_at_def)
qed

lemma run_at_notified:
  assumes "demo_reachable (run_at MapWait pl False m)"
  shows "demo_reachable (run_at MapMonitor pl False m)"
proof (rule reachable_step [OF assms])
  show "master_step (run_at MapWait pl False m) (run_at MapMonitor pl False m)"
    using main [OF _ run_main_step.map_notified [of "run_at MapWait pl False m"]] by (simp add: run_at_def)
qed

lemma run_at_failure:
  assumes "ip \<in> set (worker_ips m)" and "p \<noteq> Returned" and "handle_worker_failure ip m = Inr m'" and "demo_reachable (run_at p pl f m)"
  shows "demo_reachable (run_at p pl f m')"
proof (rule reachable_step [OF assms(4)])
  show "master_step (run_at p pl f m) (run_at p pl f m')"
    using monitor [OF _ monitor_step.failure [of ip "run_at p pl f m"]] assms by (simp add: goes_def) (simp add: run_at_def)
qed

lemmas demo_defs = demo_init_def demo_take1_def demo_send1_def demo_take2_def demo_send2_def new_Master_def three_workers_def demo_spec_def
  two_shards_def rd_def upt_rec add_worker_def take_ready_def send_mapper_job_def client_at_def map_query_pieces new_WorkerClient_def sent_call_def

lemma three_workers_usable: "spec_usable three_workers two_shards"
  by (simp add: spec_usable_def three_workers_def demo_spec_def two_shards_def shard_ok_def in_int_def INT_MIN_def INT_MAX_def)

lemma demo_run0: "new_Master three_workers two_shards = Inr demo_init" "num_dropped_workers demo_init = 0"
  by (simp_all add: demo_defs)

lemma run_at_decide:
  assumes "demo_reachable (run_at MapMonitor pl f m)"
  shows "demo_reachable (run_at MapDecided pl True (schedule_monitor m))"
proof (rule reachable_step [OF assms])
  show "master_step (run_at MapMonitor pl f m) (run_at MapDecided pl True (schedule_monitor m))"
    using main [OF _ run_main_step.map_decide [of "run_at MapMonitor pl f m"]] by (simp add: run_at_def)
qed

abbreviation one_answered :: Master where
  "one_answered \<equiv> answer ''w:1'' ''1'' 0 demo_send2"

abbreviation both_answered :: Master where
  "both_answered \<equiv> answer ''w:2'' ''2'' 1 one_answered"

definition idle_failed :: Master where
  "idle_failed = projr (handle_worker_failure ''w:3'' demo_send2)"

definition phase_complete :: Master where
  "phase_complete = schedule_monitor both_answered"

lemma demo_runs:
  "take_ready 0 demo_init = (Some ''w:1'', demo_take1)" "ready_queue demo_init \<noteq> []" "m_shards demo_init = two_shards"
  "send_mapper_job ''w:1'' (m_shards demo_take1 ! 0) demo_take1 = Inr demo_send1" "worker_ips demo_take1 = [''w:1'', ''w:2'', ''w:3'']"
  "take_ready 1 demo_send1 = (Some ''w:2'', demo_take2)" "ready_queue demo_send1 \<noteq> []" "m_shards demo_send1 = two_shards"
  "send_mapper_job ''w:2'' (m_shards demo_take2 ! 1) demo_take2 = Inr demo_send2" "m_shards demo_send2 = two_shards"
  "sent demo_send2 = [sent_call ''w:1'' 0, sent_call ''w:2'' 1]" "worker_ips demo_send2 = [''w:1'', ''w:2'', ''w:3'']"
  by (simp_all add: demo_defs piece_partition_def shard_pieces_def)

lemmas demo_answer_defs = answer_def poll_response_def count_response_def demo_call_def demo_defs

lemma demo_answers:
  "\<exists>m. poll_response (demo_call ''w:1'' ''1'') demo_send2 = (True, m)" "\<exists>m. poll_response (demo_call ''w:2'' ''2'') one_answered = (True, m)"
  "sent one_answered = [sent_call ''w:2'' 1]" "sent both_answered = []"
  "poll_cleanup f one_answered = (f, Polling)" "poll_cleanup False both_answered = (False, Polling)" "poll_cleanup True both_answered = (False, Notified True)"
  "m_shards both_answered = two_shards" "worker_ips one_answered = [''w:1'', ''w:2'', ''w:3'']" "num_dropped_workers one_answered = 0"
  "unfinished_shards one_answered = []" "num_map_msgs one_answered - num_dropped_map_jobs one_answered + 1 = num_shards one_answered"
  by (simp_all add: demo_answer_defs piece_partition_def shard_pieces_def poll_cleanup_def notify_master_def)

lemma demo_idle:
  "handle_worker_failure ''w:3'' demo_send2 = Inr idle_failed" "sent idle_failed = [sent_call ''w:1'' 0, sent_call ''w:2'' 1]"
  "\<exists>m. poll_response (demo_call ''w:1'' ''1'') idle_failed = (True, m)"
  "poll_cleanup True (answer ''w:1'' ''1'' 0 idle_failed) = (False, Notified True)" "unfinished_shards (answer ''w:1'' ''1'' 0 idle_failed) = []"
  "num_map_msgs (answer ''w:1'' ''1'' 0 idle_failed) - num_dropped_map_jobs (answer ''w:1'' ''1'' 0 idle_failed)
     \<noteq> num_shards (answer ''w:1'' ''1'' 0 idle_failed)"
  by (simp_all add: idle_failed_def handle_worker_failure_def remove_worker_ip_def remove_intermediate_file_def substr_def find_first_def
      npos_def demo_answer_defs piece_partition_def shard_pieces_def poll_cleanup_def notify_master_def)

lemma demo_complete: "map_complete phase_complete" "worker_ips phase_complete = [''w:1'', ''w:2'', ''w:3'']" "dropped_worker_ips phase_complete = []"
  by (simp_all add: phase_complete_def schedule_monitor_def demo_answer_defs piece_partition_def shard_pieces_def)

lemma demo_reach:
  "demo_reachable (run_at (MapSend 0 ''w:1'') Polling False demo_take1)"
  "demo_reachable (run_at (Mapping 2) Polling False demo_send2)"
  "demo_reachable (run_at MapWait Polling True one_answered)"
  "demo_reachable (run_at MapMonitor (Notified True) False both_answered)"
  "demo_reachable (run_at MapDecided (Notified True) True phase_complete)"
  "demo_reachable (run_at MapWait Polling True both_answered)"
  "demo_reachable (run_at MapMonitor (Notified True) False (answer ''w:1'' ''1'' 0 idle_failed))"
proof -
  have "demo_reachable (run_at Starting Polling False demo_init)"
    by (rule reachable_start) (simp add: run_init_def demo_run0(1) run_at_def)
  moreover have "master_step (run_at Starting Polling False demo_init) (run_at (Mapping 0) Polling False demo_init)"
  proof -
    have "demo_init\<lparr>num_dropped_workers := 0\<rparr> = demo_init" using demo_run0(2) by simp
    then show ?thesis using main [OF _ run_main_step.first_pongs [of "run_at Starting Polling False demo_init"]] by (simp add: run_at_def)
  qed
  ultimately have "demo_reachable (run_at (Mapping 0) Polling False demo_init)" by (rule reachable_step)
  then show r0: "demo_reachable (run_at (MapSend 0 ''w:1'') Polling False demo_take1)"
    by (intro run_at_take [where i = 0 and m = demo_init]) (simp_all add: demo_runs two_shards_def)
  then have "demo_reachable (run_at (Mapping 1) Polling False demo_send1)" using run_at_send [OF demo_runs(4) r0] by simp
  then have "demo_reachable (run_at (MapSend 1 ''w:2'') Polling False demo_take2)"
    by (intro run_at_take [where i = 1 and m = demo_send1]) (simp_all add: demo_runs two_shards_def)
  from run_at_send [OF demo_runs(9) this] show r2: "demo_reachable (run_at (Mapping 2) Polling False demo_send2)" by (simp add: numeral_2_eq_2)
  have len: "length two_shards = 2" by (simp add: two_shards_def)
  have w: "demo_reachable (run_at MapWait Polling True demo_send2)" using run_at_sent [OF _ r2] demo_runs(10) len by simp
  have one: "demo_reachable (run_at p Polling f one_answered)" if "demo_reachable (run_at p Polling f demo_send2)" for p f
  proof -
    have "demo_reachable (run_at p Cleanup f one_answered)" using run_at_answer [of "''w:1''" 0 demo_send2 "''1''"] demo_answers(1) demo_runs(11) that by auto
    then show ?thesis using run_at_cleanup [OF demo_answers(5)] by blast
  qed
  then show r3: "demo_reachable (run_at MapWait Polling True one_answered)" using w by blast
  have both: "demo_reachable (run_at p Cleanup f both_answered)" if "demo_reachable (run_at p Polling f demo_send2)" for p f
    using run_at_answer [of "''w:2''" 1 one_answered "''2''"] demo_answers(2,3) one [OF that] by auto
  show r4: "demo_reachable (run_at MapMonitor (Notified True) False both_answered)"
    using run_at_cleanup [OF demo_answers(7) both [OF w]] run_at_notified by blast
  then show "demo_reachable (run_at MapDecided (Notified True) True phase_complete)" unfolding phase_complete_def by (rule run_at_decide)
  have "demo_reachable (run_at (Mapping 2) Polling False both_answered)" by (rule run_at_cleanup [OF demo_answers(6) both [OF r2]])
  from run_at_sent [OF _ this] show "demo_reachable (run_at MapWait Polling True both_answered)" using demo_answers(8) len by simp
  have "demo_reachable (run_at MapWait Polling True idle_failed)"
    using run_at_failure [OF _ _ demo_idle(1) w] demo_runs(12) by simp
  then have "demo_reachable (run_at MapWait Cleanup True (answer ''w:1'' ''1'' 0 idle_failed))"
    using run_at_answer [of "''w:1''" 0 idle_failed "''1''"] demo_idle(2,3) by auto
  from run_at_cleanup [OF demo_idle(4) this] show "demo_reachable (run_at MapMonitor (Notified True) False (answer ''w:1'' ''1'' 0 idle_failed))"
    using run_at_notified by blast
qed

lemma demo_complete_fields:
  "ready_queue phase_complete = [''w:3'', ''w:1'', ''w:2'']" "num_dropped_workers phase_complete = 0" "m_num_partitions phase_complete = 2"
  "\<not> reduce_complete phase_complete" "unfinished_shards phase_complete = []" "unfinished_partitions phase_complete = []" "output_files phase_complete = []"
  "sent phase_complete = []"
  "m_intermediate_files phase_complete = phase_names 2 [(''1'', two_shards ! 0), (''2'', two_shards ! 1)]"
  "ip_addr2worker phase_complete ''w:3'' = Some (Some new_WorkerClient)" "\<exists>c. ip_addr2worker phase_complete ''w:1'' = Some (Some c)"
  by (simp_all add: phase_complete_def schedule_monitor_def demo_answer_defs piece_partition_def shard_pieces_def phase_names_def)

text \<open>
  The reduce phase of the demonstration: the third worker is given partition 0 and the first one partition 1, the third one
  fails, and the answer of the first one wakes the main thread.
\<close>

definition reduce_at :: "(int \<Rightarrow> string list option) \<Rightarrow> main_pc \<Rightarrow> poll_pc \<Rightarrow> bool \<Rightarrow> Master \<Rightarrow> run_state" where
  "reduce_at idx p pl f m = (run_at p pl f m)\<lparr>idx2files := idx\<rparr>"

lemma reduce_at_simps [simp]: "mst (reduce_at idx p pl f m) = m" "pc (reduce_at idx p pl f m) = p" "polling (reduce_at idx p pl f m) = pl"
  "map_reduce_flag (reduce_at idx p pl f m) = f" "idx2files (reduce_at idx p pl f m) = idx" "stopped (reduce_at idx p pl f m) = None"
  by (simp_all add: reduce_at_def run_at_def)

lemma demo_reduce_start:
  "\<exists>idx. demo_reachable (reduce_at idx (Reducing 0) Polling False (phase_complete\<lparr>m_shards := [], m_partitions := [0, 1]\<rparr>))"
proof -
  let ?m = "phase_complete\<lparr>m_shards := []\<rparr>"
  obtain idx where idx: "group_files (m_intermediate_files phase_complete) = Inr idx" "dom idx = {0..<2}"
    using phase_grouping [of 2 "[(''1'', two_shards ! 0), (''2'', two_shards ! 1)]"] demo_complete_fields(9)
    by (auto simp: in_int_def INT_MIN_def INT_MAX_def)
  have "end_map_round phase_complete = (True, ?m)" using demo_complete(1) demo_complete_fields(5) by (simp add: end_map_round_def)
  then have "master_step (run_at MapDecided (Notified True) True phase_complete) (run_at MapJoin (Notified True) True ?m)"
    using main [OF _ map_round [of "run_at MapDecided (Notified True) True phase_complete" True ?m]] demo_complete_fields(5) by (simp add: run_at_def)
  with demo_reach(5) have "demo_reachable (run_at MapJoin (Notified True) True ?m)" by (rule reachable_step)
  moreover have "master_step (run_at MapJoin (Notified True) True ?m) (run_at MapJoin PollReturned False ?m)"
    using poll [OF _ poll_step.poll_resume [of "run_at MapJoin (Notified True) True ?m" True]] demo_complete(1) by (simp add: poll_resume_def) (simp add: run_at_def)
  ultimately have r: "demo_reachable (run_at MapJoin PollReturned False ?m)" by (rule reachable_step)
  have "distinct [0::int, 1] \<and> set [0, 1] = dom idx" using idx(2) by auto
  then have "master_step (run_at MapJoin PollReturned False ?m) (reduce_at idx (Reducing 0) Polling False (?m\<lparr>m_partitions := [0, 1]\<rparr>))"
    using main [OF _ group [of "run_at MapJoin PollReturned False ?m" idx "[0, 1]"]] idx(1) by (simp add: reduce_at_def) (simp add: run_at_def)
  from reachable_step [OF r this] show ?thesis by auto
qed

definition reduce_sent2 :: "rpc \<Rightarrow> rpc \<Rightarrow> Master" where
  "reduce_sent2 c0 c1 = phase_complete\<lparr>m_shards := [], m_partitions := [0, 1], ready_queue := [''w:2''],
     worker2job := (worker2job phase_complete)(''w:3'' \<mapsto> 0, ''w:1'' \<mapsto> 1), sent := [c0, c1]\<rparr>"

lemma demo_reduce_sent:
  "\<exists>idx c0 q. demo_reachable (reduce_at idx ReduceWait Polling True (reduce_sent2 c0 (ReduceRpc ''w:1'' q)))"
proof -
  let ?m = "phase_complete\<lparr>m_shards := [], m_partitions := [0, 1]\<rparr>"
  obtain idx where r0: "demo_reachable (reduce_at idx (Reducing 0) Polling False ?m)" using demo_reduce_start by blast
  let ?m1 = "?m\<lparr>ready_queue := [''w:1'', ''w:2''], worker2job := (worker2job phase_complete)(''w:3'' \<mapsto> 0)\<rparr>"
  have "take_ready 0 ?m = (Some ''w:3'', ?m1)" using demo_complete_fields(1) demo_complete(3) by (simp add: take_ready_def)
  then have "master_step (reduce_at idx (Reducing 0) Polling False ?m) (reduce_at idx (ReduceSend 0 ''w:3'') Polling False ?m1)"
    using main [OF _ reduce_take [of "reduce_at idx (Reducing 0) Polling False ?m" 0 "Some ''w:3''" ?m1]] demo_complete_fields(1)
    by simp (simp add: reduce_at_def run_at_def)
  with r0 have r1: "demo_reachable (reduce_at idx (ReduceSend 0 ''w:3'') Polling False ?m1)" by (rule reachable_step)
  obtain c0 where c0: "send_reducer_job ''w:3'' 0 (case idx 0 of None \<Rightarrow> [] | Some fl \<Rightarrow> fl) ?m1 = Inr (?m1\<lparr>sent := [c0]\<rparr>)"
    using demo_complete_fields(8,10) by (simp add: send_reducer_job_def client_at_def)
  let ?m2 = "?m1\<lparr>sent := [c0]\<rparr>"
  have "master_step (reduce_at idx (ReduceSend 0 ''w:3'') Polling False ?m1) (reduce_at idx (Reducing 1) Polling False ?m2)"
    using main [OF _ reduce_send [of "reduce_at idx (ReduceSend 0 ''w:3'') Polling False ?m1" 0 "''w:3''", OF _ refl refl]] c0
    by (simp add: goes_to_def) (simp add: reduce_at_def run_at_def)
  with r1 have r2: "demo_reachable (reduce_at idx (Reducing 1) Polling False ?m2)" by (rule reachable_step)
  let ?m3 = "?m2\<lparr>ready_queue := [''w:2''], worker2job := (worker2job phase_complete)(''w:3'' \<mapsto> 0, ''w:1'' \<mapsto> 1)\<rparr>"
  have "take_ready 1 ?m2 = (Some ''w:1'', ?m3)" using demo_complete(3) by (simp add: take_ready_def)
  then have "master_step (reduce_at idx (Reducing 1) Polling False ?m2) (reduce_at idx (ReduceSend 1 ''w:1'') Polling False ?m3)"
    using main [OF _ reduce_take [of "reduce_at idx (Reducing 1) Polling False ?m2" 1 "Some ''w:1''" ?m3]]
    by simp (simp add: reduce_at_def run_at_def)
  with r2 have r3: "demo_reachable (reduce_at idx (ReduceSend 1 ''w:1'') Polling False ?m3)" by (rule reachable_step)
  obtain q where q: "send_reducer_job ''w:1'' 1 (case idx 1 of None \<Rightarrow> [] | Some fl \<Rightarrow> fl) ?m3 = Inr (reduce_sent2 c0 (ReduceRpc ''w:1'' q))"
    using demo_complete_fields(11) by (auto simp: send_reducer_job_def client_at_def reduce_sent2_def)
  have "master_step (reduce_at idx (ReduceSend 1 ''w:1'') Polling False ?m3) (reduce_at idx (Reducing 2) Polling False (reduce_sent2 c0 (ReduceRpc ''w:1'' q)))"
    using main [OF _ reduce_send [of "reduce_at idx (ReduceSend 1 ''w:1'') Polling False ?m3" 1 "''w:1''", OF _ refl refl]] q
    by (simp add: goes_to_def numeral_2_eq_2) (simp add: reduce_at_def run_at_def)
  with r3 have r4: "demo_reachable (reduce_at idx (Reducing 2) Polling False (reduce_sent2 c0 (ReduceRpc ''w:1'' q)))" by (rule reachable_step)
  have "master_step (reduce_at idx (Reducing 2) Polling False (reduce_sent2 c0 (ReduceRpc ''w:1'' q)))
      (reduce_at idx ReduceWait Polling True (reduce_sent2 c0 (ReduceRpc ''w:1'' q)))"
    using main [OF _ reduce_sent [of "reduce_at idx (Reducing 2) Polling False (reduce_sent2 c0 (ReduceRpc ''w:1'' q))" 2]]
    by (simp add: reduce_sent2_def) (simp add: reduce_at_def run_at_def)
  with r4 have r5: "demo_reachable (reduce_at idx ReduceWait Polling True (reduce_sent2 c0 (ReduceRpc ''w:1'' q)))" by (rule reachable_step)
  show ?thesis by ((rule exI)+, rule r5)
qed

lemma demo_reduce_decided:
  "\<exists>s. demo_reachable s \<and> stopped s = None \<and> pc s = ReduceDecided \<and> \<not> reduce_complete (mst s) \<and> m_partitions (mst s) = [0, 1] \<and>
     dropped_worker_ips (mst s) = [''w:3'']"
proof -
  obtain idx c0 q where "demo_reachable (reduce_at idx ReduceWait Polling True (reduce_sent2 c0 (ReduceRpc ''w:1'' q)))"
    using demo_reduce_sent by (elim exE)
  note r0 = this
  define m where "m = reduce_sent2 c0 (ReduceRpc ''w:1'' q)"
  have m: "clients_ok m" "map_complete m" "''w:3'' \<in> set (worker_ips m)"
    using master_reachable_inv [OF three_workers_usable r0] demo_complete by (simp_all add: run_inv_def m_def reduce_sent2_def)
  obtain m1 where m1: "handle_worker_failure ''w:3'' m = Inr m1" "num_dropped_workers m1 = 1" "worker_ips m1 = [''w:1'', ''w:2'']"
    "dropped_worker_ips m1 = [''w:3'']" "\<exists>c. ip_addr2worker m1 ''w:1'' = Some (Some c)" "sent m1 = [c0, ReduceRpc ''w:1'' q]"
    "output_files m1 = []" "m_partitions m1 = [0, 1]" "map_complete m1" "\<not> reduce_complete m1" "m_num_partitions m1 = 2"
    using demo_complete demo_complete_fields
    by (simp add: handle_worker_failure_def client_at_def m_def reduce_sent2_def remove_worker_ip_def new_WorkerClient_def)
  have "master_step (reduce_at idx ReduceWait Polling True m) (reduce_at idx ReduceWait Polling True m1)"
    using monitor [OF _ monitor_step.failure [of "''w:3''" "reduce_at idx ReduceWait Polling True m"]] m(3) m1(1)
    by (simp add: goes_def) (simp add: reduce_at_def run_at_def)
  with r0 [folded m_def] have r1: "demo_reachable (reduce_at idx ReduceWait Polling True m1)" by (rule reachable_step)
  let ?call = "\<lparr>is_map_job = False, status_ok = True, worker_ip_addr = ''w:1'', result_files = [output_name (rq_output_dir q) (rq_partition_id q)]\<rparr>"
  let ?c = "ReduceRpc ''w:1'' q"
  have a: "answers port ?c ?call" for port by simp
  let ?m2 = "m1\<lparr>ready_queue := ready_queue m1 @ [''w:1''], worker2job := (worker2job m1)(''w:1'' := None)\<rparr>"
  have "poll_response ?call m1 = (True, ?m2)" using m1(3) by (simp add: poll_response_def)
  then have "master_step (reduce_at idx ReduceWait Polling True m1) (reduce_at idx ReduceWait (Counting ?c ?call) True ?m2)"
    using poll [OF _ poll_step.poll_response [of "reduce_at idx ReduceWait Polling True m1", OF _ _ a, of True ?m2]] m1(6)
    by simp (simp add: reduce_at_def run_at_def)
  with r1 have r2: "demo_reachable (reduce_at idx ReduceWait (Counting ?c ?call) True ?m2)" by (rule reachable_step)
  define m3 where "m3 = count_response ?call (?m2\<lparr>sent := remove1 ?c (sent ?m2)\<rparr>)"
  have m3: "num_dropped_workers m3 = 1" "dropped_worker_ips m3 = [''w:3'']" "length (output_files m3) = 1" "m_partitions m3 = [0, 1]"
    "map_complete m3" "\<not> reduce_complete m3" "m_num_partitions m3 = 2"
    using m1 by (auto simp: m3_def count_response_def client_at_def)
  have "master_step (reduce_at idx ReduceWait (Counting ?c ?call) True ?m2) (reduce_at idx ReduceWait Cleanup True m3)"
    using poll [OF _ poll_step.poll_count [of "reduce_at idx ReduceWait (Counting ?c ?call) True ?m2"]]
    by (simp add: m3_def) (simp add: reduce_at_def run_at_def)
  with r2 have r3: "demo_reachable (reduce_at idx ReduceWait Cleanup True m3)" by (rule reachable_step)
  have "poll_cleanup True m3 = (False, Notified False)" using m3 by (simp add: poll_cleanup_def notify_master_def)
  then have "master_step (reduce_at idx ReduceWait Cleanup True m3) (reduce_at idx ReduceWait (Notified False) False m3)"
    using poll [OF _ poll_step.poll_cleanup [of "reduce_at idx ReduceWait Cleanup True m3" False "Notified False"]]
    by simp (simp add: reduce_at_def run_at_def)
  with r3 have r4: "demo_reachable (reduce_at idx ReduceWait (Notified False) False m3)" by (rule reachable_step)
  have "master_step (reduce_at idx ReduceWait (Notified False) False m3) (reduce_at idx ReduceMonitor (Notified False) False m3)"
    using main [OF _ reduce_notified [of "reduce_at idx ReduceWait (Notified False) False m3"]] by simp (simp add: reduce_at_def run_at_def)
  with r4 have r5: "demo_reachable (reduce_at idx ReduceMonitor (Notified False) False m3)" by (rule reachable_step)
  have "master_step (reduce_at idx ReduceMonitor (Notified False) False m3) (reduce_at idx ReduceDecided (Notified False) True (schedule_monitor m3))"
    using main [OF _ reduce_decide [of "reduce_at idx ReduceMonitor (Notified False) False m3"]] by simp (simp add: reduce_at_def run_at_def)
  with r5 have r6: "demo_reachable (reduce_at idx ReduceDecided (Notified False) True (schedule_monitor m3))" by (rule reachable_step)
  show ?thesis using m3 r6 by (intro exI [of _ "reduce_at idx ReduceDecided (Notified False) True (schedule_monitor m3)"]) (simp add: schedule_monitor_def)
qed

section \<open>Properties\<close>



lemma sum_list_eq_pointwise:
  fixes f g :: "'a \<Rightarrow> int"
  assumes "\<And>x. x \<in> set xs \<Longrightarrow> f x \<le> g x" and "sum_list (map g xs) \<le> sum_list (map f xs)"
  shows "\<forall>x\<in>set xs. f x = g x"
  using assms
proof (induction xs)
  case (Cons x xs)
  have le: "f x \<le> g x" "\<And>y. y \<in> set xs \<Longrightarrow> f y \<le> g y" by (rule Cons.prems(1), simp)+
  have "sum_list (map f xs) \<le> sum_list (map g xs)" by (rule sum_list_mono) (rule le(2))
  moreover have "g x + sum_list (map g xs) \<le> f x + sum_list (map f xs)" using Cons.prems(2) by simp
  ultimately have eq: "f x = g x" "sum_list (map g xs) \<le> sum_list (map f xs)" using le(1) by linarith+
  have "\<forall>y\<in>set xs. f y = g y" by (rule Cons.IH [OF _ eq(2)]) (rule le(2))
  then show ?case using eq(1) by simp
qed simp

text \<open>
  C5: When the master declares the map phase complete, and has not sent shards twice, then no map call has
  ended with an error, every worker in use has completed every shard that was sent to it, and every shard of the
  input is among them. In particular a single map call that ends with an error keeps the phase from ever being complete.
\<close>

theorem master_map_phase_complete:
  assumes "spec_usable spec fl" and "reachable (run_init spec fl) master_step s"
    and "pc s = MapMonitor" and "\<not> resent s" and "map_complete (schedule_monitor (mst s))"
  shows "map_errors s = 0 \<and>
    (\<forall>ip\<in>set (worker_ips (mst s)). completed_map_jobs (cl (mst s) ip) = int (length (map_shards (cl (mst s) ip)))) \<and>
    (\<forall>sh\<in>set fl. \<exists>ip\<in>set (worker_ips (mst s)). sh \<in> set (map_shards (cl (mst s) ip)))"
proof -
  let ?m = "mst s"
  have inv: "clients_ok ?m" "\<not> map_complete ?m" "counters_ok fl (map_errors s) False [] ?m"
    using master_reachable_inv [OF assms(1,2)] assms(3,4) by (simp_all add: run_inv_def jobs_ok_def map_pc_def unsent_def)
  note D = clients_okD [OF inv(1)]
  have C: "unfinished_shards ?m = []" "num_map_msgs ?m - num_dropped_map_jobs ?m = num_shards ?m"
    using assms(5) by (simp_all add: schedule_monitor_map [OF inv(2)])
  have sums: "(\<Sum>ip\<leftarrow>worker_ips ?m. int (length (map_shards (cl ?m ip)))) = (\<Sum>ip\<leftarrow>worker_ips ?m. completed_map_jobs (cl ?m ip)) - int (map_errors s)"
    using inv(3) C by (simp add: counters_ok_def)
  have le: "completed_map_jobs (cl ?m ip) \<le> int (length (map_shards (cl ?m ip)))" if "ip \<in> set (worker_ips ?m)" for ip
    using D(9) [OF that] by linarith
  have "(\<Sum>ip\<leftarrow>worker_ips ?m. completed_map_jobs (cl ?m ip)) \<le> (\<Sum>ip\<leftarrow>worker_ips ?m. int (length (map_shards (cl ?m ip))))"
    using le by (intro sum_list_mono)
  then have "map_errors s = 0" using sums by simp
  moreover have "\<forall>ip\<in>set (worker_ips ?m). completed_map_jobs (cl ?m ip) = int (length (map_shards (cl ?m ip)))"
    using sum_list_eq_pointwise [of "worker_ips ?m" "\<lambda>ip. completed_map_jobs (cl ?m ip)" "\<lambda>ip. int (length (map_shards (cl ?m ip)))"] le sums by simp
  ultimately show ?thesis using inv(3) C(1) by (simp add: counters_ok_def)
qed

theorem master_map_phase_complete_witness:
  "\<exists>ip\<in>set (worker_ips both_answered). two_shards ! 1 \<in> set (map_shards (cl both_answered ip))"
  using master_map_phase_complete [OF three_workers_usable demo_reach(4)] demo_complete(1)
  by (simp add: phase_complete_def) (simp add: two_shards_def)

text \<open>
  When the main thread waits and only one answer of a worker in use is missing, with nothing lost and nothing left over, there
  is an interleaving that ends the map phase, with the thread that polls returned, so the main thread can join it.
\<close>

theorem map_phase_can_end:
  assumes "spec_usable spec fl" and "reachable (run_init spec fl) master_step s" and "stopped s = None" and "pc s = MapWait"
    and "map_reduce_flag s" and "polling s = Polling" and "MapRpc ip q \<in> set (sent (mst s))" and "ip \<in> set (worker_ips (mst s))"
    and "unfinished_shards (mst s) = []" and "num_dropped_workers (mst s) = 0"
    and "num_map_msgs (mst s) - num_dropped_map_jobs (mst s) + 1 = num_shards (mst s)"
  shows "\<exists>t. master_step\<^sup>*\<^sup>* s t \<and> pc t = MapJoin \<and> polling t = PollReturned \<and> map_complete (mst t)"
proof -
  have inv: "clients_ok (mst s)" "\<not> map_complete (mst s)"
    using master_reachable_inv [OF assms(1,2)] assms(4) by (simp_all add: run_inv_def jobs_ok_def map_pc_def)
  have lv: "live (mst s) ip" using clients_okD(3) [OF inv(1)] assms(8) by simp
  define call where "call = \<lparr>is_map_job = True, status_ok = True, worker_ip_addr = ip, result_files = job_names [] (mq_n_partitions q)\<rparr>"
  define m1 where "m1 = (mst s)\<lparr>ready_queue := ready_queue (mst s) @ [ip], worker2job := (worker2job (mst s))(ip := None)\<rparr>"
  define m2 where "m2 = count_response call (m1\<lparr>sent := remove1 (MapRpc ip q) (sent m1)\<rparr>)"
  have a: "answers [] (MapRpc ip q) call" "poll_response call (mst s) = (True, m1)" using assms(8) by (simp_all add: call_def poll_response_def m1_def)
  have lv1: "client_at ip (m1\<lparr>sent := remove1 (MapRpc ip q) (sent m1)\<rparr>) = (Some (cl (mst s) ip), m1\<lparr>sent := remove1 (MapRpc ip q) (sent m1)\<rparr>)"
    using lv by (auto simp: client_at_def live_def cl_def m1_def)
  have m2: "unfinished_shards m2 = []" "\<not> map_complete m2" "num_dropped_workers m2 = 0" "num_map_msgs m2 - num_dropped_map_jobs m2 = num_shards m2"
    using assms(9-11) inv(2) lv1 by (simp_all add: m2_def count_response_def call_def) (simp_all add: m1_def)
  have nf: "poll_cleanup True m2 = (False, Notified True)" using m2 by (simp add: poll_cleanup_def notify_master_def)
  define m3 where "m3 = schedule_monitor m2"
  have m3: "m3 = m2\<lparr>map_complete := True, num_dropped_workers := 0\<rparr>" using m2 by (simp add: m3_def schedule_monitor_map)
  define m4 where "m4 = snd (end_map_round m3)"
  have m4: "end_map_round m3 = (True, m4)" "map_complete m4" using m2(1) by (simp_all add: m4_def m3 end_map_round_def)
  let ?s1 = "s\<lparr>mst := m1, polling := Counting (MapRpc ip q) call\<rparr>"
  let ?s2 = "?s1\<lparr>mst := m2, polling := Cleanup\<rparr>"
  let ?s3 = "?s2\<lparr>polling := Notified True, map_reduce_flag := False\<rparr>"
  let ?s4 = "?s3\<lparr>pc := MapMonitor\<rparr>"
  let ?s5 = "?s4\<lparr>mst := m3, pc := MapDecided, map_reduce_flag := True\<rparr>"
  let ?s6 = "?s5\<lparr>polling := PollReturned, map_reduce_flag := False\<rparr>"
  let ?s7 = "?s6\<lparr>mst := m4, pc := MapJoin, resent := resent s\<rparr>"
  have "master_step s (s\<lparr>mst := m1, polling := Counting (MapRpc ip q) call, map_errors := map_errors s\<rparr>)"
    using poll [OF assms(3) poll_step.poll_response [OF assms(6,7) a]] by (simp add: call_def)
  then have "master_step s ?s1" by simp
  moreover have "master_step ?s1 ?s2"
    using poll [OF _ poll_step.poll_count [of ?s1 "MapRpc ip q" call]] assms(3) by (simp add: m2_def)
  moreover have "master_step ?s2 ?s3" using poll [OF _ poll_step.poll_cleanup [of ?s2 False "Notified True"]] assms(3,5) nf by simp
  moreover have "master_step ?s3 ?s4" using main [OF _ map_notified [of ?s3]] assms(3,4) by simp
  moreover have "master_step ?s4 ?s5" using main [OF _ map_decide [of ?s4]] assms(3) by (simp add: m3_def)
  moreover have "master_step ?s5 ?s6" using poll [OF _ poll_step.poll_resume [of ?s5 True]] assms(3) by (simp add: poll_resume_def m3)
  moreover have "master_step ?s6 ?s7" using main [OF _ map_round [of ?s6 True m4]] assms(3) m4(1) by simp
  ultimately have "master_step\<^sup>*\<^sup>* s ?s7" by (meson converse_rtranclp_into_rtranclp rtranclp.rtrancl_refl)
  then show ?thesis using m4(2) by (intro exI [of _ ?s7]) simp
qed

theorem map_phase_can_end_witness:
  "\<exists>t. master_step\<^sup>*\<^sup>* (run_at MapWait Polling True one_answered) t \<and> pc t = MapJoin \<and> polling t = PollReturned \<and> map_complete (mst t)"
  using map_phase_can_end [OF three_workers_usable demo_reach(3)] demo_answers(3,9-12) by (simp add: sent_call_def)

text \<open>
  The main thread has set its flag after the last response was processed: nothing is left that could notify it.
\<close>

definition hung :: "run_state \<Rightarrow> bool" where
  "hung s \<longleftrightarrow> pc s = MapWait \<and> map_reduce_flag s \<and> polling s = Polling \<and> sent (mst s) = []"

lemma failure_sent: "handle_worker_failure ip m = Inr t \<Longrightarrow> sent t = sent m"
  by (auto simp: handle_worker_failure_def client_at_def remove_worker_ip_def remove_intermediate_file_def bnd_eq_Inr Let_def
    split: if_splits option.splits)

lemma hung_step:
  assumes "master_step s t" and "hung s"
  shows "hung t"
  using assms(1)
proof cases
  case main
  from main(2) show ?thesis by cases (use assms(2) in \<open>auto simp: hung_def\<close>)
next
  case poll
  from poll(2) show ?thesis by cases (use assms(2) in \<open>auto simp: hung_def\<close>)
next
  case monitor
  from monitor(2) show ?thesis
  proof cases
    case (failure ip)
    then show ?thesis using assms(2) failure_sent [of ip "mst s"]
      by (cases "handle_worker_failure ip (mst s)") (simp_all add: goes_def hung_def)
  qed
qed

text \<open>
  C28: When the last response is processed before the main thread starts to wait, the master hangs: whatever happens then, failures of
  workers included, it never leaves the wait in \<open>schedule_monitor\<close>.
\<close>

theorem late_wait_hangs:
  assumes "hung s" and "master_step\<^sup>*\<^sup>* s t"
  shows "pc t = MapWait \<and> map_reduce_flag t \<and> sent (mst t) = []"
proof -
  have "hung t" using assms(2) by induction (use assms(1) hung_step in \<open>auto\<close>)
  then show ?thesis by (simp add: hung_def)
qed

theorem late_wait_hangs_witness:
  "demo_reachable (run_at MapWait Polling True both_answered) \<and> m_shards both_answered = two_shards \<and>
   (\<exists>t. master_step\<^sup>*\<^sup>* (run_at MapWait Polling True both_answered) t \<and> pc t = MapWait)"
  using late_wait_hangs [of "run_at MapWait Polling True both_answered" "run_at MapWait Polling True both_answered"]
    demo_reach(6) demo_answers(4,8) by (auto simp: hung_def)

text \<open>
  C29: No client ever records the partitions that were sent to it. So when a worker fails in the reduce phase
  \<open>handle_worker_failure\<close> queues none of its partitions and takes back none of its outputs, whatever the worker was doing.
  The round is complete when there are as many outputs as partitions; when it is not, \<open>run\<close> starts over with the same
  vector: every partition is sent again, those that already have an output included, instead of those of the worker that failed.
\<close>

theorem failed_reducer_repeats_round:
  assumes "spec_usable spec fl" and "reachable (run_init spec fl) master_step s"
  shows "(map_complete (mst s) \<and> ip \<in> set (worker_ips (mst s)) \<longrightarrow>
      (\<exists>m. handle_worker_failure ip (mst s) = Inr m \<and> ip \<notin> set (worker_ips m) \<and> unfinished_partitions m = [] \<and>
         m_partitions m = m_partitions (mst s) \<and> output_files m = output_files (mst s) \<and> removed m = removed (mst s))) \<and>
    (pc s = ReduceMonitor \<and> run_main_step s t \<and> \<not> reduce_complete (mst s) \<longrightarrow> pc t = ReduceDecided \<and> m_partitions (mst t) = m_partitions (mst s) \<and>
      (reduce_complete (mst t) \<longleftrightarrow> int (length (output_files (mst s))) = m_num_partitions (mst s))) \<and>
    (pc s = ReduceDecided \<and> run_main_step s t \<and> \<not> reduce_complete (mst s) \<longrightarrow> pc t = Reducing 0 \<and> m_partitions (mst t) = m_partitions (mst s))"
proof (intro conjI impI)
  have inv: "clients_ok (mst s)" "jobs_ok fl s" using master_reachable_inv [OF assms] by (simp_all add: run_inv_def)
  note D = clients_okD [OF inv(1)]
  {
    assume s: "map_complete (mst s) \<and> ip \<in> set (worker_ips (mst s))"
    then have "client_at ip (mst s) = (Some (cl (mst s) ip), mst s)" using D(3) by (simp add: client_at_live)
    then show "\<exists>m. handle_worker_failure ip (mst s) = Inr m \<and> ip \<notin> set (worker_ips m) \<and> unfinished_partitions m = [] \<and>
         m_partitions m = m_partitions (mst s) \<and> output_files m = output_files (mst s) \<and> removed m = removed (mst s)"
      using s D(1,6) D(7) [of ip] by (simp add: handle_worker_failure_def remove_worker_ip_def Let_def)
  }
  {
    assume s: "pc s = ReduceMonitor \<and> run_main_step s t \<and> \<not> reduce_complete (mst s)"
    then have mc: "map_complete (mst s)" using inv(2) by (simp add: jobs_ok_def map_pc_def)
    have t: "t = s\<lparr>mst := schedule_monitor (mst s), pc := ReduceDecided, map_reduce_flag := True\<rparr>"
      using s by (auto elim: run_main_step.cases)
    show "pc t = ReduceDecided" "m_partitions (mst t) = m_partitions (mst s)"
      "reduce_complete (mst t) \<longleftrightarrow> int (length (output_files (mst s))) = m_num_partitions (mst s)"
      using s mc D(6) by (simp_all add: t schedule_monitor_def Let_def)
  }
  {
    assume s: "pc s = ReduceDecided \<and> run_main_step s t \<and> \<not> reduce_complete (mst s)"
    then have "pc t = Reducing 0 \<and> mst t = mst s"
      using D(6) by (auto elim!: run_main_step.cases simp: end_reduce_round_def)
    then show "pc t = Reducing 0" "m_partitions (mst t) = m_partitions (mst s)" by simp_all
  }
qed

theorem failed_reducer_repeats_round_witness:
  "\<exists>s t. demo_reachable s \<and> dropped_worker_ips (mst s) = [''w:3''] \<and> run_main_step s t \<and> pc t = Reducing 0 \<and> m_partitions (mst t) = [0, 1]"
proof -
  obtain s where s: "demo_reachable s" "pc s = ReduceDecided" "\<not> reduce_complete (mst s)" "m_partitions (mst s) = [0, 1]"
    "dropped_worker_ips (mst s) = [''w:3'']" using demo_reduce_decided by blast
  obtain complete m where "end_reduce_round (mst s) = (complete, m)" by (cases "end_reduce_round (mst s)")
  from reduce_round [OF s(2) this] obtain t where t: "run_main_step s t" by blast
  show ?thesis using failed_reducer_repeats_round [OF three_workers_usable s(1), of _ t] s t by (intro exI [of _ s] exI [of _ t]) simp
qed

text \<open>
  When the main thread is woken although not all jobs are counted, because a worker failed, and that worker had been
  given nothing, then nothing is left over and nothing is complete, and the master sends all shards of the round once more.
\<close>

theorem idle_failure_resends_all:
  assumes "spec_usable spec fl" and "reachable (run_init spec fl) master_step s" and "stopped s = None" and "pc s = MapMonitor"
    and "unfinished_shards (mst s) = []" and "num_map_msgs (mst s) - num_dropped_map_jobs (mst s) \<noteq> num_shards (mst s)"
  shows "\<exists>t u. master_step s t \<and> master_step t u \<and> pc u = Mapping 0 \<and> m_shards (mst u) = m_shards (mst s) \<and> resent u"
proof -
  have nc: "\<not> map_complete (mst s)"
    using master_reachable_inv [OF assms(1,2)] assms(4) by (simp add: run_inv_def jobs_ok_def map_pc_def)
  let ?m = "(mst s)\<lparr>map_complete := False, num_dropped_workers := 0\<rparr>"
  have m: "schedule_monitor (mst s) = ?m" using assms(6) by (simp add: schedule_monitor_map [OF nc])
  let ?t = "s\<lparr>mst := ?m, pc := MapDecided, map_reduce_flag := True\<rparr>"
  have "master_step s ?t" using main [OF assms(3) map_decide [OF assms(4)]] m by simp
  moreover have "end_map_round ?m = (False, ?m)" using assms(5) by (simp add: end_map_round_def)
  then have "master_step ?t (?t\<lparr>mst := ?m, pc := Mapping 0, resent := True\<rparr>)"
    using main [OF _ map_round [of ?t False ?m]] assms(3,5) by simp
  ultimately show ?thesis by (intro exI conjI) (assumption, assumption, simp_all)
qed

theorem idle_failure_resends_all_witness:
  "\<exists>t u. master_step (run_at MapMonitor (Notified True) False (answer ''w:1'' ''1'' 0 idle_failed)) t \<and> master_step t u \<and>
     pc u = Mapping 0 \<and> m_shards (mst u) = m_shards (answer ''w:1'' ''1'' 0 idle_failed) \<and> resent u"
  using idle_failure_resends_all [OF three_workers_usable demo_reach(7)] demo_idle(5,6) by simp

text \<open>
  C31: Two ways to dereference the null client of a dropped worker. Between the release of the lock and the call of
  \<open>send_mapper_job\<close> the chosen worker can fail; and in the reduce phase a second report of the failure of a worker crashes.
\<close>

theorem dropped_worker_crashes:
  assumes "spec_usable spec fl" and "reachable (run_init spec fl) master_step s" and "stopped s = None"
  shows "(pc s = MapSend i ip \<and> ip \<in> set (worker_ips (mst s)) \<longrightarrow> (\<exists>t u. master_step s t \<and> master_step t u \<and> stopped u = Some BadPointer)) \<and>
    (map_complete (mst s) \<and> ip \<in> set (worker_ips (mst s)) \<and> pc s \<noteq> Returned \<longrightarrow>
      (\<exists>t u. master_step s t \<and> master_step t u \<and> stopped u = Some BadPointer))"
proof (intro conjI impI)
  have inv: "clients_ok (mst s)" "jobs_ok fl s" using master_reachable_inv [OF assms(1,2)] by (simp_all add: run_inv_def)
  have dead: "\<not> live m ip" if "clients_ok m" "worker_ips m = remove1 ip (worker_ips (mst s))" for m
    using clients_okD(1,3) [OF that(1)] that(2) clients_okD(1) [OF inv(1)] by simp
  {
    assume s: "pc s = MapSend i ip \<and> ip \<in> set (worker_ips (mst s))"
    then have nc: "\<not> map_complete (mst s)" using inv(2) by (simp add: jobs_ok_def map_pc_def)
    from map_failure_ok [OF inv(1) conjunct2 [OF s] nc] obtain m where
      m: "handle_worker_failure ip (mst s) = Inr m" "clients_ok m" "worker_ips m = remove1 ip (worker_ips (mst s))" by blast
    have "master_step s (s\<lparr>mst := m\<rparr>)" using monitor [OF assms(3) failure [of ip s]] s m(1) by (simp add: goes_def)
    moreover have "master_step (s\<lparr>mst := m\<rparr>) (s\<lparr>mst := m, stopped := Some BadPointer\<rparr>)"
      using main [OF _ map_send [of "s\<lparr>mst := m\<rparr>" i ip]] s assms(3) send_dropped(1) [OF dead [OF m(2,3)]] by (simp add: goes_to_def)
    ultimately show "\<exists>t u. master_step s t \<and> master_step t u \<and> stopped u = Some BadPointer"
      by (intro exI conjI) (assumption, assumption, simp)
  }
  {
    assume s: "map_complete (mst s) \<and> ip \<in> set (worker_ips (mst s)) \<and> pc s \<noteq> Returned"
    from reduce_failure_ok [OF inv(1), of ip] s obtain m where
      m: "handle_worker_failure ip (mst s) = Inr m" "clients_ok m" "map_complete m" "worker_ips m = remove1 ip (worker_ips (mst s))"
      "dropped_worker_ips m = dropped_worker_ips (mst s) @ [ip]" by blast
    have "master_step s (s\<lparr>mst := m\<rparr>)" using monitor [OF assms(3) failure [of ip s]] s m(1) by (simp add: goes_def)
    moreover have "master_step (s\<lparr>mst := m\<rparr>) (s\<lparr>mst := m, stopped := Some BadPointer\<rparr>)"
      using monitor [OF _ failure [of ip "s\<lparr>mst := m\<rparr>"]] s m(5) assms(3) failure_of_dropped(1) [OF m(2) dead [OF m(2,4)] m(3)] by (simp add: goes_def)
    ultimately show "\<exists>t u. master_step s t \<and> master_step t u \<and> stopped u = Some BadPointer"
      by (intro exI conjI) (assumption, assumption, simp)
  }
qed

theorem dropped_worker_crashes_witness:
  "(\<exists>t u. master_step (run_at (MapSend 0 ''w:1'') Polling False demo_take1) t \<and> master_step t u \<and> stopped u = Some BadPointer) \<and>
   (\<exists>t u. master_step (run_at MapDecided (Notified True) True phase_complete) t \<and> master_step t u \<and> stopped u = Some BadPointer)"
  using dropped_worker_crashes [OF three_workers_usable demo_reach(1), of 0 "''w:1''"]
    dropped_worker_crashes [OF three_workers_usable demo_reach(5), of 0 "''w:1''"] demo_runs(5) demo_complete by simp

section \<open>Rounds of the monitor\<close>

text \<open>
  \<open>receive_pongs\<close> is a sequence of failure steps, so the steps of the monitor cover its rounds. A failed pong lowers
  \<open>num_workers\<close>, the bound of the loop, so events of the round can stay unread, which is how a failure comes to be reported
  again when the worker has been dropped.
\<close>

lemma remove_intermediate_file_one: "\<exists>h. m_intermediate_files m - {h} \<subseteq> m_intermediate_files (remove_intermediate_file b m)"
proof (cases "find (\<lambda>f. sublist b f) (sorted_list_of_set (m_intermediate_files m))")
  case None
  then show ?thesis by (auto simp: remove_intermediate_file_def)
next
  case (Some h)
  then show ?thesis by (intro exI [of _ h]) (simp add: remove_intermediate_file_def)
qed

lemma failure_effect:
  assumes "handle_worker_failure ip m = Inr m'"
  shows "dropped_worker_ips m' = dropped_worker_ips m \<and> worker_ips m' = worker_ips m \<and> num_workers m' = num_workers m \<or>
    dropped_worker_ips m' = dropped_worker_ips m @ [ip] \<and> worker_ips m' = remove1 ip (worker_ips m) \<and> num_workers m' = num_workers m - 1"
proof -
  obtain c m1 where cm: "client_at ip m = (c, m1)" by (cases "client_at ip m")
  then have m1: "dropped_worker_ips m1 = dropped_worker_ips m" "worker_ips m1 = worker_ips m" "num_workers m1 = num_workers m"
    by (auto simp: client_at_def split: option.splits)
  show ?thesis
  proof (cases c)
    case None
    then show ?thesis using m1 assms cm by (simp add: handle_worker_failure_def split: if_splits)
  next
    case (Some client)
    obtain b where b: "substr ip (find_first (CHR '':'') ip + 1) npos = Inr b" using port_substr by blast
    obtain F R where fr: "remove_intermediate_file b (remove_worker_ip ip (m1\<lparr>unfinished_shards := unfinished_shards m1 @ map_shards client,
        num_dropped_map_jobs := num_dropped_map_jobs m1 + completed_map_jobs client\<rparr>)) =
        (remove_worker_ip ip (m1\<lparr>unfinished_shards := unfinished_shards m1 @ map_shards client,
        num_dropped_map_jobs := num_dropped_map_jobs m1 + completed_map_jobs client\<rparr>))\<lparr>m_intermediate_files := F, removed := R\<rparr>"
      using remove_intermediate_file_frame by blast
    have "dropped_worker_ips m' = dropped_worker_ips m @ [ip] \<and> worker_ips m' = remove1 ip (worker_ips m) \<and> num_workers m' = num_workers m - 1"
      using assms cm Some b fr m1 by (simp add: handle_worker_failure_def Let_def split: if_splits) (auto simp: remove_worker_ip_def)
    then show ?thesis by blast
  qed
qed

lemma failure_known:
  assumes "handle_worker_failure ip m = Inr m'"
  shows "set (worker_ips m) \<union> set (dropped_worker_ips m) \<subseteq> set (worker_ips m') \<union> set (dropped_worker_ips m')"
proof -
  have "x \<in> set (remove1 ip (worker_ips m))" if "x \<in> set (worker_ips m)" "x \<noteq> ip" for x using that by simp
  then show ?thesis using failure_effect [OF assms] by auto
qed

lemma receive_pongs_steps:
  assumes "receive_pongs i events (mst s) = Some (Inr (rest, m'))" and "stopped s = None" and "pc s \<noteq> Returned"
    and "fst ` set events \<subseteq> set (worker_ips (mst s)) \<union> set (dropped_worker_ips (mst s))"
  shows "master_step\<^sup>*\<^sup>* s (s\<lparr>mst := m'\<rparr>)"
  using assms
proof (induction events arbitrary: i s)
  case (Cons e events)
  obtain ip error_msg where e: "e = (ip, error_msg)" by (cases e)
  consider "int i < num_workers (mst s)" error_msg | "int i < num_workers (mst s)" "\<not> error_msg" | "\<not> int i < num_workers (mst s)" by blast
  then show ?case
  proof cases
    case 1
    with Cons.prems(1) obtain m1 where m1: "handle_worker_failure ip (mst s) = Inr m1" "receive_pongs (Suc i) events m1 = Some (Inr (rest, m'))"
      by (auto simp: e split: sum.splits)
    let ?t = "s\<lparr>mst := m1\<rparr>"
    have ip: "ip \<in> set (worker_ips (mst s)) \<union> set (dropped_worker_ips (mst s))" using Cons.prems(4) by (auto simp: e)
    have "master_step s ?t" using monitor [OF Cons.prems(2) failure [OF ip Cons.prems(3)]] m1(1) by (simp add: goes_def)
    moreover have "fst ` set events \<subseteq> set (worker_ips m1) \<union> set (dropped_worker_ips m1)"
      using failure_known [OF m1(1)] Cons.prems(4) by (auto simp: e)
    then have "master_step\<^sup>*\<^sup>* ?t (?t\<lparr>mst := m'\<rparr>)" using Cons.IH [of "Suc i" ?t] m1(2) Cons.prems(2,3) by simp
    ultimately show ?thesis by (simp add: converse_rtranclp_into_rtranclp)
  next
    case 2
    then show ?thesis using Cons.IH [of "Suc i" s] Cons.prems by (simp add: e)
  next
    case 3
    then show ?thesis using Cons.prems(1) by (auto simp: e)
  qed
qed (auto split: if_splits)

text \<open>
  C32: A worker that fails in the map phase has its shards mapped again elsewhere, but only one of its intermediate files is deleted:
  of any two, at least one is still grouped and reduced. Meanwhile the round of the monitor ends one event early for every failure in it.
\<close>

theorem failure_leaves_files:
  assumes "clients_ok m" and "ip \<in> set (worker_ips m)" and "\<not> map_complete m" and "handle_worker_failure ip m = Inr m'"
    and "f \<in> m_intermediate_files m" and "g \<in> m_intermediate_files m" and "f \<noteq> g"
  shows "set (map_shards (cl m ip)) \<subseteq> set (unfinished_shards m') \<and> (f \<in> m_intermediate_files m' \<or> g \<in> m_intermediate_files m') \<and>
    num_workers m' = num_workers m - 1"
proof -
  have "unfinished_shards m' = unfinished_shards m @ map_shards (cl m ip)" using map_failure_ok [OF assms(1-3)] assms(4) by auto
  moreover have "num_workers m' = num_workers m - 1 \<and> (\<exists>h. m_intermediate_files m - {h} \<subseteq> m_intermediate_files m')"
  proof -
    have lv: "live m ip" using clients_okD(3) [OF assms(1)] assms(2) by simp
    obtain b where b: "substr ip (find_first (CHR '':'') ip + 1) npos = Inr b" using port_substr by blast
    let ?m1 = "remove_worker_ip ip (m\<lparr>unfinished_shards := unfinished_shards m @ map_shards (cl m ip),
      num_dropped_map_jobs := num_dropped_map_jobs m + completed_map_jobs (cl m ip)\<rparr>)"
    have "m' = (remove_intermediate_file b ?m1)\<lparr>num_workers := num_workers (remove_intermediate_file b ?m1) - 1,
        num_dropped_workers := num_dropped_workers (remove_intermediate_file b ?m1) + 1\<rparr>"
      using assms(3,4) b by (simp add: handle_worker_failure_def client_at_live [OF lv] Let_def)
    moreover obtain h where "m_intermediate_files ?m1 - {h} \<subseteq> m_intermediate_files (remove_intermediate_file b ?m1)"
      using remove_intermediate_file_one by blast
    moreover have "num_workers (remove_intermediate_file b ?m1) = num_workers m" "m_intermediate_files ?m1 = m_intermediate_files m"
      using remove_intermediate_file_frame [of b ?m1] by (auto simp: remove_worker_ip_def)
    ultimately show ?thesis by auto
  qed
  ultimately show ?thesis using assms(5-7) by auto
qed

text \<open>A worker that has reported both of its files and fails while the other one is still at work.\<close>

theorem failure_leaves_files_witness:
  "\<exists>m. handle_worker_failure ''w:1'' one_answered = Inr m \<and> set (map_shards (cl one_answered ''w:1'')) \<subseteq> set (unfinished_shards m) \<and>
     (intermediate_name ''1'' 0 \<in> m_intermediate_files m \<or> intermediate_name ''1'' 1 \<in> m_intermediate_files m)"
proof -
  have inv: "clients_ok one_answered" "\<not> map_complete one_answered"
    using master_reachable_inv [OF three_workers_usable demo_reach(3)] by (simp_all add: run_inv_def jobs_ok_def map_pc_def)
  have w: "''w:1'' \<in> set (worker_ips one_answered)" using demo_answers(9) by simp
  from map_failure_ok [OF inv(1) w inv(2)] obtain m where m: "handle_worker_failure ''w:1'' one_answered = Inr m" by blast
  have "intermediate_name ''1'' 0 \<in> m_intermediate_files one_answered" "intermediate_name ''1'' 1 \<in> m_intermediate_files one_answered"
    by (simp_all add: demo_answer_defs piece_partition_def shard_pieces_def job_names_def)
  moreover have "intermediate_name ''1'' 0 \<noteq> intermediate_name ''1'' 1"
    using intermediate_name_inj [of "''1''" 0 1] by (auto simp: in_int_def INT_MIN_def INT_MAX_def)
  ultimately show ?thesis using failure_leaves_files [OF inv(1) w inv(2) m] m by blast
qed

end
