(* ===== verification/MasterThreads.thy ===== *)
theory MasterThreads
  imports MasterRun
begin

text \<open>
  The MapReduce master with its third thread, \<^verbatim>\<open>Master::monitor\<close> of \<^verbatim>\<open>project4/src/master.cc\<close>: the pings it
  sends with \<^verbatim>\<open>WorkerClient::send_monitor_ping\<close>, the pongs it reads from its completion queue, the flags
  through which the main thread waits for it and stops it, and the directory that \<^verbatim>\<open>Master::run\<close> makes and removes. The steps
  of the main thread and of the thread that polls are those of \<open>MasterRun\<close>, where a failure of a worker may be
  reported at any time; this theory shows that the monitor reports nothing else, and when it reports too much.
\<close>

section \<open>Pings and pongs\<close>

text \<open>
  \<open>pinged_ip\<close> is \<open>worker_ip_addr\<close> of the call, \<open>pong_id\<close> the \<open>id\<close> of the result. A ping that has been sent is
  the address it was sent to, which is also the \<open>id\<close> of its query.
\<close>

record MonitorCall =
  ping_status_ok :: bool
  pinged_ip :: string
  pong_id :: string

definition send_monitor_ping :: "string \<Rightarrow> string list \<Rightarrow> string list" where
  "send_monitor_ping worker_port cq = cq @ [worker_port]"

text \<open>Whether the ping failed, and the worker it is about.\<close>

definition receive_monitor_pong :: "MonitorCall \<Rightarrow> bool \<times> string" where
  "receive_monitor_pong call = (if \<not> ping_status_ok call then (True, pinged_ip call) else (False, pong_id call))"

text \<open>The loop at the start of a round. The map \<open>worker_status\<close> is left out: nothing reads it.\<close>

definition send_pings :: "Master \<Rightarrow> string list \<Rightarrow> (Master \<times> string list) outcome" where
  "send_pings m cq = foldm (\<lambda>ip (m, cq). case client_at ip m of
       (None, m) \<Rightarrow> Inl BadPointer
     | (Some client, m) \<Rightarrow> Inr (m, send_monitor_ping ip cq)) (worker_ips m) (m, cq)"

section \<open>Threads\<close>

text \<open>
  The monitor: before its first statement, at the head of its loop, waiting for pong \<open>i\<close> of a round, before the two tests of
  the flags, in the wait at the end of a round, after the loop, and at its end.
\<close>

datatype monitor_pc = MonitorStarts | MonitorLoop | MonitorPongs nat | MonitorFirst | MonitorTriggered | MonitorSleeps
  | MonitorLeaves | MonitorReturned

text \<open>
  The parts of \<open>Master::run\<close> that \<open>MasterRun\<close> has in one step: nothing of it is done (\<open>Enters\<close>), the directory is there
  (\<open>DirReady\<close>), the flag is set and the main thread waits for the monitor (\<open>Waits\<close>).
\<close>

datatype main_stage = Enters | DirReady | Waits

text \<open>What \<open>mkdir\<close> and \<open>rmdir\<close> may return: \<open>None\<close> is success.\<close>

datatype dir_errno = EEXIST | ENOTEMPTY | OtherErrno

record program =
  threads :: run_state
  monitor_at :: monitor_pc
  stage :: main_stage
  pings :: "string list"
  initial_monitor_job :: bool
  trigger_monitoring :: bool
  stop_monitoring :: bool
  terminated :: bool
  run_result :: "bool option"

definition program_init :: "MapReduceSpec \<Rightarrow> FileShard list \<Rightarrow> program \<Rightarrow> bool" where
  "program_init spec file_shards s \<longleftrightarrow> run_init spec file_shards (threads s) \<and> monitor_at s = MonitorStarts \<and> stage s = Enters \<and>
     pings s = [] \<and> \<not> trigger_monitoring s \<and> \<not> stop_monitoring s \<and> \<not> terminated s \<and> run_result s = None"

text \<open>
  \<open>Master::monitor\<close>. Only this thread clears the first two flags, so the test of a flag and its reset
  under the lock are one step. The wait at the end of a round ends when it is woken and after a second at the latest.
\<close>

inductive monitor_thread_step :: "program \<Rightarrow> program \<Rightarrow> bool" where
  monitor_starts: "monitor_at s = MonitorStarts \<Longrightarrow>
    monitor_thread_step s (s\<lparr>monitor_at := MonitorLoop, initial_monitor_job := True, stop_monitoring := False\<rparr>)"
| monitor_pings: "monitor_at s = MonitorLoop \<Longrightarrow> \<not> stop_monitoring s \<Longrightarrow> send_pings (mst (threads s)) (pings s) = Inr (m, cq) \<Longrightarrow>
    monitor_thread_step s (s\<lparr>threads := (threads s)\<lparr>mst := m\<rparr>, monitor_at := MonitorPongs 0, pings := cq\<rparr>)"
| monitor_ping_fault: "monitor_at s = MonitorLoop \<Longrightarrow> \<not> stop_monitoring s \<Longrightarrow> send_pings (mst (threads s)) (pings s) = Inl e \<Longrightarrow>
    monitor_thread_step s (s\<lparr>threads := (threads s)\<lparr>stopped := Some e\<rparr>\<rparr>)"
| monitor_pong: "monitor_at s = MonitorPongs i \<Longrightarrow> int i < num_workers (mst (threads s)) \<Longrightarrow> ip \<in> set (pings s) \<Longrightarrow>
    pinged_ip call = ip \<Longrightarrow> receive_monitor_pong call = (error_msg, w) \<Longrightarrow>
    monitor_thread_step s (s\<lparr>threads := (if error_msg then goes (threads s) (handle_worker_failure w (mst (threads s))) else threads s),
      monitor_at := MonitorPongs (Suc i), pings := remove1 ip (pings s)\<rparr>)"
| monitor_pongs_end: "monitor_at s = MonitorPongs i \<Longrightarrow> \<not> int i < num_workers (mst (threads s)) \<Longrightarrow>
    monitor_thread_step s (s\<lparr>monitor_at := MonitorFirst\<rparr>)"
| monitor_first: "monitor_at s = MonitorFirst \<Longrightarrow> monitor_thread_step s (s\<lparr>monitor_at := MonitorTriggered, initial_monitor_job := False\<rparr>)"
| monitor_triggered: "monitor_at s = MonitorTriggered \<Longrightarrow>
    monitor_thread_step s (s\<lparr>monitor_at := MonitorSleeps, trigger_monitoring := False\<rparr>)"
| monitor_wakes: "monitor_at s = MonitorSleeps \<Longrightarrow> monitor_thread_step s (s\<lparr>monitor_at := MonitorLoop\<rparr>)"
| monitor_stops: "monitor_at s = MonitorLoop \<Longrightarrow> stop_monitoring s \<Longrightarrow> monitor_thread_step s (s\<lparr>monitor_at := MonitorLeaves\<rparr>)"
| monitor_leaves: "monitor_at s = MonitorLeaves \<Longrightarrow>
    monitor_thread_step s (s\<lparr>monitor_at := MonitorReturned, trigger_monitoring := False\<rparr>)"

text \<open>
  \<open>Master::run\<close>. When the directory cannot be made it returns while its threads run, and the destructor of a
  running thread terminates the program.
\<close>

definition waits_for_monitor :: "main_pc \<Rightarrow> bool" where
  "waits_for_monitor p \<longleftrightarrow> p = MapMonitor \<or> p = ReduceMonitor"

inductive main_thread_step :: "program \<Rightarrow> program \<Rightarrow> bool" where
  dir_fails: "pc (threads s) = Starting \<Longrightarrow> stage s = Enters \<Longrightarrow> status \<noteq> None \<Longrightarrow> status \<noteq> Some EEXIST \<Longrightarrow>
    main_thread_step s (s\<lparr>terminated := True\<rparr>)"
| dir_made: "pc (threads s) = Starting \<Longrightarrow> stage s = Enters \<Longrightarrow> status = None \<or> status = Some EEXIST \<Longrightarrow>
    main_thread_step s (s\<lparr>stage := DirReady\<rparr>)"
| ask_first: "pc (threads s) = Starting \<Longrightarrow> stage s = DirReady \<Longrightarrow>
    main_thread_step s (s\<lparr>stage := Waits, initial_monitor_job := True\<rparr>)"
| first_done: "pc (threads s) = Starting \<Longrightarrow> stage s = Waits \<Longrightarrow> \<not> initial_monitor_job s \<Longrightarrow> run_main_step (threads s) r \<Longrightarrow>
    main_thread_step s (s\<lparr>threads := r, stage := Enters\<rparr>)"
| ask_round: "waits_for_monitor (pc (threads s)) \<Longrightarrow> stage s = Enters \<Longrightarrow>
    main_thread_step s (s\<lparr>stage := Waits, trigger_monitoring := True\<rparr>)"
| round_done: "waits_for_monitor (pc (threads s)) \<Longrightarrow> stage s = Waits \<Longrightarrow> \<not> trigger_monitoring s \<Longrightarrow> run_main_step (threads s) r \<Longrightarrow>
    main_thread_step s (s\<lparr>threads := r, stage := Enters\<rparr>)"
| ask_stop: "pc (threads s) = ReduceJoin \<Longrightarrow> polling (threads s) = PollReturned \<Longrightarrow> stage s = Enters \<Longrightarrow>
    main_thread_step s (s\<lparr>stage := Waits, trigger_monitoring := True, stop_monitoring := True\<rparr>)"
| join_monitor: "pc (threads s) = ReduceJoin \<Longrightarrow> stage s = Waits \<Longrightarrow> monitor_at s = MonitorReturned \<Longrightarrow> run_main_step (threads s) r \<Longrightarrow>
    main_thread_step s (s\<lparr>threads := r, stage := Enters, run_result := Some (status = None \<or> status = Some ENOTEMPTY)\<rparr>)"
| other_step: "pc (threads s) \<noteq> Starting \<Longrightarrow> \<not> waits_for_monitor (pc (threads s)) \<Longrightarrow> pc (threads s) \<noteq> ReduceJoin \<Longrightarrow> run_main_step (threads s) r \<Longrightarrow>
    main_thread_step s (s\<lparr>threads := r\<rparr>)"

inductive program_step :: "program \<Rightarrow> program \<Rightarrow> bool" where
  main_thread: "stopped (threads s) = None \<Longrightarrow> \<not> terminated s \<Longrightarrow> main_thread_step s t \<Longrightarrow> program_step s t"
| poll_thread: "stopped (threads s) = None \<Longrightarrow> \<not> terminated s \<Longrightarrow> poll_step (threads s) r \<Longrightarrow> program_step s (s\<lparr>threads := r\<rparr>)"
| monitor_thread: "stopped (threads s) = None \<Longrightarrow> \<not> terminated s \<Longrightarrow> monitor_thread_step s t \<Longrightarrow> program_step s t"

section \<open>Invariant\<close>

text \<open>
  A round of the monitor reads as many pongs as there are workers left when it ends. So the pongs that stay unread are at least
  those it still has to read, and at most one more for every worker that has been dropped.
\<close>

definition unread :: "program \<Rightarrow> nat" where
  "unread s = length (pings s) + (case monitor_at s of MonitorPongs i \<Rightarrow> i | _ \<Rightarrow> 0)"

definition in_round :: "program \<Rightarrow> bool" where
  "in_round s \<longleftrightarrow> (\<exists>i. monitor_at s = MonitorPongs i)"

definition known_workers :: "Master \<Rightarrow> string set" where
  "known_workers m = set (worker_ips m) \<union> set (dropped_worker_ips m)"

definition pings_ok :: "program \<Rightarrow> bool" where
  "pings_ok s \<longleftrightarrow> set (pings s) \<subseteq> known_workers (mst (threads s)) \<and>
     (if in_round s then num_workers (mst (threads s)) \<le> int (unread s) \<and>
        int (unread s) \<le> num_workers (mst (threads s)) + int (length (dropped_worker_ips (mst (threads s))))
      else unread s \<le> length (dropped_worker_ips (mst (threads s))))"

definition flags_ok :: "program \<Rightarrow> bool" where
  "flags_ok s \<longleftrightarrow>
     (monitor_at s = MonitorStarts \<longrightarrow> pc (threads s) = Starting \<and> (stage s = Waits \<longrightarrow> initial_monitor_job s)) \<and>
     (stop_monitoring s \<longrightarrow> pc (threads s) = ReduceJoin \<and> stage s = Waits \<or> pc (threads s) = Returned) \<and>
     (pc (threads s) = ReduceJoin \<and> stage s = Waits \<longrightarrow> stop_monitoring s \<and> polling (threads s) = PollReturned) \<and>
     (monitor_at s = MonitorLeaves \<or> monitor_at s = MonitorReturned \<longrightarrow> stop_monitoring s) \<and>
     (run_result s = None \<longleftrightarrow> pc (threads s) \<noteq> Returned) \<and> (pc (threads s) = Returned \<longrightarrow> monitor_at s = MonitorReturned) \<and>
     (stage s = DirReady \<longrightarrow> pc (threads s) = Starting) \<and>
     (stage s = Waits \<longrightarrow> pc (threads s) = Starting \<or> waits_for_monitor (pc (threads s)) \<or> pc (threads s) = ReduceJoin)"

definition program_inv :: "FileShard list \<Rightarrow> program \<Rightarrow> bool" where
  "program_inv all s \<longleftrightarrow> run_inv all (threads s) \<and> pings_ok s \<and> flags_ok s"

section \<open>The steps keep the invariant\<close>

text \<open>Only the monitor drops workers, and after it the workers known to the master are the same.\<close>

definition same_workers :: "Master \<Rightarrow> Master \<Rightarrow> bool" where
  "same_workers m m' \<longleftrightarrow> worker_ips m' = worker_ips m \<and> dropped_worker_ips m' = dropped_worker_ips m \<and> num_workers m' = num_workers m"

lemma same_workers_client_at: "client_at ip m = (c, m') \<Longrightarrow> same_workers m m'"
  by (auto simp: client_at_def same_workers_def split: option.splits)

lemma same_workers_trans: "same_workers m1 m2 \<Longrightarrow> same_workers m2 m3 \<Longrightarrow> same_workers m1 m3"
  by (simp add: same_workers_def)

lemma same_workers_handlers:
  shows "take_ready j m = (w, m') \<Longrightarrow> same_workers m m'" and "same_workers m (schedule_monitor m)"
    and "end_map_round m = (b, m') \<Longrightarrow> same_workers m m'" and "end_reduce_round m = (b, m') \<Longrightarrow> same_workers m m'"
    and "same_workers m (delete_intermediate_files m)" and "poll_response call m = (b, m') \<Longrightarrow> same_workers m m'"
  by (auto simp: same_workers_def take_ready_def schedule_monitor_def end_map_round_def end_reduce_round_def delete_intermediate_files_def
      poll_response_def Let_def split: list.splits if_splits)

lemma same_workers_send:
  shows "send_mapper_job ip sh m = Inr m' \<Longrightarrow> same_workers m m'" and "send_reducer_job ip p fl m = Inr m' \<Longrightarrow> same_workers m m'"
    and "same_workers m (count_response call m)"
proof -
  obtain c m1 where c: "client_at ip m = (c, m1)" by (cases "client_at ip m")
  note s = same_workers_client_at [OF c, unfolded same_workers_def]
  show "send_mapper_job ip sh m = Inr m' \<Longrightarrow> same_workers m m'"
    using s c by (auto simp: send_mapper_job_def same_workers_def bnd_eq_Inr split: option.splits)
  show "send_reducer_job ip p fl m = Inr m' \<Longrightarrow> same_workers m m'"
    using s c by (auto simp: send_reducer_job_def same_workers_def split: option.splits)
  obtain d m2 where d: "client_at (worker_ip_addr call) m = (d, m2)" by (cases "client_at (worker_ip_addr call) m")
  show "same_workers m (count_response call m)"
    using same_workers_client_at [OF d] d by (auto simp: count_response_def same_workers_def split: option.splits)
qed

lemma same_workers_goes_to: "(\<And>m'. r = Inr m' \<Longrightarrow> same_workers (mst s) m') \<Longrightarrow> same_workers (mst s) (mst (goes_to s p r))"
  by (cases r) (simp_all add: goes_to_def same_workers_def)

lemma same_workers_main:
  assumes "run_main_step s t"
  shows "same_workers (mst s) (mst t)"
  using assms
proof cases
  case (map_send i ip)
  then show ?thesis using same_workers_goes_to same_workers_send(1) by simp
next
  case (reduce_send i ip p fl)
  then show ?thesis using same_workers_goes_to same_workers_send(2) by simp
next
  case (map_take i w m)
  then show ?thesis using same_workers_handlers(1) [OF map_take(5)] by simp
next
  case (reduce_take i w m)
  then show ?thesis using same_workers_handlers(1) [OF reduce_take(5)] by simp
qed (use same_workers_handlers in \<open>auto simp: same_workers_def\<close>)

lemma same_workers_poll:
  assumes "poll_step s t"
  shows "same_workers (mst s) (mst t) \<and> pc t = pc s"
  using assms
proof cases
  case (poll_response c port call b m)
  then show ?thesis using same_workers_handlers(6) [OF poll_response(5)] by (simp add: same_workers_def)
next
  case (poll_count c call)
  then show ?thesis using same_workers_send(3) [of "(mst s)\<lparr>sent := remove1 c (sent (mst s))\<rparr>" call] by (simp add: same_workers_def)
qed (simp_all add: same_workers_def)


lemma pings_ok_frame:
  assumes "pings_ok s" and "same_workers (mst (threads s)) (mst (threads t))" and "pings t = pings s" and "monitor_at t = monitor_at s"
  shows "pings_ok t"
proof -
  have "unread t = unread s" "in_round t = in_round s" using assms(3,4) by (simp_all add: unread_def in_round_def)
  then show ?thesis using assms by (simp add: pings_ok_def known_workers_def same_workers_def)
qed

lemma main_pc_moves:
  assumes "run_main_step s t"
  shows "pc t \<noteq> Starting" and "pc t = Returned \<longleftrightarrow> pc s = ReduceJoin" and "pc s \<noteq> Returned"
  using assms by (cases; simp add: goes_to_def split: sum.splits option.splits)+

lemma main_thread_inv:
  assumes "main_thread_step s t" and "program_inv all s" and "stopped (threads s) = None"
  shows "program_inv all t"
proof -
  have I: "run_inv all (threads s)" "pings_ok s" "flags_ok s" using assms(2) by (simp_all add: program_inv_def)
  have moves: "run_inv all (threads t) \<and> pings_ok t" if "run_main_step (threads s) r" "threads t = r" "pings t = pings s" "monitor_at t = monitor_at s" for r
    using master_main_step_inv [OF that(1) I(1) assms(3)] pings_ok_frame [OF I(2), of t] same_workers_main [OF that(1)] that by simp
  have stays: "run_inv all (threads t) \<and> pings_ok t" if "threads t = threads s" "pings t = pings s" "monitor_at t = monitor_at s"
    using I(1) pings_ok_frame [OF I(2), of t] that by (simp add: same_workers_def)
  show ?thesis
    using assms(1)
  proof cases
    case (first_done r)
    note main_pc_moves [OF first_done(5)]
    then show ?thesis using moves first_done I(3) by (auto simp: program_inv_def flags_ok_def)
  next
    case (round_done r)
    note main_pc_moves [OF round_done(5)]
    then show ?thesis using moves round_done I(3) by (auto simp: program_inv_def flags_ok_def waits_for_monitor_def)
  next
    case (join_monitor r status)
    note main_pc_moves [OF join_monitor(5)]
    then show ?thesis using moves join_monitor I(3) by (auto simp: program_inv_def flags_ok_def waits_for_monitor_def)
  next
    case (other_step r)
    note main_pc_moves [OF other_step(5)]
    then show ?thesis using moves other_step I(3) by (auto simp: program_inv_def flags_ok_def)
  next
    case (dir_fails status)
    then show ?thesis using stays I(3) by (auto simp: program_inv_def flags_ok_def)
  next
    case (dir_made status)
    then show ?thesis using stays I(3) by (auto simp: program_inv_def flags_ok_def waits_for_monitor_def)
  next
    case ask_first
    then show ?thesis using stays I(3) by (auto simp: program_inv_def flags_ok_def waits_for_monitor_def)
  next
    case ask_round
    have "pc (threads s) \<noteq> Starting \<and> pc (threads s) \<noteq> ReduceJoin \<and> pc (threads s) \<noteq> Returned"
      using ask_round(2) by (auto simp: waits_for_monitor_def)
    then show ?thesis using stays I(3) ask_round by (auto simp: program_inv_def flags_ok_def)
  next
    case ask_stop
    then show ?thesis using stays I(3) by (auto simp: program_inv_def flags_ok_def waits_for_monitor_def)
  qed
qed

lemma poll_thread_inv:
  assumes "poll_step (threads s) r" and "program_inv all s" and "stopped (threads s) = None"
  shows "program_inv all (s\<lparr>threads := r\<rparr>)"
proof -
  have I: "run_inv all (threads s)" "pings_ok s" "flags_ok s" using assms(2) by (simp_all add: program_inv_def)
  note p = same_workers_poll [OF assms(1)]
  have "polling (threads s) \<noteq> PollReturned" using assms(1) by cases simp_all
  then have "flags_ok (s\<lparr>threads := r\<rparr>)" using I(3) p by (auto simp: flags_ok_def)
  then show ?thesis using poll_step_inv [OF assms(1) I(1) assms(3)] pings_ok_frame [OF I(2), of "s\<lparr>threads := r\<rparr>"] p
    by (simp add: program_inv_def)
qed

lemma send_pings_ok:
  assumes "clients_ok m"
  shows "send_pings m cq = Inr (m, cq @ worker_ips m)"
proof -
  have "foldm (\<lambda>ip (m, cq). case client_at ip m of (None, m) \<Rightarrow> Inl BadPointer | (Some client, m) \<Rightarrow> Inr (m, send_monitor_ping ip cq)) ips (m, cq)
      = Inr (m, cq @ ips)" if "set ips \<subseteq> set (worker_ips m)" for ips
    using that
  proof (induction ips arbitrary: cq)
    case (Cons ip ips)
    have "client_at ip m = (Some (cl m ip), m)" using Cons.prems clients_okD(3) [OF assms] by (intro client_at_live) simp
    then show ?case using Cons by (simp add: bnd_def send_monitor_ping_def)
  qed simp
  then show ?thesis by (simp add: send_pings_def)
qed

lemma monitor_thread_inv:
  assumes "monitor_thread_step s t" and "program_inv all s" and "stopped (threads s) = None"
  shows "program_inv all t"
proof -
  have I: "run_inv all (threads s)" "pings_ok s" "flags_ok s" using assms(2) by (simp_all add: program_inv_def)
  have c: "clients_ok (mst (threads s))" using I(1) by (simp add: run_inv_def)
  note D = clients_okD [OF c]
  show ?thesis
    using assms(1)
  proof cases
    case (monitor_pings m cq)
    have m: "m = mst (threads s)" "cq = pings s @ worker_ips (mst (threads s))" using send_pings_ok [OF c] monitor_pings(4) by auto
    have "(threads s)\<lparr>mst := m\<rparr> = threads s" using m(1) by simp
    then have t: "t = s\<lparr>monitor_at := MonitorPongs 0, pings := cq\<rparr>" using monitor_pings(1) by simp
    have "length (pings s) \<le> length (dropped_worker_ips (mst (threads s)))"
      using I(2) monitor_pings(2) by (simp add: pings_ok_def in_round_def unread_def)
    then have "pings_ok t" using I(2) D(2) by (simp add: t pings_ok_def in_round_def unread_def m(2) known_workers_def)
    moreover have "flags_ok t" using I(3) monitor_pings(2) by (auto simp: t flags_ok_def)
    ultimately show ?thesis using I(1) by (simp add: program_inv_def t)
  next
    case (monitor_ping_fault e)
    then show ?thesis using send_pings_ok [OF c] by simp
  next
    case (monitor_pong i ip call error_msg w)
    let ?th = "if error_msg then goes (threads s) (handle_worker_failure w (mst (threads s))) else threads s"
    have nr: "pc (threads s) \<noteq> Returned" using I(3) monitor_pong(2) by (simp add: flags_ok_def)
    have w: "w = ip" if error_msg using that monitor_pong(5,6) by (auto simp: receive_monitor_pong_def split: if_splits)
    have ip: "ip \<in> known_workers (mst (threads s))" using monitor_pong(4) I(2) by (auto simp: pings_ok_def)
    have r: "run_inv all ?th"
    proof (cases error_msg)
      case True
      have "monitor_step (threads s) (goes (threads s) (handle_worker_failure ip (mst (threads s))))"
        using failure [OF ip [unfolded known_workers_def] nr] .
      then show ?thesis using monitor_step_inv [OF _ I(1) assms(3)] True w by simp
    qed (use I(1) in simp)
    have th: "pc ?th = pc (threads s) \<and> polling ?th = polling (threads s)" by (simp add: goes_def split: sum.splits)
    have f: "flags_ok t" using I(3) monitor_pong(2) unfolding monitor_pong(1) by (auto simp: flags_ok_def th)
    have len: "length (pings t) + Suc i = unread s"
      using monitor_pong(2,4) by (simp add: monitor_pong(1) unread_def length_remove1) (cases "pings s"; auto)
    have t: "in_round t" "unread t = unread s" "in_round s" "set (pings t) \<subseteq> set (pings s)" "mst (threads t) = mst ?th"
      using monitor_pong(2) len set_remove1_subset [of ip "pings s"] by (simp_all add: monitor_pong(1) in_round_def unread_def)
    have "pings_ok t"
    proof (cases "\<exists>m'. error_msg \<and> handle_worker_failure w (mst (threads s)) = Inr m'")
      case True
      then obtain m' where m': "error_msg" "handle_worker_failure w (mst (threads s)) = Inr m'" by blast
      then have "mst (threads t) = m'" by (simp add: t(5) goes_def)
      moreover have "known_workers (mst (threads s)) \<subseteq> known_workers m'" using failure_known [OF m'(2)] by (simp add: known_workers_def)
      ultimately show ?thesis using I(2) failure_effect [OF m'(2)] t(1-4) by (auto simp: pings_ok_def)
    next
      case False
      then have "mst (threads t) = mst (threads s)" by (auto simp: t(5) goes_def split: sum.splits)
      then show ?thesis using I(2) t(1-4) by (auto simp: pings_ok_def)
    qed
    then show ?thesis using r f by (simp add: program_inv_def monitor_pong(1))
  next
    case (monitor_pongs_end i)
    have "int (length (pings s)) \<le> int (length (dropped_worker_ips (mst (threads s))))"
      using I(2) monitor_pongs_end(2,3) by (simp add: pings_ok_def in_round_def unread_def)
    then have "pings_ok t" using I(2) monitor_pongs_end(1) by (simp add: pings_ok_def in_round_def unread_def)
    then show ?thesis using I(1,3) monitor_pongs_end(1,2) by (auto simp: program_inv_def flags_ok_def)
  qed (use I in \<open>auto simp: program_inv_def flags_ok_def pings_ok_def in_round_def unread_def\<close>)
qed

lemma program_inv_init:
  assumes "spec_usable spec fl" and "program_init spec fl s"
  shows "program_inv fl s"
proof -
  have "run_inv fl (threads s)" using assms run_inv_init [of spec fl "threads s"] by (simp add: spec_usable_def program_init_def)
  moreover obtain m where "new_Master spec fl = Inr m" "pc (threads s) = Starting"
    using assms(2) by (auto simp: program_init_def run_init_def)
  ultimately show ?thesis using assms(2)
    by (simp add: program_inv_def pings_ok_def in_round_def unread_def flags_ok_def program_init_def)
qed

interpretation program_invariant:
  inductive_invariant "\<lambda>s. spec_usable spec fl \<and> program_init spec fl s" program_step "program_inv fl" for spec fl
proof unfold_locales
  show "spec_usable spec fl \<and> program_init spec fl s \<Longrightarrow> program_inv fl s" for s using program_inv_init by blast
  show "program_inv fl s \<Longrightarrow> program_step s t \<Longrightarrow> program_inv fl t" for s t
    by (auto elim!: program_step.cases intro: main_thread_inv poll_thread_inv monitor_thread_inv)
qed

text \<open>Every step of the program is no step or one step of the threads of \<open>MasterRun\<close>.\<close>

lemma main_thread_threads: "main_thread_step s t \<Longrightarrow> threads t = threads s \<or> run_main_step (threads s) (threads t)"
  by (cases rule: main_thread_step.cases) auto

lemma monitor_thread_threads:
  assumes "monitor_thread_step s t" and "program_inv all s"
  shows "threads t = threads s \<or> monitor_step (threads s) (threads t)"
proof -
  have I: "clients_ok (mst (threads s))" "pings_ok s" "flags_ok s" using assms(2) by (simp_all add: program_inv_def run_inv_def)
  show ?thesis
    using assms(1)
  proof cases
    case (monitor_pong i ip call error_msg w)
    have nr: "pc (threads s) \<noteq> Returned" using I(3) monitor_pong(2) by (auto simp: flags_ok_def)
    have ip: "ip \<in> known_workers (mst (threads s))" using monitor_pong(4) I(2) by (auto simp: pings_ok_def)
    show ?thesis
    proof (cases error_msg)
      case True
      then have "w = ip" using monitor_pong(5,6) by (auto simp: receive_monitor_pong_def split: if_splits)
      then show ?thesis using True failure [OF ip [unfolded known_workers_def] nr] by (simp add: monitor_pong(1))
    qed (simp add: monitor_pong(1))
  qed (use send_pings_ok [OF I(1)] in auto)
qed

interpretation program_sim:
  simulation "\<lambda>s. spec_usable spec fl \<and> program_init spec fl s" program_step "run_init spec fl" master_step
    "\<lambda>s r. r = threads s \<and> program_inv fl s" for spec fl
proof unfold_locales
  show "\<exists>r. run_init spec fl r \<and> r = threads s \<and> program_inv fl s" if "spec_usable spec fl \<and> program_init spec fl s" for s
    using that program_inv_init by (auto simp: program_init_def)
  show "\<exists>r'. (r' = threads t \<and> program_inv fl t) \<and> (r' = r \<or> master_step r r')"
    if "r = threads s \<and> program_inv fl s" and "program_step s t" for s r t
  proof -
    have "program_inv fl t" using that by (auto intro: program_invariant.inv_step)
    moreover have "threads t = threads s \<or> master_step (threads s) (threads t)"
      using that(2)
    proof cases
      case main_thread
      then show ?thesis using main_thread_threads main by blast
    next
      case (poll_thread r)
      then show ?thesis using poll by simp
    next
      case monitor_thread
      then show ?thesis using monitor_thread_threads that(1) monitor by blast
    qed
    ultimately show ?thesis using that(1) by auto
  qed
qed

abbreviation program_reachable :: "MapReduceSpec \<Rightarrow> FileShard list \<Rightarrow> program \<Rightarrow> bool" where
  "program_reachable spec fl \<equiv> reachable (program_init spec fl) program_step"

lemma program_reachable_usable:
  assumes "spec_usable spec fl" and "program_reachable spec fl s"
  shows "reachable (\<lambda>s. spec_usable spec fl \<and> program_init spec fl s) program_step s"
  using assms(2) by induction (auto intro: reachable.intros assms(1))

lemma program_reachable_inv: "spec_usable spec fl \<Longrightarrow> program_reachable spec fl s \<Longrightarrow> program_inv fl s"
  by (rule program_invariant.inv_reachable [OF program_reachable_usable])

section \<open>Rounds of the monitor\<close>

abbreviation running :: "program \<Rightarrow> bool" where
  "running s \<equiv> stopped (threads s) = None \<and> \<not> terminated s"

lemma monitor_moves:
  assumes "running s" and "monitor_thread_step s t" and "program_step\<^sup>*\<^sup>* t u"
  shows "program_step\<^sup>*\<^sup>* s u"
  using monitor_thread [OF _ _ assms(2)] assms(1,3) by (simp add: converse_rtranclp_into_rtranclp)

text \<open>After its last pong the monitor clears both flags and is back at the head of its loop.\<close>

lemma monitor_back:
  assumes "running s" and "monitor_at s = MonitorPongs i" and "\<not> int i < num_workers (mst (threads s))"
  shows "program_step\<^sup>*\<^sup>* s (s\<lparr>monitor_at := MonitorLoop, initial_monitor_job := False, trigger_monitoring := False\<rparr>)"
proof -
  let ?s1 = "s\<lparr>monitor_at := MonitorFirst\<rparr>"
  let ?s2 = "?s1\<lparr>monitor_at := MonitorTriggered, initial_monitor_job := False\<rparr>"
  let ?s3 = "?s2\<lparr>monitor_at := MonitorSleeps, trigger_monitoring := False\<rparr>"
  let ?s4 = "?s3\<lparr>monitor_at := MonitorLoop\<rparr>"
  have "monitor_thread_step s ?s1" using assms(2,3) by (rule monitor_pongs_end)
  moreover have "monitor_thread_step ?s1 ?s2" by (rule monitor_first) simp
  moreover have "monitor_thread_step ?s2 ?s3" by (rule monitor_triggered) simp
  moreover have "monitor_thread_step ?s3 ?s4" by (rule monitor_wakes) simp
  ultimately have "program_step\<^sup>*\<^sup>* s ?s4"
    by (intro monitor_moves [of s ?s1] monitor_moves [of ?s1 ?s2] monitor_moves [of ?s2 ?s3] monitor_moves [of ?s3 ?s4] rtranclp.rtrancl_refl)
      (use assms(1) in \<open>assumption | simp\<close>)+
  moreover have "?s4 = s\<lparr>monitor_at := MonitorLoop, initial_monitor_job := False, trigger_monitoring := False\<rparr>" by simp
  ultimately show ?thesis by (simp only:)
qed

text \<open>When every worker answers, the monitor reads its pongs without changing anything else.\<close>

lemma monitor_reads:
  assumes "running s" and "monitor_at s = MonitorPongs i" and "num_workers (mst (threads s)) \<le> int i + int (length (pings s))"
  shows "program_step\<^sup>*\<^sup>* s (s\<lparr>monitor_at := MonitorLoop, pings := drop (nat (num_workers (mst (threads s))) - i) (pings s),
    initial_monitor_job := False, trigger_monitoring := False\<rparr>)"
  using assms
proof (induction "pings s" arbitrary: s i)
  case Nil
  then have "\<not> int i < num_workers (mst (threads s))" by simp
  from monitor_back [OF Nil(2,3) this] show ?case using Nil(1) by (cases s) simp
next
  case (Cons ip cq)
  show ?case
  proof (cases "int i < num_workers (mst (threads s))")
    case True
    let ?t = "s\<lparr>monitor_at := MonitorPongs (Suc i), pings := cq\<rparr>"
    let ?k = "nat (num_workers (mst (threads s)))"
    define call where "call = \<lparr>ping_status_ok = True, pinged_ip = ip, pong_id = ip\<rparr>"
    have "receive_monitor_pong call = (False, ip)" "pinged_ip call = ip" by (simp_all add: call_def receive_monitor_pong_def)
    moreover have "ip \<in> set (pings s)" "remove1 ip (pings s) = cq" by (simp_all add: Cons.hyps(2) [symmetric])
    ultimately have "monitor_thread_step s ?t" using monitor_pong [OF Cons.prems(2) True, of ip call False ip] by simp
    moreover have "program_step\<^sup>*\<^sup>* ?t (?t\<lparr>monitor_at := MonitorLoop, pings := drop (?k - Suc i) cq, initial_monitor_job := False, trigger_monitoring := False\<rparr>)"
      using Cons.hyps(1) [of ?t "Suc i"] Cons.prems Cons.hyps(2) [symmetric] by simp
    moreover have "drop (?k - i) (pings s) = drop (?k - Suc i) cq"
      using True by (simp add: Cons.hyps(2) [symmetric] drop_Cons' Suc_diff_Suc)
    ultimately show ?thesis using monitor_moves [OF Cons.prems(1)] by fastforce
  next
    case False
    then have "nat (num_workers (mst (threads s))) - i = 0" by simp
    with monitor_back [OF Cons.prems(1,2) False] show ?thesis by (cases s) simp
  qed
qed

text \<open>A whole round, from the head of the loop.\<close>

lemma monitor_round:
  assumes "running s" and "monitor_at s = MonitorLoop" and "\<not> stop_monitoring s" and "clients_ok (mst (threads s))"
  shows "\<exists>cq. program_step\<^sup>*\<^sup>* s (s\<lparr>monitor_at := MonitorLoop, pings := cq, initial_monitor_job := False, trigger_monitoring := False\<rparr>)"
proof -
  let ?t = "s\<lparr>monitor_at := MonitorPongs 0, pings := pings s @ worker_ips (mst (threads s))\<rparr>"
  have "monitor_thread_step s ?t" using monitor_pings [OF assms(2,3) send_pings_ok [OF assms(4)]] by simp
  from monitor_moves [OF assms(1) this monitor_reads [of ?t 0]] show ?thesis using assms(1) clients_okD(2) [OF assms(4)] by auto
qed

text \<open>Whatever it does, the monitor comes to the head of its loop.\<close>

lemma monitor_to_loop:
  assumes "running s" and "program_inv fl s" and "monitor_at s \<noteq> MonitorLeaves" and "monitor_at s \<noteq> MonitorReturned"
  shows "\<exists>t. program_step\<^sup>*\<^sup>* s t \<and> monitor_at t = MonitorLoop \<and> threads t = threads s \<and> stage t = stage s \<and> terminated t = terminated s \<and>
    stop_monitoring t = stop_monitoring s"
proof (cases "monitor_at s")
  case MonitorStarts
  have "\<not> stop_monitoring s" using assms(2) MonitorStarts by (auto simp: program_inv_def flags_ok_def)
  then show ?thesis using monitor_moves [OF assms(1) monitor_starts [OF MonitorStarts] rtranclp.rtrancl_refl]
    by (intro exI [of _ "s\<lparr>monitor_at := MonitorLoop, initial_monitor_job := True, stop_monitoring := False\<rparr>"]) simp
next
  case MonitorLoop
  then show ?thesis by blast
next
  case (MonitorPongs i)
  then have "num_workers (mst (threads s)) \<le> int i + int (length (pings s))"
    using assms(2) by (simp add: program_inv_def pings_ok_def in_round_def unread_def)
  from monitor_reads [OF assms(1) MonitorPongs this] show ?thesis by (intro exI conjI) (assumption, simp_all)
next
  case MonitorFirst
  let ?s2 = "s\<lparr>monitor_at := MonitorTriggered, initial_monitor_job := False\<rparr>"
  let ?s3 = "?s2\<lparr>monitor_at := MonitorSleeps, trigger_monitoring := False\<rparr>"
  let ?s4 = "?s3\<lparr>monitor_at := MonitorLoop\<rparr>"
  have "program_step\<^sup>*\<^sup>* s ?s4"
    using assms(1) MonitorFirst monitor_triggered [of ?s2] monitor_wakes [of ?s3]
    by (intro monitor_moves [of s ?s2] monitor_moves [of ?s2 ?s3] monitor_moves [of ?s3 ?s4]) (simp_all add: monitor_first)
  then show ?thesis by (intro exI conjI, assumption, simp_all)
next
  case MonitorTriggered
  let ?s3 = "s\<lparr>monitor_at := MonitorSleeps, trigger_monitoring := False\<rparr>"
  let ?s4 = "?s3\<lparr>monitor_at := MonitorLoop\<rparr>"
  have "program_step\<^sup>*\<^sup>* s ?s4"
    using assms(1) MonitorTriggered monitor_wakes [of ?s3]
    by (intro monitor_moves [of s ?s3] monitor_moves [of ?s3 ?s4]) (simp_all add: monitor_triggered)
  then show ?thesis by (intro exI conjI, assumption, simp_all)
next
  case MonitorSleeps
  then show ?thesis using monitor_moves [OF assms(1) monitor_wakes rtranclp.rtrancl_refl]
    by (intro exI [of _ "s\<lparr>monitor_at := MonitorLoop\<rparr>"]) simp
qed (use assms(3,4) in simp_all)

lemma program_inv_steps: "program_step\<^sup>*\<^sup>* s t \<Longrightarrow> program_inv fl s \<Longrightarrow> program_inv fl t"
  by (induction rule: rtranclp_induct) (auto intro: program_invariant.inv_step)

lemma monitor_clears:
  assumes "running s" and "program_inv fl s" and "\<not> stop_monitoring s"
  shows "\<exists>t. program_step\<^sup>*\<^sup>* s t \<and> threads t = threads s \<and> stage t = stage s \<and> terminated t = terminated s \<and>
    \<not> initial_monitor_job t \<and> \<not> trigger_monitoring t"
proof -
  have "monitor_at s \<noteq> MonitorLeaves" "monitor_at s \<noteq> MonitorReturned" using assms(2,3) by (auto simp: program_inv_def flags_ok_def)
  from monitor_to_loop [OF assms(1,2) this] obtain t where t: "program_step\<^sup>*\<^sup>* s t" "monitor_at t = MonitorLoop"
    "threads t = threads s" "stage t = stage s" "terminated t = terminated s" "stop_monitoring t = stop_monitoring s" by blast
  have "clients_ok (mst (threads t))" using assms(2) t(3) by (simp add: program_inv_def run_inv_def)
  moreover have "running t" "\<not> stop_monitoring t" using assms(1,3) t by simp_all
  ultimately obtain cq where
    "program_step\<^sup>*\<^sup>* t (t\<lparr>monitor_at := MonitorLoop, pings := cq, initial_monitor_job := False, trigger_monitoring := False\<rparr>)"
    using monitor_round [OF _ t(2)] by blast
  with t(1) have "program_step\<^sup>*\<^sup>* s (t\<lparr>monitor_at := MonitorLoop, pings := cq, initial_monitor_job := False, trigger_monitoring := False\<rparr>)"
    by (rule rtranclp_trans)
  then show ?thesis using t(3-5) by (intro exI conjI) (assumption, simp_all)
qed

lemma main_moves:
  assumes "program_step\<^sup>*\<^sup>* s t" and "running t" and "main_thread_step t u"
  shows "program_step\<^sup>*\<^sup>* s u"
  using assms(1) main_thread [OF _ _ assms(3)] assms(2) by (simp add: rtranclp.rtrancl_into_rtrancl)

lemma wait_ends:
  assumes "running s" and "program_inv fl s" and "stage s = Waits" and "pc (threads s) = Starting \<or> waits_for_monitor (pc (threads s))"
    and "run_main_step (threads s) r"
  shows "\<exists>t. program_step\<^sup>*\<^sup>* s t \<and> threads t = r \<and> \<not> terminated t"
proof -
  have "pc (threads s) \<noteq> ReduceJoin" "pc (threads s) \<noteq> Returned" using assms(4) by (auto simp: waits_for_monitor_def)
  then have "\<not> stop_monitoring s" using assms(2) by (auto simp: program_inv_def flags_ok_def)
  from monitor_clears [OF assms(1,2) this] obtain t where t: "program_step\<^sup>*\<^sup>* s t" "threads t = threads s" "stage t = stage s"
    "terminated t = terminated s" "\<not> initial_monitor_job t" "\<not> trigger_monitoring t" by blast
  have "main_thread_step t (t\<lparr>threads := r, stage := Enters\<rparr>)"
    using assms(3,4,5) t first_done [of t r] round_done [of t r] by auto
  from main_moves [OF t(1) _ this] have "program_step\<^sup>*\<^sup>* s (t\<lparr>threads := r, stage := Enters\<rparr>)" using assms(1) t by simp
  then show ?thesis using assms(1) t(4) by (intro exI conjI) (assumption, simp_all)
qed

text \<open>The main thread comes to wait for the monitor.\<close>

lemma main_asks:
  assumes "running s" and "program_inv fl s" and "pc (threads s) = Starting \<or> waits_for_monitor (pc (threads s))"
  shows "\<exists>t. program_step\<^sup>*\<^sup>* s t \<and> threads t = threads s \<and> stage t = Waits \<and> \<not> terminated t"
proof (cases "stage s = Waits")
  case True
  then show ?thesis using assms(1) by blast
next
  case False
  show ?thesis
  proof (cases "pc (threads s) = Starting")
    case True
    let ?t = "s\<lparr>stage := DirReady\<rparr>" and ?u = "\<lambda>t. t\<lparr>stage := Waits, initial_monitor_job := True\<rparr>"
    have ask: "program_step\<^sup>*\<^sup>* s (?u t)" if "program_step\<^sup>*\<^sup>* s t" "stage t = DirReady" "threads t = threads s" "\<not> terminated t" for t
      using main_moves [OF that(1) _ ask_first [of t]] that True assms(1) by simp
    have "program_step\<^sup>*\<^sup>* s ?t" if "stage s = Enters"
      using main_moves [OF rtranclp.rtrancl_refl assms(1) dir_made [OF True that, of None]] by simp
    then have "\<exists>t. program_step\<^sup>*\<^sup>* s (?u t) \<and> threads t = threads s \<and> \<not> terminated t"
    proof (cases "stage s")
      case Enters
      then show ?thesis using ask [of ?t] \<open>stage s = Enters \<Longrightarrow> program_step\<^sup>*\<^sup>* s ?t\<close> assms(1) by (intro exI [of _ ?t]) simp
    next
      case DirReady
      then show ?thesis using ask [of s] assms(1) by (intro exI [of _ s]) simp
    qed (use False in simp)
    then show ?thesis by (elim exE) (rule exI, rule conjI, erule conjunct1, simp)
  next
    case other: False
    have "stage s \<noteq> DirReady" using assms(2) other unfolding program_inv_def flags_ok_def by blast
    then have "stage s = Enters" using False by (cases "stage s") simp_all
    from main_moves [OF rtranclp.rtrancl_refl assms(1) ask_round [OF _ this]] show ?thesis using other assms(1,3)
      by (intro exI [of _ "s\<lparr>stage := Waits, trigger_monitoring := True\<rparr>"]) simp
  qed
qed

lemma monitor_is_joined:
  assumes "running s" and "program_inv fl s" and "stop_monitoring s"
  shows "\<exists>t. program_step\<^sup>*\<^sup>* s t \<and> monitor_at t = MonitorReturned \<and> threads t = threads s \<and> stage t = stage s \<and> terminated t = terminated s"
proof -
  have leave: "\<exists>u. program_step\<^sup>*\<^sup>* t u \<and> monitor_at u = MonitorReturned \<and> threads u = threads t \<and> stage u = stage t \<and> terminated u = terminated t"
    if "monitor_at t = MonitorLeaves" "running t" for t
    using monitor_moves [OF that(2) monitor_leaves [OF that(1)] rtranclp.rtrancl_refl]
    by (intro exI [of _ "t\<lparr>monitor_at := MonitorReturned, trigger_monitoring := False\<rparr>"]) simp
  consider "monitor_at s = MonitorReturned" | "monitor_at s = MonitorLeaves" | "monitor_at s \<noteq> MonitorLeaves" "monitor_at s \<noteq> MonitorReturned" by blast
  then show ?thesis
  proof cases
    case 3
    from monitor_to_loop [OF assms(1,2) this] obtain t where t: "program_step\<^sup>*\<^sup>* s t" "monitor_at t = MonitorLoop"
      "threads t = threads s" "stage t = stage s" "terminated t = terminated s" "stop_monitoring t = stop_monitoring s" by blast
    let ?u = "t\<lparr>monitor_at := MonitorLeaves\<rparr>"
    have "program_step\<^sup>*\<^sup>* t ?u"
      using monitor_moves [OF _ monitor_stops [OF t(2)] rtranclp.rtrancl_refl] assms(1,3) t by simp
    then have "program_step\<^sup>*\<^sup>* s ?u" using t(1) by (rule rtranclp_trans [rotated])
    moreover obtain v where "program_step\<^sup>*\<^sup>* ?u v" "monitor_at v = MonitorReturned" "threads v = threads ?u" "stage v = stage ?u" "terminated v = terminated ?u"
      using leave [of ?u] assms(1) t by auto
    ultimately show ?thesis using t by (intro exI [of _ v]) (auto intro: rtranclp_trans)
  next
    case 1
    then show ?thesis by blast
  next
    case 2
    from leave [OF this assms(1)] show ?thesis by blast
  qed
qed

lemma join_ends:
  assumes "running s" and "program_inv fl s" and "pc (threads s) = ReduceJoin" and "run_main_step (threads s) r"
  shows "\<exists>t. program_step\<^sup>*\<^sup>* s t \<and> threads t = r \<and> \<not> terminated t"
proof -
  have p: "polling (threads s) = PollReturned" using assms(4) by cases (use assms(3) in simp_all)
  have "\<exists>t. program_step\<^sup>*\<^sup>* s t \<and> threads t = threads s \<and> stage t = Waits \<and> \<not> terminated t"
  proof (cases "stage s = Waits")
    case False
    have "stage s \<noteq> DirReady" using assms(2,3) unfolding program_inv_def flags_ok_def by auto
    then have "stage s = Enters" using False by (cases "stage s") simp_all
    from main_moves [OF rtranclp.rtrancl_refl assms(1) ask_stop [OF assms(3) p this]] show ?thesis using assms(1)
      by (intro exI [of _ "s\<lparr>stage := Waits, trigger_monitoring := True, stop_monitoring := True\<rparr>"]) simp
  qed (use assms(1) in blast)
  then obtain t where t: "program_step\<^sup>*\<^sup>* s t" "threads t = threads s" "stage t = Waits" "\<not> terminated t" by blast
  have "program_inv fl t" using program_inv_steps [OF t(1) assms(2)] .
  moreover from this have "stop_monitoring t" using t(2,3) assms(3) unfolding program_inv_def flags_ok_def by simp
  ultimately obtain u where u: "program_step\<^sup>*\<^sup>* t u" "monitor_at u = MonitorReturned" "threads u = threads t" "stage u = stage t" "terminated u = terminated t"
    using monitor_is_joined [of t fl] assms(1) t by auto
  have "main_thread_step u (u\<lparr>threads := r, stage := Enters, run_result := Some True\<rparr>)"
    using join_monitor [of u r None] assms(3,4) t u by simp
  from main_moves [OF rtranclp_trans [OF t(1) u(1)] _ this] show ?thesis using assms(1) t u
    by (intro exI [of _ "u\<lparr>threads := r, stage := Enters, run_result := Some True\<rparr>"]) simp
qed

section \<open>Properties\<close>

text \<open>
  C7: The master with its monitor thread, its flags and its directory implements the threads of \<open>MasterRun\<close>: whatever state it
  reaches, those threads can be in. So the monitor reports only workers that it has pinged and that the master knows, and what
  is shown of \<open>master_step\<close> holds of the program. When \<open>run\<close> has returned, the monitor thread has ended.
\<close>

theorem program_refines_master:
  assumes "spec_usable spec fl" and "program_reachable spec fl s"
  shows "reachable (run_init spec fl) master_step (threads s) \<and> (run_result s \<noteq> None \<longrightarrow> pc (threads s) = Returned \<and> monitor_at s = MonitorReturned)"
  using program_sim.sim_reachable [OF program_reachable_usable [OF assms]] by (auto simp: program_inv_def flags_ok_def)

definition demo_program :: program where
  "demo_program = \<lparr>threads = run_at Starting Polling False demo_init, monitor_at = MonitorStarts, stage = Enters, pings = [],
     initial_monitor_job = False, trigger_monitoring = False, stop_monitoring = False, terminated = False, run_result = None\<rparr>"

lemma demo_program_reachable: "program_reachable three_workers two_shards demo_program"
  by (rule reachable_start) (simp add: demo_program_def program_init_def run_init_def demo_run0(1) run_at_def)

definition demo_pinged :: program where
  "demo_pinged = demo_program\<lparr>monitor_at := MonitorPongs 0, pings := [''w:1'', ''w:2'', ''w:3''], initial_monitor_job := True\<rparr>"

lemma demo_pinged_reachable: "program_reachable three_workers two_shards demo_pinged"
proof -
  let ?s = "demo_program\<lparr>monitor_at := MonitorLoop, initial_monitor_job := True\<rparr>"
  have "program_step demo_program ?s"
    using monitor_thread [OF _ _ monitor_starts [of demo_program]] by (simp add: demo_program_def)
  with demo_program_reachable have r: "program_reachable three_workers two_shards ?s" by (rule reachable_step)
  have "clients_ok (mst (threads ?s))" using program_reachable_inv [OF three_workers_usable r] by (simp add: program_inv_def run_inv_def)
  from send_pings_ok [OF this, of "[]"] have "send_pings demo_init [] = Inr (demo_init, worker_ips demo_init)" by (simp add: demo_program_def)
  moreover have "worker_ips demo_init = [''w:1'', ''w:2'', ''w:3'']" by (simp add: demo_defs)
  ultimately have "monitor_thread_step ?s demo_pinged" using monitor_pings [of ?s demo_init "[''w:1'', ''w:2'', ''w:3'']"]
    by (simp add: demo_pinged_def demo_program_def) (simp add: run_at_def)
  then have "program_step ?s demo_pinged" using monitor_thread [of ?s] by (simp add: demo_program_def)
  with r show ?thesis by (rule reachable_step)
qed

theorem program_refines_master_witness:
  "reachable (run_init three_workers two_shards) master_step (threads demo_pinged)"
  using program_refines_master [OF three_workers_usable demo_pinged_reachable] by blast

text \<open>
  While the monitor waits for a pong, one is outstanding, so with the deadline of the pings it is never stuck. Outside of a round at most
  as many pongs are unread as workers have been dropped: without failures every round reads exactly its own pongs.
\<close>

theorem monitor_pongs_bounded:
  assumes "spec_usable spec fl" and "program_reachable spec fl s"
  shows "(\<forall>i. monitor_at s = MonitorPongs i \<and> int i < num_workers (mst (threads s)) \<longrightarrow> pings s \<noteq> []) \<and>
    (\<not> in_round s \<longrightarrow> length (pings s) \<le> length (dropped_worker_ips (mst (threads s)))) \<and>
    set (pings s) \<subseteq> set (worker_ips (mst (threads s))) \<union> set (dropped_worker_ips (mst (threads s)))"
  using program_reachable_inv [OF assms] by (auto simp: program_inv_def pings_ok_def in_round_def unread_def known_workers_def split: monitor_pc.splits)

theorem monitor_pongs_bounded_witness:
  "monitor_at demo_pinged = MonitorPongs 0 \<and> set (pings demo_pinged) \<subseteq> set (worker_ips demo_init) \<union> set (dropped_worker_ips demo_init)"
  using monitor_pongs_bounded [OF three_workers_usable demo_pinged_reachable] by (simp add: demo_pinged_def demo_program_def)

text \<open>
  C8: The monitor never blocks the main thread for good: every step that \<open>MasterRun\<close> allows the main thread, those behind a wait for
  a round of the monitor and the return of \<open>run\<close> behind the join included, can be reached, with no worker dropped on the way.
\<close>

theorem main_passes_monitor:
  assumes "spec_usable spec fl" and "program_reachable spec fl s" and "stopped (threads s) = None" and "\<not> terminated s"
    and "run_main_step (threads s) r"
  shows "\<exists>t. program_step\<^sup>*\<^sup>* s t \<and> threads t = r \<and> \<not> terminated t"
proof -
  have I: "program_inv fl s" "running s" using program_reachable_inv [OF assms(1,2)] assms(3,4) by simp_all
  consider "pc (threads s) = Starting \<or> waits_for_monitor (pc (threads s))" | "pc (threads s) = ReduceJoin" |
    "pc (threads s) \<noteq> Starting" "\<not> waits_for_monitor (pc (threads s))" "pc (threads s) \<noteq> ReduceJoin" by blast
  then show ?thesis
  proof cases
    case 1
    from main_asks [OF I(2,1) this] obtain t where t: "program_step\<^sup>*\<^sup>* s t" "threads t = threads s" "stage t = Waits" "\<not> terminated t" by blast
    obtain u where "program_step\<^sup>*\<^sup>* t u" "threads u = r" "\<not> terminated u"
      using wait_ends [OF _ program_inv_steps [OF t(1) I(1)] t(3), of r] 1 t assms(3,5) by auto
    then show ?thesis using rtranclp_trans [OF t(1)] by blast
  next
    case 2
    from join_ends [OF I(2,1) this assms(5)] show ?thesis .
  next
    case 3
    from main_moves [OF rtranclp.rtrancl_refl I(2) other_step [OF 3 assms(5)]] show ?thesis using assms(4)
      by (intro exI [of _ "s\<lparr>threads := r\<rparr>"]) simp
  qed
qed

theorem main_passes_monitor_witness:
  "\<exists>t. program_step\<^sup>*\<^sup>* demo_pinged t \<and> pc (threads t) = Mapping 0 \<and> \<not> terminated t"
proof -
  have "run_main_step (threads demo_pinged) ((threads demo_pinged)\<lparr>mst := (mst (threads demo_pinged))\<lparr>num_dropped_workers := 0\<rparr>, pc := Mapping 0\<rparr>)"
    by (rule first_pongs) (simp add: demo_pinged_def demo_program_def)
  from main_passes_monitor [OF three_workers_usable demo_pinged_reachable _ _ this] obtain t where
    "program_step\<^sup>*\<^sup>* demo_pinged t" "threads t = (threads demo_pinged)\<lparr>mst := (mst (threads demo_pinged))\<lparr>num_dropped_workers := 0\<rparr>, pc := Mapping 0\<rparr>"
    "\<not> terminated t" by (auto simp: demo_pinged_def demo_program_def)
  then show ?thesis by (intro exI [of _ t]) simp
qed


text \<open>A round in which the first pong that is read reports a failure, and the rest of it none.\<close>

lemma failing_pong:
  assumes "monitor_at s = MonitorPongs i" and "int i < num_workers (mst (threads s))" and "ip \<in> set (pings s)"
  shows "monitor_thread_step s (s\<lparr>threads := goes (threads s) (handle_worker_failure ip (mst (threads s))),
    monitor_at := MonitorPongs (Suc i), pings := remove1 ip (pings s)\<rparr>)"
proof -
  define call where "call = \<lparr>ping_status_ok = False, pinged_ip = ip, pong_id = []\<rparr>"
  have "receive_monitor_pong call = (True, ip)" "pinged_ip call = ip" by (simp_all add: call_def receive_monitor_pong_def)
  then show ?thesis using monitor_pong [OF assms, of call True ip] by simp
qed

lemma failing_round:
  assumes "running s" and "monitor_at s = MonitorLoop" and "\<not> stop_monitoring s" and "clients_ok (mst (threads s))"
    and "handle_worker_failure ip (mst (threads s)) = Inr m" and "clients_ok m" and "worker_ips m = remove1 ip (worker_ips (mst (threads s)))"
    and "ip \<in> set (worker_ips (mst (threads s)))"
  shows "\<exists>t. program_step\<^sup>*\<^sup>* s t \<and> running t \<and> monitor_at t = MonitorLoop \<and> \<not> stop_monitoring t \<and> mst (threads t) = m \<and>
    pings t = drop (length (worker_ips m) - 1) (remove1 ip (pings s @ worker_ips (mst (threads s))))"
proof -
  let ?W = "worker_ips (mst (threads s))"
  let ?s1 = "s\<lparr>monitor_at := MonitorPongs 0, pings := pings s @ ?W\<rparr>"
  let ?s2 = "?s1\<lparr>threads := (threads s)\<lparr>mst := m\<rparr>, monitor_at := MonitorPongs (Suc 0), pings := remove1 ip (pings s @ ?W)\<rparr>"
  let ?s3 = "?s2\<lparr>monitor_at := MonitorLoop, pings := drop (length (worker_ips m) - 1) (remove1 ip (pings s @ ?W)),
    initial_monitor_job := False, trigger_monitoring := False\<rparr>"
  have "length ?W \<noteq> 0" using assms(8) by auto
  then have n: "int 0 < num_workers (mst (threads s))" "num_workers m = int (length (worker_ips m))" "length (worker_ips m) = length ?W - 1"
    using clients_okD(2) [OF assms(4)] clients_okD(2) [OF assms(6)] assms(7,8) by (simp_all add: length_remove1)
  have len: "length (remove1 ip (pings s @ ?W)) = length (pings s) + length (worker_ips m)"
    using assms(8) n(3) \<open>length ?W \<noteq> 0\<close> by (cases ?W) (auto simp: length_remove1)
  have "monitor_thread_step s ?s1" using monitor_pings [OF assms(2,3) send_pings_ok [OF assms(4)]] by simp
  moreover have "monitor_thread_step ?s1 ?s2" using failing_pong [of ?s1 0 ip] n(1) assms(5,8) by (simp add: goes_def)
  moreover have "program_step\<^sup>*\<^sup>* ?s2 ?s3" using monitor_reads [of ?s2 "Suc 0"] assms(1) n(2) len by simp
  ultimately have "program_step\<^sup>*\<^sup>* s ?s3"
    by (intro monitor_moves [of s ?s1] monitor_moves [of ?s1 ?s2]) (use assms(1) in \<open>assumption | simp\<close>)+
  then show ?thesis using assms(1,3) by (intro exI [of _ ?s3]) simp
qed

lemma drop_all_but_one: "xs \<noteq> [] \<Longrightarrow> drop (length xs - 1) xs = [last xs]"
  by (induction xs rule: rev_induct) simp_all

text \<open>
  C30: Two failures among three or more workers can crash the master in the reduce phase. The failure of one worker
  ends the round one pong early, so a pong of another worker stays unread; in the next rounds that worker is reported twice,
  from the pong that was left and from its own, and the second report dereferences the null client of a dropped worker.
\<close>

theorem monitor_reports_twice:
  assumes "stopped (threads s) = None" and "\<not> terminated s" and "monitor_at s = MonitorLoop" and "\<not> stop_monitoring s" and "pings s = []"
    and "clients_ok (mst (threads s))" and "map_complete (mst (threads s))" and "3 \<le> length (worker_ips (mst (threads s)))"
  shows "\<exists>t. program_step\<^sup>*\<^sup>* s t \<and> stopped (threads t) = Some BadPointer"
proof -
  let ?m = "mst (threads s)"
  obtain a ws where W: "worker_ips ?m = a # ws" and len: "2 \<le> length ws" using assms(8) by (cases "worker_ips ?m") auto
  define c where "c = last ws"
  have c: "c \<in> set ws" "drop (length ws - 1) ws = [c]" using len drop_all_but_one [of ws] by (cases "ws = []"; simp add: c_def)+
  have "a \<in> set (worker_ips ?m)" by (simp add: W)
  from reduce_failure_ok [OF assms(6) this assms(7)] obtain m1 where
    m1: "handle_worker_failure a ?m = Inr m1" "clients_ok m1" "map_complete m1" "worker_ips m1 = ws" by (auto simp: W)
  obtain s1 where s1: "program_step\<^sup>*\<^sup>* s s1" "running s1" "monitor_at s1 = MonitorLoop" "\<not> stop_monitoring s1" "mst (threads s1) = m1" "pings s1 = [c]"
    using failing_round [OF _ assms(3,4,6) m1(1,2)] assms(1,2,5) m1(4) c(2) by (auto simp: W)
  from reduce_failure_ok [OF m1(2) _ m1(3), of c] c(1) m1(4) obtain m2 where
    m2: "handle_worker_failure c m1 = Inr m2" "clients_ok m2" "map_complete m2" "worker_ips m2 = remove1 c ws" by auto
  obtain s2 where s2: "program_step\<^sup>*\<^sup>* s1 s2" "running s2" "monitor_at s2 = MonitorLoop" "\<not> stop_monitoring s2" "mst (threads s2) = m2"
    "pings s2 = drop (length (worker_ips m2) - 1) ws"
    using failing_round [OF s1(2-4), of c m2] s1(5,6) m1(2,4) m2 c(1) by auto
  have lenm2: "length (worker_ips m2) = length ws - 1" using m2(4) c(1) by (simp add: length_remove1)
  have "pings s2 \<noteq> []" using s2(6) lenm2 len by simp
  moreover have "last (pings s2) = c" using s2(6) lenm2 len by (simp add: c_def last_drop)
  ultimately have cp: "c \<in> set (pings s2 @ worker_ips m2)" by (metis Un_iff last_in_set set_append)
  have "\<not> live m2 c" using clients_okD(3) [OF m2(2)] clients_okD(1) [OF m1(2)] m1(4) m2(4) by simp
  then have crash: "handle_worker_failure c m2 = Inl BadPointer" using failure_of_dropped(1) [OF m2(2)] m2(3) by blast
  let ?t = "s2\<lparr>monitor_at := MonitorPongs 0, pings := pings s2 @ worker_ips m2\<rparr>"
  let ?u = "?t\<lparr>threads := (threads s2)\<lparr>stopped := Some BadPointer\<rparr>, monitor_at := MonitorPongs (Suc 0), pings := remove1 c (pings s2 @ worker_ips m2)\<rparr>"
  have "s2\<lparr>threads := (threads s2)\<lparr>mst := m2\<rparr>, monitor_at := MonitorPongs 0, pings := pings s2 @ worker_ips m2\<rparr> = ?t"
    using s2(5) by (cases s2; cases "threads s2") simp
  moreover have "monitor_thread_step s2 (s2\<lparr>threads := (threads s2)\<lparr>mst := m2\<rparr>, monitor_at := MonitorPongs 0, pings := pings s2 @ worker_ips m2\<rparr>)"
    using monitor_pings [OF s2(3,4), of m2] send_pings_ok [OF m2(2)] s2(5) by simp
  ultimately have "monitor_thread_step s2 ?t" by (simp only:)
  moreover have "int 0 < num_workers m2" using clients_okD(2) [OF m2(2)] lenm2 len by simp
  then have "monitor_thread_step ?t ?u" using failing_pong [of ?t 0 c] cp s2(5) crash by (simp add: goes_def)
  ultimately have "program_step\<^sup>*\<^sup>* s2 ?u"
    by (intro monitor_moves [of s2 ?t] monitor_moves [of ?t ?u] rtranclp.rtrancl_refl) (use s2(2) in \<open>assumption | simp\<close>)+
  then have "program_step\<^sup>*\<^sup>* s ?u" using s1(1) s2(1) by (meson rtranclp_trans)
  then show ?thesis by (intro exI [of _ ?u]) simp
qed

theorem monitor_reports_twice_witness:
  "\<exists>t. program_step\<^sup>*\<^sup>* (demo_program\<lparr>threads := run_at MapDecided (Notified True) True phase_complete, monitor_at := MonitorLoop\<rparr>) t \<and>
     stopped (threads t) = Some BadPointer"
proof -
  have "clients_ok phase_complete" using master_reachable_inv [OF three_workers_usable demo_reach(5)] by (simp add: run_inv_def)
  then show ?thesis
    by (intro monitor_reports_twice) (simp_all add: demo_program_def demo_complete)
qed

end
