(* ===== verification/MapReduceSystem.thy ===== *)
theory MapReduceSystem
  imports MasterThreads
begin

text \<open>
  The master and its workers together, on one disk, when no worker fails and no call ends with an error. The threads
  of the master are those of \<open>MasterRun\<close>; a call that has been sent is executed by its worker with the jobs of
  \<open>WorkerRequest\<close> at some later time, in any order with the calls of other workers, and its response is received
  at some time after that. Whatever the interleaving, the disk is at every time the result of running the jobs of \<open>MapReduceRun\<close>
  one after the other in some order, so when \<open>Master::run\<close> returns, the output files are those of that run.

  A job is one step. That is faithful when the workers have different ports, as in the repository's \<^verbatim>\<open>config.ini\<close>: a worker
  runs its jobs one after the other, and jobs of workers with different ports write different files. Two workers on
  different hosts with the same port and a shared disk would append to the same intermediate files; such interleaved writes are
  not modelled. The theorems ask for distinct addresses only.
\<close>

section \<open>The system\<close>

text \<open>
  \<open>results\<close>: the calls that a worker has executed and the names of the files in its result, until the master has
  counted the response.
\<close>

record system =
  master :: run_state
  shared_disk :: filesystem
  results :: "(rpc \<times> string list) list"
  job_fault :: "c_fault option"

definition execute_call :: "(string \<Rightarrow> u64) \<Rightarrow> factory \<Rightarrow> rpc \<Rightarrow> filesystem \<Rightarrow> (string list \<times> filesystem) outcome" where
  "execute_call hash factory c fs = (case c of
       MapRpc ip q \<Rightarrow> bnd (port_num ip) (\<lambda>port. handle_map_job hash factory port q fs)
     | ReduceRpc ip q \<Rightarrow> bnd (handle_reduce_job factory q fs) (\<lambda>(f, fs). Inr ([f], fs)))"

definition call_of :: "rpc \<Rightarrow> string list \<Rightarrow> ClientCall" where
  "call_of c fl = (case c of
       MapRpc ip q \<Rightarrow> \<lparr>is_map_job = True, status_ok = True, worker_ip_addr = ip, result_files = fl\<rparr>
     | ReduceRpc ip q \<Rightarrow> \<lparr>is_map_job = False, status_ok = True, worker_ip_addr = ip, result_files = fl\<rparr>)"

definition unlink :: "string list \<Rightarrow> filesystem \<Rightarrow> filesystem" where
  "unlink fl fs = fs\<lparr>contents := (\<lambda>f. if f \<in> set fl then None else contents fs f)\<rparr>"

definition sys_init :: "MapReduceSpec \<Rightarrow> FileShard list \<Rightarrow> filesystem \<Rightarrow> system \<Rightarrow> bool" where
  "sys_init spec file_shards fs s \<longleftrightarrow> run_init spec file_shards (master s) \<and> shared_disk s = fs \<and> results s = [] \<and> job_fault s = None"

text \<open>The master deletes the files that its step adds to \<open>removed\<close>.\<close>

inductive sys_step :: "(string \<Rightarrow> u64) \<Rightarrow> factory \<Rightarrow> system \<Rightarrow> system \<Rightarrow> bool" for hash factory where
  sys_main: "run_main_step (master s) r \<Longrightarrow> stopped (master s) = None \<Longrightarrow> job_fault s = None \<Longrightarrow>
    sys_step hash factory s (s\<lparr>master := r,
      shared_disk := unlink (drop (length (removed (mst (master s)))) (removed (mst r))) (shared_disk s)\<rparr>)"
| sys_job: "c \<in># mset (sent (mst (master s))) - mset (map fst (results s)) \<Longrightarrow> execute_call hash factory c (shared_disk s) = Inr (fl, fs) \<Longrightarrow>
    stopped (master s) = None \<Longrightarrow> job_fault s = None \<Longrightarrow> sys_step hash factory s (s\<lparr>shared_disk := fs, results := results s @ [(c, fl)]\<rparr>)"
| sys_job_fault: "c \<in># mset (sent (mst (master s))) - mset (map fst (results s)) \<Longrightarrow> execute_call hash factory c (shared_disk s) = Inl e \<Longrightarrow>
    stopped (master s) = None \<Longrightarrow> job_fault s = None \<Longrightarrow> sys_step hash factory s (s\<lparr>job_fault := Some e\<rparr>)"
| sys_response: "polling (master s) = Polling \<Longrightarrow> (c, fl) \<in> set (results s) \<Longrightarrow>
    poll_response (call_of c fl) (mst (master s)) = (b, m) \<Longrightarrow> stopped (master s) = None \<Longrightarrow> job_fault s = None \<Longrightarrow>
    sys_step hash factory s (s\<lparr>master := (master s)\<lparr>mst := (if b then m else m\<lparr>sent := remove1 c (sent m)\<rparr>),
        polling := (if b then Counting c (call_of c fl) else Cleanup)\<rparr>,
      results := (if b then results s else remove1 (c, fl) (results s))\<rparr>)"
| sys_count: "polling (master s) = Counting c call \<Longrightarrow> poll_step (master s) r \<Longrightarrow> stopped (master s) = None \<Longrightarrow> job_fault s = None \<Longrightarrow>
    sys_step hash factory s (s\<lparr>master := r, results := remove1 (c, result_files call) (results s)\<rparr>)"
| sys_poll: "polling (master s) = Cleanup \<or> polling (master s) = Notified is_map \<Longrightarrow> poll_step (master s) r \<Longrightarrow>
    stopped (master s) = None \<Longrightarrow> job_fault s = None \<Longrightarrow> sys_step hash factory s (s\<lparr>master := r\<rparr>)"

section \<open>Jobs in flight\<close>

text \<open>
  \<open>accounted r f U Q\<close>: the calls that have been sent and not been counted are those of the jobs in \<open>U\<close>, which
  a worker has executed, and in \<open>Q\<close>, which none has.
\<close>

definition accounted :: "('j \<Rightarrow> rpc) \<Rightarrow> ('j \<Rightarrow> string list) \<Rightarrow> 'j multiset \<Rightarrow> 'j multiset \<Rightarrow> system \<Rightarrow> bool" where
  "accounted r f U Q s \<longleftrightarrow> mset (sent (mst (master s))) = image_mset r (U + Q) \<and> mset (results s) = image_mset (\<lambda>j. (r j, f j)) U"

lemma accounted_frame:
  "accounted r f U Q s \<Longrightarrow> sent (mst (master t)) = sent (mst (master s)) \<Longrightarrow> results t = results s \<Longrightarrow> accounted r f U Q t"
  by (simp add: accounted_def)

lemma accounted_send:
  "accounted r f U Q s \<Longrightarrow> sent (mst (master t)) = sent (mst (master s)) @ [r j] \<Longrightarrow> results t = results s \<Longrightarrow> accounted r f U (add_mset j Q) t"
  by (simp add: accounted_def)

lemma accounted_open:
  assumes "accounted r f U Q s" and "c \<in># mset (sent (mst (master s))) - mset (map fst (results s))"
  shows "\<exists>j. j \<in># Q \<and> c = r j"
proof -
  have "mset (map fst (results s)) = image_mset fst (mset (results s))" by simp
  also have "\<dots> = image_mset r U" using assms(1) by (simp add: accounted_def image_mset.compositionality comp_def)
  finally have "mset (sent (mst (master s))) - mset (map fst (results s)) = image_mset r Q" using assms(1) by (simp add: accounted_def)
  then show ?thesis using assms(2) by auto
qed

lemma accounted_job:
  assumes "accounted r f U Q s" and "j \<in># Q" and "sent (mst (master t)) = sent (mst (master s))" and "results t = results s @ [(r j, f j)]"
  shows "accounted r f (add_mset j U) (Q - {#j#}) t"
proof -
  obtain Q' where "Q = add_mset j Q'" using assms(2) by (meson multi_member_split)
  then show ?thesis using assms(1,3,4) by (simp add: accounted_def)
qed

lemma accounted_result:
  assumes "accounted r f U Q s" and "(c, fl) \<in> set (results s)"
  shows "\<exists>j. j \<in># U \<and> c = r j \<and> fl = f j"
proof -
  have "(c, fl) \<in># image_mset (\<lambda>j. (r j, f j)) U" using assms by (metis accounted_def set_mset_mset)
  then show ?thesis by auto
qed

lemma accounted_count:
  assumes "accounted r f U Q s" and "j \<in># U" and "sent (mst (master t)) = remove1 (r j) (sent (mst (master s)))"
    and "results t = remove1 (r j, f j) (results s)"
  shows "accounted r f (U - {#j#}) Q t"
proof -
  obtain U' where "U = add_mset j U'" using assms(2) by (meson multi_member_split)
  then show ?thesis using assms(1,3,4) by (simp add: accounted_def)
qed


section \<open>What the master does to its state\<close>

lemma take_ready_form:
  assumes "take_ready k m = (w, m')"
  shows "\<exists>q j. m' = m\<lparr>ready_queue := q, worker2job := j\<rparr>"
proof (cases "ready_queue m")
  case Nil
  then have "m' = m\<lparr>ready_queue := ready_queue m, worker2job := worker2job m\<rparr>" using assms by (simp add: take_ready_def)
  then show ?thesis by (intro exI)
next
  case (Cons ip rest)
  then have "m' = m\<lparr>ready_queue := rest, worker2job := if ip \<in> set (dropped_worker_ips m) then worker2job m else (worker2job m)(ip \<mapsto> k)\<rparr>"
    using assms by (auto simp: take_ready_def Let_def split: if_splits)
  then show ?thesis by (intro exI)
qed

lemma send_mapper_form:
  assumes "send_mapper_job ip sh m = Inr m'" and "live m ip" and "shard_ok sh"
  shows "\<exists>a. m' = m\<lparr>ip_addr2worker := a, sent := sent m @ [MapRpc ip \<lparr>mq_user_id = m_user_id m,
    mq_n_partitions = m_num_partitions m, mq_partitions = map piece_partition (shard_pieces sh)\<rparr>]\<rparr>"
  using assms(1,3) by (auto simp: send_mapper_job_def client_at_live [OF assms(2)] map_query_pieces shard_ok_def)

lemma send_reducer_form:
  assumes "send_reducer_job ip p fl m = Inr m'" and "live m ip"
  shows "m' = m\<lparr>sent := sent m @ [ReduceRpc ip (reduce_query (m_user_id m) p (m_output_dir m) fl)]\<rparr>"
  using assms(1) by (auto simp: send_reducer_job_def client_at_live [OF assms(2)])

lemma poll_response_form:
  assumes "poll_response (call_of c fl) m = (b, m')" and "worker_ip_addr (call_of c fl) \<in> set (worker_ips m)"
  shows "b \<and> (\<exists>q j. m' = m\<lparr>ready_queue := q, worker2job := j\<rparr>)"
  using assms by (cases c) (auto simp: poll_response_def call_of_def)

lemma count_response_form:
  assumes "live m (worker_ip_addr call)"
  shows "is_map_job call \<Longrightarrow> \<exists>a. count_response call m = m\<lparr>num_map_msgs := num_map_msgs m + 1, ip_addr2worker := a,
      m_intermediate_files := m_intermediate_files m \<union> set (result_files call)\<rparr>"
    and "\<not> is_map_job call \<Longrightarrow> \<exists>a. count_response call m = m\<lparr>num_reduce_msgs := num_reduce_msgs m + 1, ip_addr2worker := a,
      output_files := output_files m @ result_files call\<rparr>"
  by (auto simp: count_response_def client_at_live [OF assms])

section \<open>The run that the system performs\<close>

text \<open>The parameters of a run: \<open>std::hash\<close>, the registered tasks, the job, its shards and the disk at the start.\<close>

record mr_run =
  mr_hash :: "string \<Rightarrow> u64"
  mr_factory :: factory
  mr_spec :: MapReduceSpec
  mr_shards :: "FileShard list"
  mr_disk :: filesystem

definition job_port :: "string \<Rightarrow> string" where
  "job_port ip = projr (port_num ip)"

text \<open>A job is a worker with a shard or with the number of a partition.\<close>

definition map_rpc :: "mr_run \<Rightarrow> string \<times> FileShard \<Rightarrow> rpc" where
  "map_rpc E j = MapRpc (fst j) \<lparr>mq_user_id = user_id (mr_spec E), mq_n_partitions = n_output_files (mr_spec E),
     mq_partitions = map piece_partition (shard_pieces (snd j))\<rparr>"

definition map_files :: "mr_run \<Rightarrow> string \<times> FileShard \<Rightarrow> string list" where
  "map_files E j = job_names (job_port (fst j)) (n_output_files (mr_spec E))"

definition reduce_rpc :: "mr_run \<Rightarrow> (int \<Rightarrow> string list option) \<Rightarrow> string \<times> int \<Rightarrow> rpc" where
  "reduce_rpc E idx j = ReduceRpc (fst j) (reduce_query (user_id (mr_spec E)) (snd j) (output_dir (mr_spec E)) (the (idx (snd j))))"

definition reduce_files :: "mr_run \<Rightarrow> string \<times> int \<Rightarrow> string list" where
  "reduce_files E j = [output_name (output_dir (mr_spec E)) (snd j)]"

definition at_ports :: "(string \<times> FileShard) list \<Rightarrow> (string \<times> FileShard) list" where
  "at_ports = map (\<lambda>j. (job_port (fst j), snd j))"

abbreviation map_jobs :: "mr_run \<Rightarrow> (string \<times> FileShard) list \<Rightarrow> (string set \<times> filesystem) outcome" where
  "map_jobs E jobs \<equiv> map_phase (mr_hash E) (mr_factory E) (user_id (mr_spec E)) (n_output_files (mr_spec E)) jobs ({}, mr_disk E)"

abbreviation reduce_jobs :: "mr_run \<Rightarrow> (int \<Rightarrow> string list option) \<Rightarrow> filesystem \<Rightarrow> int list \<Rightarrow> (string list \<times> filesystem) outcome" where
  "reduce_jobs E idx fs parts \<equiv> reduce_phase (mr_factory E) (user_id (mr_spec E)) (output_dir (mr_spec E)) idx parts ([], fs)"

text \<open>
  What \<open>MapReduceRun\<close> shows of the jobs run one after the other: they do not fault, whatever the order, and \<open>P\<close> holds of the
  text of every output file.
\<close>

definition run_correct :: "mr_run \<Rightarrow> (int \<Rightarrow> string \<Rightarrow> bool) \<Rightarrow> bool" where
  "run_correct E P \<longleftrightarrow> (\<forall>jobs. mset (map snd jobs) = mset (mr_shards E) \<longrightarrow>
     (\<exists>names fs1 idx. map_jobs E jobs = Inr (names, fs1) \<and> group_files names = Inr idx \<and> dom idx = {0..<n_output_files (mr_spec E)} \<and>
       (\<forall>parts. distinct parts \<and> set parts = dom idx \<longrightarrow> (\<exists>outs fs2. reduce_jobs E idx fs1 parts = Inr (outs, fs2) \<and>
          (\<forall>i\<in>dom idx. P i (file_text fs2 (output_name (output_dir (mr_spec E)) i)))))))"

lemma port_num_Inr: "port_num ip = Inr (job_port ip)"
  using port_substr [of ip "CHR '':''"] by (auto simp: job_port_def port_num_def)

lemma map_phase_names:
  "map_phase hash factory uid n jobs (N, fs) = Inr (N', fs') \<Longrightarrow> N' = N \<union> phase_names n jobs"
proof (induction jobs arbitrary: N fs)
  case Nil
  then show ?case by (simp add: map_phase_def phase_names_def)
next
  case (Cons job jobs)
  from Cons.prems obtain q out where q: "map_query uid n (snd job) = Inr q" "handle_map_job hash factory (fst job) q fs = Inr out"
    and rest: "map_phase hash factory uid n jobs (N \<union> set (fst out), snd out) = Inr (N', fs')"
    by (auto simp: map_phase_def bnd_eq_Inr)
  have "mq_n_partitions q = n" using q(1) by (auto simp: map_query_def bnd_eq_Inr)
  then have "fst out = job_names (fst job) n"
    using q(2) by (auto simp: handle_map_job_def job_names_def Let_def bnd_eq_Inr split: option.splits)
  then show ?case using Cons.IH [OF rest] by (auto simp: phase_names_def)
qed

lemma map_phase_snoc:
  assumes "map_jobs E jobs = Inr (N, fs)"
  shows "map_jobs E (jobs @ [job]) = bnd (map_query (user_id (mr_spec E)) (n_output_files (mr_spec E)) (snd job)) (\<lambda>q.
    bnd (handle_map_job (mr_hash E) (mr_factory E) (fst job) q fs) (\<lambda>out. Inr (N \<union> set (fst out), snd out)))"
  using assms by (simp add: map_phase_def foldm_append bnd_def split: sum.splits)

lemma map_prefix:
  assumes "run_correct E P" and "mset (map snd jobs) \<subseteq># mset (mr_shards E)"
  shows "\<exists>N fs. map_jobs E jobs = Inr (N, fs)"
proof -
  obtain xs where xs: "mset xs = mset (mr_shards E) - mset (map snd jobs)" using ex_mset by blast
  have "mset (map snd (jobs @ map (Pair []) xs)) = mset (mr_shards E)"
    using xs subset_mset.add_diff_inverse [OF assms(2)] by (simp add: comp_def)
  then obtain N fs where "map_jobs E (jobs @ map (Pair []) xs) = Inr (N, fs)" using assms(1) unfolding run_correct_def by blast
  then show ?thesis by (auto simp: map_phase_def foldm_append bnd_eq_Inr)
qed

text \<open>The next map job does not fault, and it continues the sequence of jobs.\<close>

lemma map_next:
  assumes "run_correct E P" and "map_jobs E (at_ports log) = Inr (N, fs)" and "mset (map snd (log @ [j])) \<subseteq># mset (mr_shards E)"
    and "shard_ok (snd j)"
  shows "\<exists>N' fs'. execute_call (mr_hash E) (mr_factory E) (map_rpc E j) fs = Inr (map_files E j, fs') \<and> map_jobs E (at_ports (log @ [j])) = Inr (N', fs')"
proof -
  let ?q = "\<lparr>mq_user_id = user_id (mr_spec E), mq_n_partitions = n_output_files (mr_spec E), mq_partitions = map piece_partition (shard_pieces (snd j))\<rparr>"
  have snd: "map snd (at_ports (log @ [j])) = map snd (log @ [j])" by (simp add: at_ports_def comp_def)
  obtain N' fs' where r: "map_jobs E (at_ports (log @ [j])) = Inr (N', fs')"
    using map_prefix [OF assms(1), of "at_ports (log @ [j])"] assms(3) unfolding snd by blast
  have "at_ports (log @ [j]) = at_ports log @ [(job_port (fst j), snd j)]" by (simp add: at_ports_def)
  then have "bnd (handle_map_job (mr_hash E) (mr_factory E) (job_port (fst j)) ?q fs) (\<lambda>out. Inr (N \<union> set (fst out), snd out)) = Inr (N', fs')"
    using map_phase_snoc [OF assms(2), of "(job_port (fst j), snd j)"] r assms(4) by (simp add: map_query_pieces shard_ok_def)
  then obtain names where h: "handle_map_job (mr_hash E) (mr_factory E) (job_port (fst j)) ?q fs = Inr (names, fs')" by (auto simp: bnd_eq_Inr)
  moreover have "names = map_files E j" using h
    by (auto simp: handle_map_job_def map_files_def job_names_def Let_def bnd_eq_Inr split: option.splits)
  ultimately show ?thesis using r by (simp add: execute_call_def map_rpc_def port_num_Inr)
qed

lemma reduce_next:
  assumes "run_correct E P" and "mset (map snd jobs) = mset (mr_shards E)" and "map_jobs E jobs = Inr (names, fs1)" and "group_files names = Inr idx"
    and "reduce_jobs E idx fs1 (map snd log) = Inr (outs, fs)" and "distinct (map snd (log @ [j]))" and "set (map snd (log @ [j])) \<subseteq> dom idx"
  shows "\<exists>outs' fs'. execute_call (mr_hash E) (mr_factory E) (reduce_rpc E idx j) fs = Inr (reduce_files E j, fs') \<and>
    reduce_jobs E idx fs1 (map snd (log @ [j])) = Inr (outs', fs')"
proof -
  have fin: "finite (dom idx)" using assms(1-4) unfolding run_correct_def by fastforce
  define rest where "rest = sorted_list_of_set (dom idx - set (map snd (log @ [j])))"
  have "distinct (map snd (log @ [j]) @ rest) \<and> set (map snd (log @ [j]) @ rest) = dom idx"
    using assms(6,7) fin by (auto simp: rest_def)
  then obtain outs2 fs2 where "reduce_jobs E idx fs1 (map snd (log @ [j]) @ rest) = Inr (outs2, fs2)"
    using assms(1-4) unfolding run_correct_def by (metis Inr_inject Pair_inject)
  then obtain outs' fs' where r: "reduce_jobs E idx fs1 (map snd (log @ [j])) = Inr (outs', fs')"
    by (auto simp: reduce_phase_def foldm_append [of _ "map snd (log @ [j])"] bnd_eq_Inr simp del: map_append)
  then obtain out where h: "handle_reduce_job (mr_factory E) (reduce_query (user_id (mr_spec E)) (snd j) (output_dir (mr_spec E)) (the (idx (snd j)))) fs = Inr out"
    "snd out = fs'" using assms(5) by (auto simp: reduce_phase_def foldm_append bnd_def split: sum.splits)
  then have "fst out = output_name (output_dir (mr_spec E)) (snd j)"
    by (auto simp: handle_reduce_job_def reduce_query_def Let_def bnd_eq_Inr split: option.splits)
  then show ?thesis using r h by (auto simp: execute_call_def reduce_rpc_def reduce_files_def bnd_def split: prod.splits)
qed


section \<open>Invariant\<close>

text \<open>
  The main thread sends (0), waits for the thread that polls (1), waits for the monitor (2), has decided that the phase is
  complete (3), or has returned (4).
\<close>

fun pc_stage :: "main_pc \<Rightarrow> nat" where
  "pc_stage Starting = 0" | "pc_stage (Mapping i) = 0" | "pc_stage (MapSend i ip) = 0" | "pc_stage MapWait = 1"
| "pc_stage MapMonitor = 2" | "pc_stage MapDecided = 3" | "pc_stage MapJoin = 3"
| "pc_stage (Reducing i) = 0" | "pc_stage (ReduceSend i ip) = 0" | "pc_stage ReduceWait = 1"
| "pc_stage ReduceMonitor = 2" | "pc_stage ReduceDecided = 3" | "pc_stage ReduceJoin = 3" | "pc_stage Returned = 4"

fun map_side :: "main_pc \<Rightarrow> bool" where
  "map_side Starting = True" | "map_side (Mapping i) = True" | "map_side (MapSend i ip) = True" | "map_side MapWait = True"
| "map_side MapMonitor = True" | "map_side MapDecided = True" | "map_side MapJoin = True" | "map_side _ = False"

fun listening :: "poll_pc \<Rightarrow> bool" where
  "listening (Notified b) = False" | "listening PollReturned = False" | "listening _ = True"

text \<open>
  The handshake of the two threads: \<open>full\<close> says that every job of the phase has been counted. The thread that polls notifies the main
  thread only then, and so the decision of the main thread always is that the phase is complete.
\<close>

definition handshake :: "bool \<Rightarrow> bool \<Rightarrow> run_state \<Rightarrow> bool" where
  "handshake is_map full r \<longleftrightarrow>
     (pc_stage (pc r) = 0 \<longrightarrow> \<not> map_reduce_flag r \<and> listening (polling r)) \<and>
     (pc_stage (pc r) = 1 \<longrightarrow> map_reduce_flag r \<and> listening (polling r) \<or> \<not> map_reduce_flag r \<and> polling r = Notified is_map \<and> full) \<and>
     (pc_stage (pc r) = 2 \<longrightarrow> \<not> map_reduce_flag r \<and> polling r = Notified is_map \<and> full) \<and>
     (3 \<le> pc_stage (pc r) \<longrightarrow> full \<and> (map_reduce_flag r \<and> polling r = Notified is_map \<or> \<not> map_reduce_flag r \<and> polling r = PollReturned))"

definition control_ok :: "run_state \<Rightarrow> bool" where
  "control_ok r \<longleftrightarrow>
     (if map_side (pc r) then handshake True (num_map_msgs (mst r) = num_shards (mst r)) r \<and>
        map_complete (mst r) = (3 \<le> pc_stage (pc r)) \<and> \<not> reduce_complete (mst r)
      else handshake False (num_reduce_msgs (mst r) = m_num_partitions (mst r)) r \<and>
        map_complete (mst r) \<and> reduce_complete (mst r) = (3 \<le> pc_stage (pc r)))"

text \<open>What never changes without failures.\<close>

definition static_ok :: "mr_run \<Rightarrow> Master \<Rightarrow> bool" where
  "static_ok E m \<longleftrightarrow> m_user_id m = user_id (mr_spec E) \<and> m_output_dir m = output_dir (mr_spec E) \<and>
     m_num_partitions m = n_output_files (mr_spec E) \<and> num_shards m = int (length (mr_shards E)) \<and> dropped_worker_ips m = [] \<and>
     num_dropped_workers m = 0 \<and> num_dropped_map_jobs m = 0 \<and> num_dropped_reduce_jobs m = 0 \<and> unfinished_shards m = []"

text \<open>
  The jobs in \<open>C\<close> have been counted, those in \<open>U\<close> executed, those in \<open>Q\<close> sent; \<open>log\<close> is the order in which they were executed.
\<close>

definition map_flight :: "mr_run \<Rightarrow> (string \<times> FileShard) list \<Rightarrow> (string \<times> FileShard) multiset \<Rightarrow> (string \<times> FileShard) multiset
    \<Rightarrow> (string \<times> FileShard) multiset \<Rightarrow> system \<Rightarrow> bool" where
  "map_flight E log C U Q s \<longleftrightarrow> mset log = C + U \<and> accounted (map_rpc E) (map_files E) U Q s \<and>
     (\<forall>j\<in>#U + Q. fst j \<in> set (worker_ips (mst (master s)))) \<and>
     image_mset snd (C + U + Q) + mset (unsent (master s)) = mset (mr_shards E) \<and>
     (\<exists>N. map_jobs E (at_ports log) = Inr (N, shared_disk s)) \<and>
     num_map_msgs (mst (master s)) = int (size C) \<and> m_intermediate_files (mst (master s)) = (\<Union>j\<in>set_mset C. set (map_files E j)) \<and>
     num_reduce_msgs (mst (master s)) = 0 \<and> output_files (mst (master s)) = []"

definition unsent_parts :: "run_state \<Rightarrow> int list" where
  "unsent_parts r = (case pc r of Reducing i \<Rightarrow> drop i (m_partitions (mst r)) | ReduceSend i ip \<Rightarrow> drop i (m_partitions (mst r)) | _ \<Rightarrow> [])"

text \<open>The map phase is over: \<open>fs\<close> is the disk then.\<close>

definition mapped :: "mr_run \<Rightarrow> filesystem \<Rightarrow> run_state \<Rightarrow> bool" where
  "mapped E fs r \<longleftrightarrow> (\<exists>jobs. mset (map snd jobs) = mset (mr_shards E) \<and> map_jobs E jobs = Inr (m_intermediate_files (mst r), fs)) \<and>
     group_files (m_intermediate_files (mst r)) = Inr (idx2files r)"

definition reduce_flight :: "mr_run \<Rightarrow> filesystem \<Rightarrow> int list \<Rightarrow> (string \<times> int) list \<Rightarrow> (string \<times> int) multiset \<Rightarrow> (string \<times> int) multiset
    \<Rightarrow> (string \<times> int) multiset \<Rightarrow> system \<Rightarrow> bool" where
  "reduce_flight E fs parts log C U Q s \<longleftrightarrow> mapped E fs (master s) \<and> distinct parts \<and> set parts = dom (idx2files (master s)) \<and>
     (pc_stage (pc (master s)) = 0 \<longrightarrow> m_partitions (mst (master s)) = parts) \<and>
     (\<forall>i ip. pc (master s) = ReduceSend i ip \<longrightarrow> i < length parts) \<and>
     mset log = C + U \<and> accounted (reduce_rpc E (idx2files (master s))) (reduce_files E) U Q s \<and>
     (\<forall>j\<in>#U + Q. fst j \<in> set (worker_ips (mst (master s)))) \<and>
     image_mset snd (C + U + Q) + mset (unsent_parts (master s)) = mset parts \<and>
     (\<exists>outs. reduce_jobs E (idx2files (master s)) fs (map snd log) = Inr (outs, shared_disk s)) \<and>
     num_reduce_msgs (mst (master s)) = int (size C) \<and> length (output_files (mst (master s))) = size C"

definition returned_ok :: "mr_run \<Rightarrow> system \<Rightarrow> bool" where
  "returned_ok E s \<longleftrightarrow> sent (mst (master s)) = [] \<and> results s = [] \<and> (\<exists>fs parts outs fs2. mapped E fs (master s) \<and> distinct parts \<and> set parts = dom (idx2files (master s)) \<and>
     reduce_jobs E (idx2files (master s)) fs parts = Inr (outs, fs2) \<and>
     shared_disk s = unlink (sorted_list_of_set (m_intermediate_files (mst (master s)))) fs2)"

definition counting_ok :: "system \<Rightarrow> bool" where
  "counting_ok s \<longleftrightarrow> (\<forall>c call. polling (master s) = Counting c call \<longrightarrow> (\<exists>fl. call = call_of c fl \<and> (c, fl) \<in> set (results s)))"

definition phase_ok :: "mr_run \<Rightarrow> system \<Rightarrow> bool" where
  "phase_ok E s \<longleftrightarrow> (if pc (master s) = Returned then returned_ok E s
     else removed (mst (master s)) = [] \<and>
       (if map_side (pc (master s)) then \<exists>log C U Q. map_flight E log C U Q s
        else \<exists>fs parts log C U Q. reduce_flight E fs parts log C U Q s))"

definition sys_inv :: "mr_run \<Rightarrow> system \<Rightarrow> bool" where
  "sys_inv E s \<longleftrightarrow> run_inv (mr_shards E) (master s) \<and> stopped (master s) = None \<and> job_fault s = None \<and>
     static_ok E (mst (master s)) \<and> control_ok (master s) \<and> counting_ok s \<and> phase_ok E s"

lemma sys_invD:
  assumes "sys_inv E s"
  shows "run_inv (mr_shards E) (master s)" and "clients_ok (mst (master s))" and "stopped (master s) = None" and "job_fault s = None"
    and "static_ok E (mst (master s))" and "control_ok (master s)" and "counting_ok s" and "phase_ok E s"
  using assms by (simp_all add: sys_inv_def run_inv_def)

text \<open>The master does not stop while no worker is dropped.\<close>

lemma run_inv_running: "run_inv all r \<Longrightarrow> static_ok E (mst r) \<Longrightarrow> stopped r = None"
  by (auto simp: run_inv_def fault_ok_def static_ok_def)

text \<open>Steps that change only what the thread that polls has under its control.\<close>

lemma map_flight_frame:
  assumes "map_flight E log C U Q s" and "sent (mst (master t)) = sent (mst (master s))" and "results t = results s"
    and "worker_ips (mst (master t)) = worker_ips (mst (master s))" and "unsent (master t) = unsent (master s)" and "shared_disk t = shared_disk s"
    and "num_map_msgs (mst (master t)) = num_map_msgs (mst (master s))"
    and "m_intermediate_files (mst (master t)) = m_intermediate_files (mst (master s))"
    and "num_reduce_msgs (mst (master t)) = num_reduce_msgs (mst (master s))" and "output_files (mst (master t)) = output_files (mst (master s))"
  shows "map_flight E log C U Q t"
  using assms accounted_frame [of "map_rpc E" "map_files E" U Q s t] by (simp add: map_flight_def)

lemma reduce_flight_frame:
  assumes "reduce_flight E fs parts log C U Q s" and "sent (mst (master t)) = sent (mst (master s))" and "results t = results s"
    and "worker_ips (mst (master t)) = worker_ips (mst (master s))" and "unsent_parts (master t) = unsent_parts (master s)"
    and "shared_disk t = shared_disk s" and "num_reduce_msgs (mst (master t)) = num_reduce_msgs (mst (master s))"
    and "m_intermediate_files (mst (master t)) = m_intermediate_files (mst (master s))" and "idx2files (master t) = idx2files (master s)"
    and "output_files (mst (master t)) = output_files (mst (master s))"
    and "pc_stage (pc (master t)) = 0 \<Longrightarrow> m_partitions (mst (master t)) = parts"
    and "\<And>i ip. pc (master t) = ReduceSend i ip \<Longrightarrow> i < length parts"
  shows "reduce_flight E fs parts log C U Q t"
  using assms accounted_frame [of "reduce_rpc E (idx2files (master s))" "reduce_files E" U Q s t] by (simp add: reduce_flight_def mapped_def)


section \<open>The main thread\<close>

lemma unlink_nothing [simp]: "unlink [] fs = fs"
  by (simp add: unlink_def)

lemma main_keeps_running:
  assumes "sys_inv E s" and "run_main_step (master s) r" and "static_ok E (mst r)"
  shows "run_inv (mr_shards E) r" and "stopped r = None"
proof -
  show "run_inv (mr_shards E) r" using master_main_step_inv [OF assms(2) sys_invD(1,3) [OF assms(1)]] .
  then show "stopped r = None" using run_inv_running assms(3) by blast
qed

text \<open>When every shard has been counted, nothing is in flight.\<close>

lemma map_flight_full:
  assumes "map_flight E log C U Q s" and "num_map_msgs (mst (master s)) = num_shards (mst (master s))"
    and "num_shards (mst (master s)) = int (length (mr_shards E))"
  shows "U = {#} \<and> Q = {#} \<and> mset (map snd log) = mset (mr_shards E) \<and> sent (mst (master s)) = [] \<and> results s = []"
proof -
  have "size (image_mset snd (C + U + Q) + mset (unsent (master s))) = size (mset (mr_shards E))"
    using assms(1) unfolding map_flight_def by presburger
  moreover have "size C = length (mr_shards E)" using assms by (simp add: map_flight_def)
  ultimately have e: "U = {#}" "Q = {#}" "unsent (master s) = []" by simp_all
  then show ?thesis using assms(1) by (simp add: map_flight_def accounted_def)
qed

lemma map_flight_names:
  assumes "map_flight E log C U Q s" and "U = {#}" and "map_jobs E (at_ports log) = Inr (N, fs)"
  shows "N = m_intermediate_files (mst (master s))"
proof -
  have "N = phase_names (n_output_files (mr_spec E)) (at_ports log)" using map_phase_names [OF assms(3)] by simp
  also have "\<dots> = (\<Union>j\<in>set log. set (map_files E j))" by (simp add: phase_names_def at_ports_def map_files_def)
  also have "set log = set_mset C" using assms(1,2) by (metis map_flight_def add_0_right set_mset_mset)
  finally show ?thesis using assms(1) by (simp add: map_flight_def)
qed

text \<open>When every shard has been counted, the map phase has been run.\<close>

lemma map_flight_done:
  assumes F: "map_flight E log C U Q s" and "num_map_msgs (mst (master s)) = num_shards (mst (master s))"
    and "num_shards (mst (master s)) = int (length (mr_shards E))"
  shows "\<exists>jobs. mset (map snd jobs) = mset (mr_shards E) \<and> map_jobs E jobs = Inr (m_intermediate_files (mst (master s)), shared_disk s)"
proof -
  note e = map_flight_full [OF assms]
  obtain N where N: "map_jobs E (at_ports log) = Inr (N, shared_disk s)" using F unfolding map_flight_def by blast
  have "map snd (at_ports log) = map snd log" by (simp add: at_ports_def comp_def)
  then have "mset (map snd (at_ports log)) = mset (mr_shards E)" using e by metis
  then show ?thesis using map_flight_names [OF F _ N] e N by blast
qed

lemma reduce_phase_ok:
  assumes "reduce_flight E fs parts log C U Q s" and "pc (master s) \<noteq> Returned" and "\<not> map_side (pc (master s))"
    and "removed (mst (master s)) = []"
  shows "phase_ok E s"
proof -
  have "\<exists>fs parts log C U Q. reduce_flight E fs parts log C U Q s" by (intro exI) (rule assms(1))
  then show ?thesis using assms(2-4) by (simp add: phase_ok_def)
qed

lemma map_side_step:
  assumes inv: "sys_inv E s" and st: "run_main_step (master s) r" and side: "map_side (pc (master s))"
  shows "static_ok E (mst r) \<and> control_ok r \<and> removed (mst r) = [] \<and> (polling r = polling (master s) \<or> polling r = Polling) \<and>
    phase_ok E (s\<lparr>master := r\<rparr>)"
proof -
  note I = sys_invD [OF inv]
  have npc: "pc (master s) \<noteq> Returned" using side by auto
  have rm: "removed (mst (master s)) = []" using I(8) npc by (simp add: phase_ok_def)
  obtain log C U Q where F: "map_flight E log C U Q s" using I(8) side npc unfolding phase_ok_def by auto
  have C: "handshake True (num_map_msgs (mst (master s)) = num_shards (mst (master s))) (master s)"
    "map_complete (mst (master s)) = (3 \<le> pc_stage (pc (master s)))" "\<not> reduce_complete (mst (master s))"
    using I(6) side by (simp_all add: control_ok_def)
  note S = I(5)
  have ph: "phase_ok E (s\<lparr>master := r\<rparr>)" if "map_flight E log C U Q' (s\<lparr>master := r\<rparr>)" "map_side (pc r)" "removed (mst r) = []" for Q'
    using that unfolding phase_ok_def by (cases "pc r") auto
  show ?thesis
    using st
  proof cases
    case first_pongs
    have "map_flight E log C U Q (s\<lparr>master := r\<rparr>)"
      by (rule map_flight_frame [OF F]) (simp_all add: first_pongs unsent_def)
    then show ?thesis using ph [of Q] first_pongs S C rm by (simp add: static_ok_def control_ok_def handshake_def)
  next
    case (map_take i w m)
    obtain q j where m: "m = (mst (master s))\<lparr>ready_queue := q, worker2job := j\<rparr>" using take_ready_form [OF map_take(5)] by blast
    have "map_flight E log C U Q (s\<lparr>master := r\<rparr>)"
      by (rule map_flight_frame [OF F]) (simp_all add: map_take(1,2) m unsent_def split: option.splits)
    then show ?thesis using ph [of Q] map_take(1,2) m S C rm by (simp add: static_ok_def control_ok_def handshake_def split: option.splits)
  next
    case (map_send i ip)
    let ?m = "mst (master s)"
    have ok: "i < length (m_shards ?m)" "ip \<in> set (worker_ips ?m)"
      using I(1) map_send(2) S by (simp_all add: run_inv_def main_ok_def static_ok_def)
    then have lv: "live ?m ip" using clients_okD(3) [OF I(2)] by simp
    have sh: "shard_ok (m_shards ?m ! i)" using clients_okD(10) [OF I(2)] ok(1) by (simp add: list_all_length)
    obtain m' where m': "send_mapper_job ip (m_shards ?m ! i) ?m = Inr m'"
      using lv sh by (simp add: send_mapper_job_def client_at_live map_query_pieces shard_ok_def)
    then obtain a where a: "m' = ?m\<lparr>ip_addr2worker := a, sent := sent ?m @ [MapRpc ip \<lparr>mq_user_id = m_user_id ?m,
        mq_n_partitions = m_num_partitions ?m, mq_partitions = map piece_partition (shard_pieces (m_shards ?m ! i))\<rparr>]\<rparr>"
      using send_mapper_form [OF m' lv sh] by blast
    let ?j = "(ip, m_shards ?m ! i)"
    have r: "r = (master s)\<lparr>mst := m', pc := Mapping (Suc i)\<rparr>" using map_send(1) m' by (simp add: goes_to_def)
    have snt: "sent (mst (master (s\<lparr>master := r\<rparr>))) = sent ?m @ [map_rpc E ?j]"
      using S by (simp add: r a map_rpc_def static_ok_def)
    have un: "unsent (master s) = m_shards ?m ! i # unsent r" using map_send(2) ok(1) by (simp add: r a unsent_def Cons_nth_drop_Suc)
    have "map_flight E log C U (add_mset ?j Q) (s\<lparr>master := r\<rparr>)"
      using F ok(2) accounted_send [of "map_rpc E" "map_files E" U Q s "s\<lparr>master := r\<rparr>", OF _ snt] unfolding map_flight_def un by (simp add: r a)
    then show ?thesis using ph [of "add_mset ?j Q"] map_send(2) r a S C rm by (simp add: static_ok_def control_ok_def handshake_def)
  next
    case (map_sent i)
    have "map_flight E log C U Q (s\<lparr>master := r\<rparr>)"
      by (rule map_flight_frame [OF F]) (simp_all add: map_sent(1,2,3) unsent_def)
    then show ?thesis using ph [of Q] map_sent(1,2) S C rm by (simp add: static_ok_def control_ok_def handshake_def)
  next
    case map_notified
    have "map_flight E log C U Q (s\<lparr>master := r\<rparr>)"
      by (rule map_flight_frame [OF F]) (simp_all add: map_notified(1,2) unsent_def)
    then show ?thesis using ph [of Q] map_notified S C rm by (auto simp: static_ok_def control_ok_def handshake_def)
  next
    case map_decide
    have full: "num_map_msgs (mst (master s)) = num_shards (mst (master s))" using C(1) map_decide(2) by (simp add: handshake_def)
    have sm: "schedule_monitor (mst (master s)) = (mst (master s))\<lparr>map_complete := True, num_dropped_workers := 0\<rparr>"
      using C(2) map_decide(2) S full by (simp add: schedule_monitor_map static_ok_def)
    have "map_flight E log C U Q (s\<lparr>master := r\<rparr>)"
      by (rule map_flight_frame [OF F]) (simp_all add: map_decide sm unsent_def)
    then show ?thesis using ph [of Q] map_decide sm full S C rm by (auto simp: static_ok_def control_ok_def handshake_def)
  next
    case (map_round complete m)
    have "end_map_round (mst (master s)) = (True, (mst (master s))\<lparr>m_shards := []\<rparr>)"
      using S C(2) map_round(2) by (simp add: end_map_round_def static_ok_def)
    then have cm: "complete" "m = (mst (master s))\<lparr>m_shards := []\<rparr>" using map_round(3) by simp_all
    have "map_flight E log C U Q (s\<lparr>master := r\<rparr>)"
      by (rule map_flight_frame [OF F]) (simp_all add: map_round(1,2) cm unsent_def)
    then show ?thesis using ph [of Q] map_round(1,2) cm S C rm by (auto simp: static_ok_def control_ok_def handshake_def)
  next
    case (group idx parts)
    have full: "num_map_msgs (mst (master s)) = num_shards (mst (master s))" and fl: "\<not> map_reduce_flag (master s)"
      using C(1) group(2,3) by (auto simp: handshake_def)
    have "num_shards (mst (master s)) = int (length (mr_shards E))" using S by (simp add: static_ok_def)
    note e = map_flight_full [OF F full this]
    have "\<exists>jobs. mset (map snd jobs) = mset (mr_shards E) \<and> map_jobs E jobs = Inr (m_intermediate_files (mst r), shared_disk s)"
      using map_flight_done [OF F full \<open>num_shards (mst (master s)) = int (length (mr_shards E))\<close>] unfolding group(1) by simp
    then have mp: "mapped E (shared_disk s) r" using group(1,4) by (simp add: mapped_def)
    have "reduce_flight E (shared_disk s) parts [] {#} {#} {#} (s\<lparr>master := r\<rparr>)"
      using mp group F e by (simp add: reduce_flight_def accounted_def unsent_parts_def reduce_phase_def map_flight_def)
    then have "phase_ok E (s\<lparr>master := r\<rparr>)" by (rule reduce_phase_ok) (use group(1) rm in simp_all)
    then show ?thesis using group(1,2) S C rm fl by (simp add: static_ok_def control_ok_def handshake_def)
  next
    case (group_fault e)
    have "static_ok E (mst r)" using S group_fault by simp
    then show ?thesis using main_keeps_running [OF inv st] group_fault by simp
  qed (use side in auto)
qed


lemma reduce_flight_full:
  assumes "reduce_flight E fs parts log C U Q s" and "size C = length parts"
  shows "U = {#} \<and> Q = {#} \<and> mset (map snd log) = mset parts"
proof -
  have "size (image_mset snd (C + U + Q) + mset (unsent_parts (master s))) = size (mset parts)"
    using assms(1) unfolding reduce_flight_def by presburger
  then have e: "U = {#}" "Q = {#}" "unsent_parts (master s) = []" using assms(2) by simp_all
  then show ?thesis using assms(1) by (simp add: reduce_flight_def)
qed

lemma mapped_dom:
  assumes "run_correct E P" and "mapped E fs r"
  shows "dom (idx2files r) = {0..<n_output_files (mr_spec E)}"
proof -
  obtain jobs where "mset (map snd jobs) = mset (mr_shards E)" "map_jobs E jobs = Inr (m_intermediate_files (mst r), fs)"
    using assms(2) unfolding mapped_def by blast
  then obtain names fs1 idx where "map_jobs E jobs = Inr (names, fs1)" "group_files names = Inr idx" "dom idx = {0..<n_output_files (mr_spec E)}"
    "names = m_intermediate_files (mst r)" using assms(1) unfolding run_correct_def by force
  then show ?thesis using assms(2) by (simp add: mapped_def)
qed

lemma reduce_side_step:
  assumes inv: "sys_inv E s" and st: "run_main_step (master s) r" and side: "\<not> map_side (pc (master s))"
    and fine: "run_correct E P" and n: "0 < n_output_files (mr_spec E)"
  shows "static_ok E (mst r) \<and> control_ok r \<and> polling r = polling (master s) \<and>
    phase_ok E (s\<lparr>master := r, shared_disk := unlink (drop (length (removed (mst (master s)))) (removed (mst r))) (shared_disk s)\<rparr>)"
proof -
  note I = sys_invD [OF inv]
  have npc: "pc (master s) \<noteq> Returned" using st by cases auto
  have rm: "removed (mst (master s)) = []" using I(8) npc by (simp add: phase_ok_def)
  obtain fs parts log C U Q where F: "reduce_flight E fs parts log C U Q s" using I(8) side npc unfolding phase_ok_def by auto
  have C: "handshake False (num_reduce_msgs (mst (master s)) = m_num_partitions (mst (master s))) (master s)"
    "map_complete (mst (master s))" "reduce_complete (mst (master s)) = (3 \<le> pc_stage (pc (master s)))"
    using I(6) side by (simp_all add: control_ok_def)
  note S = I(5)
  have parts: "m_partitions (mst (master s)) = parts" if "pc_stage (pc (master s)) = 0" using F that by (simp add: reduce_flight_def)
  have un: "unlink (drop (length (removed (mst (master s)))) (removed (mst r))) (shared_disk s) = shared_disk s" if "removed (mst r) = []"
    using that by simp
  have ph: "phase_ok E (s\<lparr>master := r, shared_disk := unlink (drop (length (removed (mst (master s)))) (removed (mst r))) (shared_disk s)\<rparr>)"
    if "reduce_flight E fs parts log C U Q' (s\<lparr>master := r\<rparr>)" "\<not> map_side (pc r)" "pc r \<noteq> Returned" "removed (mst r) = []" for Q'
    unfolding un [OF that(4)] by (rule reduce_phase_ok [of E fs parts log C U Q']) (use that in simp_all)
  show ?thesis
    using st
  proof cases
    case (reduce_take i w m)
    obtain q j where m: "m = (mst (master s))\<lparr>ready_queue := q, worker2job := j\<rparr>" using take_ready_form [OF reduce_take(5)] by blast
    have p: "m_partitions (mst (master s)) = parts" using parts reduce_take(2) by simp
    have "reduce_flight E fs parts log C U Q (s\<lparr>master := r\<rparr>)"
      by (rule reduce_flight_frame [OF F])
        (use reduce_take(3) p in \<open>simp_all add: reduce_take(1,2) m unsent_parts_def split: option.splits\<close>)
    then show ?thesis using ph [of Q] reduce_take(1,2) m S C rm by (simp add: static_ok_def control_ok_def handshake_def split: option.splits)
  next
    case (reduce_send i ip p fl)
    let ?m = "mst (master s)"
    have ok: "i < length parts" "ip \<in> set (worker_ips ?m)" "m_partitions ?m = parts"
      using I(1) reduce_send(2) S F by (simp_all add: run_inv_def main_ok_def static_ok_def reduce_flight_def)
    then have lv: "live ?m ip" using clients_okD(3) [OF I(2)] by simp
    obtain m' where m': "send_reducer_job ip p fl ?m = Inr m'" using lv by (simp add: send_reducer_job_def client_at_live)
    note a = send_reducer_form [OF m' lv]
    let ?j = "(ip, parts ! i)"
    have "p \<in> dom (idx2files (master s))" using F reduce_send(3) ok by (simp add: reduce_flight_def) (metis nth_mem)
    then have fl: "fl = the (idx2files (master s) p)" using reduce_send(4) by auto
    have r: "r = (master s)\<lparr>mst := m', pc := Reducing (Suc i)\<rparr>" using reduce_send(1) m' by (simp add: goes_to_def)
    have snt: "sent (mst (master (s\<lparr>master := r\<rparr>))) = sent ?m @ [reduce_rpc E (idx2files (master s)) ?j]"
      using S ok(3) reduce_send(3) by (simp add: r a fl reduce_rpc_def static_ok_def)
    have us: "unsent_parts (master s) = parts ! i # unsent_parts r"
      using reduce_send(2) ok by (simp add: r a unsent_parts_def Cons_nth_drop_Suc)
    have "reduce_flight E fs parts log C U (add_mset ?j Q) (s\<lparr>master := r\<rparr>)"
      using F ok(2,3) accounted_send [of "reduce_rpc E (idx2files (master s))" "reduce_files E" U Q s "s\<lparr>master := r\<rparr>", OF _ snt]
      unfolding reduce_flight_def us by (simp add: r a mapped_def)
    then show ?thesis using ph [of "add_mset ?j Q"] reduce_send(2) r a S C rm by (simp add: static_ok_def control_ok_def handshake_def)
  next
    case (reduce_sent i)
    have "reduce_flight E fs parts log C U Q (s\<lparr>master := r\<rparr>)"
      by (rule reduce_flight_frame [OF F]) (use reduce_sent(3) in \<open>simp_all add: reduce_sent(1,2) unsent_parts_def\<close>)
    then show ?thesis using ph [of Q] reduce_sent(1,2) S C rm by (simp add: static_ok_def control_ok_def handshake_def)
  next
    case reduce_notified
    have "reduce_flight E fs parts log C U Q (s\<lparr>master := r\<rparr>)"
      by (rule reduce_flight_frame [OF F]) (simp_all add: reduce_notified(1,2) unsent_parts_def)
    then show ?thesis using ph [of Q] reduce_notified S C rm by (auto simp: static_ok_def control_ok_def handshake_def)
  next
    case reduce_decide
    have full: "num_reduce_msgs (mst (master s)) = m_num_partitions (mst (master s))" using C(1) reduce_decide(2) by (simp add: handshake_def)
    have "int (length (output_files (mst (master s)))) = m_num_partitions (mst (master s))" using F full by (simp add: reduce_flight_def)
    then have sm: "schedule_monitor (mst (master s)) = (mst (master s))\<lparr>reduce_complete := True, num_dropped_workers := 0\<rparr>"
      using C(2,3) reduce_decide(2) clients_okD(6) [OF I(2)] by (simp add: schedule_monitor_def)
    have "reduce_flight E fs parts log C U Q (s\<lparr>master := r\<rparr>)"
      by (rule reduce_flight_frame [OF F]) (simp_all add: reduce_decide sm unsent_parts_def)
    then show ?thesis using ph [of Q] reduce_decide sm full S C rm by (auto simp: static_ok_def control_ok_def handshake_def)
  next
    case (reduce_round complete m)
    have "end_reduce_round (mst (master s)) = (True, (mst (master s))\<lparr>m_partitions := []\<rparr>)"
      using C(3) reduce_round(2) clients_okD(6) [OF I(2)] by (simp add: end_reduce_round_def)
    then have cm: "complete" "m = (mst (master s))\<lparr>m_partitions := []\<rparr>" using reduce_round(3) by simp_all
    have "reduce_flight E fs parts log C U Q (s\<lparr>master := r\<rparr>)"
      by (rule reduce_flight_frame [OF F]) (simp_all add: reduce_round(1,2) cm unsent_parts_def)
    then show ?thesis using ph [of Q] reduce_round(1,2) cm S C rm by (auto simp: static_ok_def control_ok_def handshake_def)
  next
    case finish
    have "int (size C) = n_output_files (mr_spec E)" using C(1) finish(2) S F by (simp add: handshake_def static_ok_def reduce_flight_def)
    moreover have "length parts = card (dom (idx2files (master s)))" using F by (metis reduce_flight_def distinct_card)
    moreover have "dom (idx2files (master s)) = {0..<n_output_files (mr_spec E)}" using mapped_dom [OF fine, of fs] F by (simp add: reduce_flight_def)
    ultimately have "size C = length parts" using n by simp
    note e = reduce_flight_full [OF F this]
    have ds: "distinct (map snd log)" "set (map snd log) = dom (idx2files (master s))"
      using e F mset_eq_imp_distinct_iff [of "map snd log" parts] mset_eq_setD [of "map snd log" parts] by (simp_all add: reduce_flight_def)
    obtain outs where "reduce_jobs E (idx2files (master s)) fs (map snd log) = Inr (outs, shared_disk s)" using F unfolding reduce_flight_def by blast
    moreover have "mapped E fs r" using F by (simp add: reduce_flight_def mapped_def finish(1) delete_intermediate_files_def)
    moreover have fl0: "sent (mst r) = [] \<and> results s = []"
      using e F by (simp add: reduce_flight_def accounted_def finish(1) delete_intermediate_files_def)
    ultimately have "returned_ok E (s\<lparr>master := r, shared_disk := unlink (sorted_list_of_set (m_intermediate_files (mst (master s)))) (shared_disk s)\<rparr>)"
      using ds unfolding returned_ok_def
      by (intro conjI exI [of _ fs] exI [of _ "map snd log"] exI [of _ outs] exI [of _ "shared_disk s"])
        (simp_all add: finish(1) delete_intermediate_files_def)
    then have "phase_ok E (s\<lparr>master := r, shared_disk := unlink (drop (length (removed (mst (master s)))) (removed (mst r))) (shared_disk s)\<rparr>)"
      using rm by (simp add: phase_ok_def finish(1) delete_intermediate_files_def)
    then show ?thesis using finish S C by (auto simp: static_ok_def control_ok_def handshake_def delete_intermediate_files_def)
  qed (use side in auto)
qed


section \<open>Jobs and responses\<close>

lemma phase_cases:
  assumes "phase_ok E s"
  obtains (Map) log C U Q where "map_side (pc (master s))" "pc (master s) \<noteq> Returned" "removed (mst (master s)) = []" "map_flight E log C U Q s"
  | (Reduce) fs parts log C U Q where "\<not> map_side (pc (master s))" "pc (master s) \<noteq> Returned" "removed (mst (master s)) = []"
      "reduce_flight E fs parts log C U Q s"
  | (Done) "pc (master s) = Returned" "returned_ok E s"
proof (cases "pc (master s) = Returned")
  case True
  then show ?thesis using assms that(3) by (simp add: phase_ok_def)
next
  case False
  then show ?thesis using assms that(1,2) unfolding phase_ok_def by (cases "map_side (pc (master s))") auto
qed

lemma map_phase_ok:
  assumes "map_flight E log C U Q s" and "map_side (pc (master s))" and "removed (mst (master s)) = []"
  shows "phase_ok E s"
proof -
  have "\<exists>log C U Q. map_flight E log C U Q s" by (intro exI) (rule assms(1))
  moreover have "pc (master s) \<noteq> Returned" using assms(2) by auto
  ultimately show ?thesis using assms(2,3) by (simp add: phase_ok_def)
qed

lemma distinct_part: "mset xs \<subseteq># mset ys \<Longrightarrow> distinct ys \<Longrightarrow> distinct xs"
  by (metis mset_subset_eq_count distinct_count_atmost_1 le_zero_eq not_one_le_zero count_mset_0_iff le_antisym less_one linorder_not_less)

lemma job_step:
  assumes inv: "sys_inv E s" and fine: "run_correct E P" and shards: "list_all shard_ok (mr_shards E)"
    and c: "c \<in># mset (sent (mst (master s))) - mset (map fst (results s))"
  shows "\<exists>fl fs. execute_call (mr_hash E) (mr_factory E) c (shared_disk s) = Inr (fl, fs) \<and> phase_ok E (s\<lparr>shared_disk := fs, results := results s @ [(c, fl)]\<rparr>)"
  using sys_invD(8) [OF inv]
proof (cases rule: phase_cases)
  case (Map log C U Q)
  note F = Map(4)
  have acc: "accounted (map_rpc E) (map_files E) U Q s" using F by (simp add: map_flight_def)
  obtain j where j: "j \<in># Q" "c = map_rpc E j" using accounted_open [OF acc c] by blast
  then obtain Q' where Q': "Q = add_mset j Q'" by (meson multi_member_split)
  have tot: "image_mset snd (C + U + Q) + mset (unsent (master s)) = mset (mr_shards E)" using F by (simp add: map_flight_def)
  have "mset (map snd (log @ [j])) = add_mset (snd j) (image_mset snd (C + U))" using F by (simp add: map_flight_def)
  also have "\<dots> \<subseteq># mset (mr_shards E)" unfolding tot [symmetric] Q' by simp
  finally have sub: "mset (map snd (log @ [j])) \<subseteq># mset (mr_shards E)" .
  then have "snd j \<in> set (mr_shards E)" using mset_subset_eqD [OF sub, of "snd j"] by simp
  then have sh: "shard_ok (snd j)" using shards by (simp add: list_all_iff)
  obtain N where N: "map_jobs E (at_ports log) = Inr (N, shared_disk s)" using F unfolding map_flight_def by blast
  from map_next [OF fine N sub sh] obtain N' fs where r: "execute_call (mr_hash E) (mr_factory E) c (shared_disk s) = Inr (map_files E j, fs)"
    "map_jobs E (at_ports (log @ [j])) = Inr (N', fs)" unfolding j(2) by blast
  let ?t = "s\<lparr>shared_disk := fs, results := results s @ [(c, map_files E j)]\<rparr>"
  have "accounted (map_rpc E) (map_files E) (add_mset j U) Q' ?t" using accounted_job [OF acc j(1), of ?t] j(2) by (simp add: Q')
  then have "map_flight E (log @ [j]) C (add_mset j U) Q' ?t"
    using F r(2) unfolding map_flight_def by (simp add: Q' at_ports_def)
  then have "phase_ok E ?t" by (rule map_phase_ok) (use Map in simp_all)
  then show ?thesis using r(1) by blast
next
  case (Reduce fs parts log C U Q)
  note F = Reduce(4)
  let ?idx = "idx2files (master s)"
  have acc: "accounted (reduce_rpc E ?idx) (reduce_files E) U Q s" using F by (simp add: reduce_flight_def)
  obtain j where j: "j \<in># Q" "c = reduce_rpc E ?idx j" using accounted_open [OF acc c] by blast
  then obtain Q' where Q': "Q = add_mset j Q'" by (meson multi_member_split)
  have tot: "image_mset snd (C + U + Q) + mset (unsent_parts (master s)) = mset parts" using F by (simp add: reduce_flight_def)
  have "mset (map snd (log @ [j])) = add_mset (snd j) (image_mset snd (C + U))" using F by (simp add: reduce_flight_def)
  also have "\<dots> \<subseteq># mset parts" unfolding tot [symmetric] Q' by simp
  finally have sub: "mset (map snd (log @ [j])) \<subseteq># mset parts" .
  have di: "distinct (map snd (log @ [j]))" "set (map snd (log @ [j])) \<subseteq> dom ?idx"
    using distinct_part [OF sub] set_mset_mono [OF sub] F by (simp_all add: reduce_flight_def)
  obtain outs where outs: "reduce_jobs E ?idx fs (map snd log) = Inr (outs, shared_disk s)" using F unfolding reduce_flight_def by blast
  obtain jobs where jobs: "mset (map snd jobs) = mset (mr_shards E)" "map_jobs E jobs = Inr (m_intermediate_files (mst (master s)), fs)"
    "group_files (m_intermediate_files (mst (master s))) = Inr ?idx" using F unfolding reduce_flight_def mapped_def by blast
  from reduce_next [OF fine jobs outs di] obtain outs' fs' where
    r: "execute_call (mr_hash E) (mr_factory E) c (shared_disk s) = Inr (reduce_files E j, fs')"
      "reduce_jobs E ?idx fs (map snd (log @ [j])) = Inr (outs', fs')" unfolding j(2) by blast
  let ?t = "s\<lparr>shared_disk := fs', results := results s @ [(c, reduce_files E j)]\<rparr>"
  have "accounted (reduce_rpc E ?idx) (reduce_files E) (add_mset j U) Q' ?t" using accounted_job [OF acc j(1), of ?t] j(2) by (simp add: Q')
  then have "reduce_flight E fs parts (log @ [j]) C (add_mset j U) Q' ?t"
    using F r(2) unfolding reduce_flight_def by (simp add: Q')
  then have "phase_ok E ?t" by (rule reduce_phase_ok) (use Reduce in simp_all)
  then show ?thesis using r(1) by blast
next
  case Done
  then show ?thesis using c by (simp add: returned_ok_def)
qed

text \<open>What is known of a result that the master receives.\<close>

lemma result_ok:
  assumes "sys_inv E s" and "(c, fl) \<in> set (results s)"
  shows "worker_ip_addr (call_of c fl) \<in> set (worker_ips (mst (master s)))" and "\<exists>port. answers port c (call_of c fl)"
    and "c \<in> set (sent (mst (master s)))" and "is_map_job (call_of c fl) = map_side (pc (master s))"
proof -
  have "worker_ip_addr (call_of c fl) \<in> set (worker_ips (mst (master s))) \<and> (\<exists>port. answers port c (call_of c fl)) \<and>
    c \<in> set (sent (mst (master s))) \<and> is_map_job (call_of c fl) = map_side (pc (master s))"
    using sys_invD(8) [OF assms(1)]
  proof (cases rule: phase_cases)
    case (Map log C U Q)
    have acc: "accounted (map_rpc E) (map_files E) U Q s" using Map(4) by (simp add: map_flight_def)
    from accounted_result [OF this assms(2)] obtain j where j: "j \<in># U" "c = map_rpc E j" "fl = map_files E j" by blast
    have "c \<in># mset (sent (mst (master s)))" using acc j by (simp add: accounted_def)
    moreover have "fst j \<in> set (worker_ips (mst (master s)))" using Map(4) j(1) by (simp add: map_flight_def)
    ultimately show ?thesis using j Map(1) by (auto simp: call_of_def map_rpc_def map_files_def)
  next
    case (Reduce fs parts log C U Q)
    have acc: "accounted (reduce_rpc E (idx2files (master s))) (reduce_files E) U Q s" using Reduce(4) by (simp add: reduce_flight_def)
    from accounted_result [OF this assms(2)] obtain j where j: "j \<in># U" "c = reduce_rpc E (idx2files (master s)) j" "fl = reduce_files E j" by blast
    have "c \<in># mset (sent (mst (master s)))" using acc j by (simp add: accounted_def)
    moreover have "fst j \<in> set (worker_ips (mst (master s)))" using Reduce(4) j(1) by (simp add: reduce_flight_def)
    ultimately show ?thesis using j Reduce(1) by (auto simp: call_of_def reduce_rpc_def reduce_files_def reduce_query_def)
  next
    case Done
    then show ?thesis using assms(2) by (simp add: returned_ok_def)
  qed
  then show "worker_ip_addr (call_of c fl) \<in> set (worker_ips (mst (master s)))" "\<exists>port. answers port c (call_of c fl)"
    "c \<in> set (sent (mst (master s)))" "is_map_job (call_of c fl) = map_side (pc (master s))" by blast+
qed


text \<open>Steps that keep what the phases count.\<close>

lemma phase_ok_frame:
  assumes "phase_ok E s" and "sent (mst r) = sent (mst (master s))" and "worker_ips (mst r) = worker_ips (mst (master s))" and "pc r = pc (master s)"
    and "m_shards (mst r) = m_shards (mst (master s))" and "m_partitions (mst r) = m_partitions (mst (master s))"
    and "num_map_msgs (mst r) = num_map_msgs (mst (master s))" and "num_reduce_msgs (mst r) = num_reduce_msgs (mst (master s))"
    and "m_intermediate_files (mst r) = m_intermediate_files (mst (master s))" and "output_files (mst r) = output_files (mst (master s))"
    and "idx2files r = idx2files (master s)" and "removed (mst r) = removed (mst (master s))"
  shows "phase_ok E (s\<lparr>master := r\<rparr>)"
  using assms(1)
proof (cases rule: phase_cases)
  case (Map log C U Q)
  have "map_flight E log C U Q (s\<lparr>master := r\<rparr>)"
    by (rule map_flight_frame [OF Map(4)]) (simp_all add: assms unsent_def split: main_pc.splits)
  then show ?thesis by (rule map_phase_ok) (use Map assms in simp_all)
next
  case (Reduce fs parts log C U Q)
  have "reduce_flight E fs parts log C U Q (s\<lparr>master := r\<rparr>)"
    by (rule reduce_flight_frame [OF Reduce(4)]) (use Reduce(4) in \<open>simp_all add: assms unsent_parts_def reduce_flight_def split: main_pc.splits\<close>)
  then show ?thesis by (rule reduce_phase_ok) (use Reduce assms in simp_all)
next
  case Done
  then show ?thesis using assms by (simp add: phase_ok_def returned_ok_def mapped_def)
qed

lemma control_ok_listening:
  assumes "control_ok r" and "listening (polling r)" and "listening (polling r')" and "pc r' = pc r" and "map_reduce_flag r' = map_reduce_flag r"
    and "map_complete (mst r') = map_complete (mst r)" and "reduce_complete (mst r') = reduce_complete (mst r)"
  shows "control_ok r'"
proof -
  have "\<not> 3 \<le> pc_stage (pc r)" "pc_stage (pc r) \<noteq> 2" using assms(1,2) by (auto simp: control_ok_def handshake_def split: if_splits)
  moreover have "listening (polling r) \<longrightarrow> polling r \<noteq> Notified b" for b by auto
  ultimately show ?thesis using assms unfolding control_ok_def handshake_def by (auto split: if_splits)
qed

lemma response_step:
  assumes inv: "sys_inv E s" and p: "polling (master s) = Polling" and res: "(c, fl) \<in> set (results s)"
    and pr: "poll_response (call_of c fl) (mst (master s)) = (b, m)"
  shows "b \<and> static_ok E m \<and> control_ok ((master s)\<lparr>mst := m, polling := Counting c (call_of c fl)\<rparr>) \<and>
    phase_ok E (s\<lparr>master := (master s)\<lparr>mst := m, polling := Counting c (call_of c fl)\<rparr>\<rparr>)"
proof -
  from poll_response_form [OF pr result_ok(1) [OF inv res]] obtain q j where b: b and m: "m = (mst (master s))\<lparr>ready_queue := q, worker2job := j\<rparr>" by blast
  have "static_ok E m" using sys_invD(5) [OF inv] by (simp add: m static_ok_def)
  moreover have "control_ok ((master s)\<lparr>mst := m, polling := Counting c (call_of c fl)\<rparr>)"
    by (rule control_ok_listening [OF sys_invD(6) [OF inv]]) (simp_all add: p m)
  moreover have "phase_ok E (s\<lparr>master := (master s)\<lparr>mst := m, polling := Counting c (call_of c fl)\<rparr>\<rparr>)"
    by (rule phase_ok_frame [OF sys_invD(8) [OF inv]]) (simp_all add: m)
  ultimately show ?thesis using b by blast
qed

lemma counting_form:
  assumes "counting_ok s" and "polling (master s) = Counting c call" and "poll_step (master s) r" and "dropped_worker_ips (mst (master s)) = []"
  obtains fl where "call = call_of c fl" and "(c, fl) \<in> set (results s)"
    and "r = (master s)\<lparr>mst := count_response call ((mst (master s))\<lparr>sent := remove1 c (sent (mst (master s)))\<rparr>), polling := Cleanup\<rparr>"
proof -
  obtain fl where "call = call_of c fl" "(c, fl) \<in> set (results s)" using assms(1,2) unfolding counting_ok_def by blast
  moreover have "r = (master s)\<lparr>mst := count_response call ((mst (master s))\<lparr>sent := remove1 c (sent (mst (master s)))\<rparr>), polling := Cleanup\<rparr>"
    using assms(3) by cases (use assms(2,4) in simp_all)
  ultimately show ?thesis using that by blast
qed

lemma count_step:
  assumes inv: "sys_inv E s" and res: "(c, fl) \<in> set (results s)" and p: "polling (master s) = Counting c (call_of c fl)"
    and r: "r = (master s)\<lparr>mst := count_response (call_of c fl) ((mst (master s))\<lparr>sent := remove1 c (sent (mst (master s)))\<rparr>), polling := Cleanup\<rparr>"
  shows "static_ok E (mst r) \<and> control_ok r \<and> phase_ok E (s\<lparr>master := r, results := remove1 (c, fl) (results s)\<rparr>)"
proof -
  let ?m = "(mst (master s))\<lparr>sent := remove1 c (sent (mst (master s)))\<rparr>"
  note ok = result_ok [OF inv res]
  have "live (mst (master s)) (worker_ip_addr (call_of c fl))" using clients_okD(3) [OF sys_invD(2) [OF inv]] ok(1) by simp
  then have lv: "live ?m (worker_ip_addr (call_of c fl))" by (simp add: live_def)
  have fl: "result_files (call_of c fl) = fl" by (cases c) (simp_all add: call_of_def)
  note S = sys_invD(5) [OF inv]
  have ctl: "control_ok r" if "map_complete (mst r) = map_complete (mst (master s))" "reduce_complete (mst r) = reduce_complete (mst (master s))"
    by (rule control_ok_listening [OF sys_invD(6) [OF inv]]) (use that in \<open>simp_all add: p r\<close>)
  show ?thesis
    using sys_invD(8) [OF inv]
  proof (cases rule: phase_cases)
    case (Map log C U Q)
    note F = Map(4)
    obtain a where a: "count_response (call_of c fl) ?m = ?m\<lparr>num_map_msgs := num_map_msgs ?m + 1, ip_addr2worker := a,
        m_intermediate_files := m_intermediate_files ?m \<union> set fl\<rparr>" using count_response_form(1) [OF lv] ok(4) Map(1) fl by auto
    have R: "mst r = ?m\<lparr>num_map_msgs := num_map_msgs ?m + 1, ip_addr2worker := a, m_intermediate_files := m_intermediate_files ?m \<union> set fl\<rparr>"
      "pc r = pc (master s)" by (simp_all add: r a)
    have acc: "accounted (map_rpc E) (map_files E) U Q s" using F by (simp add: map_flight_def)
    obtain j where j: "j \<in># U" "c = map_rpc E j" "fl = map_files E j" using accounted_result [OF acc res] by blast
    then obtain U' where U': "U = add_mset j U'" by (meson multi_member_split)
    let ?t = "s\<lparr>master := r, results := remove1 (c, fl) (results s)\<rparr>"
    have "sent (mst (master ?t)) = remove1 (map_rpc E j) (sent (mst (master s)))" by (simp add: R j(2) [symmetric])
    moreover have "results ?t = remove1 (map_rpc E j, map_files E j) (results s)" by (simp add: j(2,3))
    ultimately have "accounted (map_rpc E) (map_files E) U' Q ?t" using accounted_count [OF acc j(1), of ?t] by (simp only: U' add_mset_remove_trivial)
    moreover have us: "unsent r = unsent (master s)" by (simp add: unsent_def R split: main_pc.splits)
    ultimately have "map_flight E log (add_mset j C) U' Q ?t"
      using F j(3) us unfolding map_flight_def by (auto simp: U' R)
    then have "phase_ok E ?t" by (rule map_phase_ok) (use Map in \<open>simp_all add: R\<close>)
    then show ?thesis using S ctl by (simp add: R static_ok_def)
  next
    case (Reduce fs parts log C U Q)
    note F = Reduce(4)
    obtain a where a: "count_response (call_of c fl) ?m = ?m\<lparr>num_reduce_msgs := num_reduce_msgs ?m + 1, ip_addr2worker := a,
        output_files := output_files ?m @ fl\<rparr>" using count_response_form(2) [OF lv] ok(4) Reduce(1) fl by auto
    have R: "mst r = ?m\<lparr>num_reduce_msgs := num_reduce_msgs ?m + 1, ip_addr2worker := a, output_files := output_files ?m @ fl\<rparr>"
      "pc r = pc (master s)" "idx2files r = idx2files (master s)" by (simp_all add: r a)
    have acc: "accounted (reduce_rpc E (idx2files (master s))) (reduce_files E) U Q s" using F by (simp add: reduce_flight_def)
    obtain j where j: "j \<in># U" "c = reduce_rpc E (idx2files (master s)) j" "fl = reduce_files E j" using accounted_result [OF acc res] by blast
    then obtain U' where U': "U = add_mset j U'" by (meson multi_member_split)
    let ?t = "s\<lparr>master := r, results := remove1 (c, fl) (results s)\<rparr>"
    have "sent (mst (master ?t)) = remove1 (reduce_rpc E (idx2files (master s)) j) (sent (mst (master s)))" by (simp add: R j(2) [symmetric])
    moreover have "results ?t = remove1 (reduce_rpc E (idx2files (master s)) j, reduce_files E j) (results s)" by (simp add: j(2,3))
    ultimately have "accounted (reduce_rpc E (idx2files (master s))) (reduce_files E) U' Q ?t"
      using accounted_count [OF acc j(1), of ?t] by (simp only: U' add_mset_remove_trivial)
    moreover have us: "unsent_parts r = unsent_parts (master s)" by (simp add: unsent_parts_def R split: main_pc.splits)
    ultimately have "reduce_flight E fs parts log (add_mset j C) U' Q ?t"
      using F j(3) us unfolding reduce_flight_def by (simp add: U' R mapped_def reduce_files_def)
    then have "phase_ok E ?t" by (rule reduce_phase_ok) (use Reduce in \<open>simp_all add: R\<close>)
    then show ?thesis using S ctl by (simp add: R static_ok_def)
  next
    case Done
    then show ?thesis using res by (simp add: returned_ok_def)
  qed
qed

text \<open>The thread that polls notifies the main thread only when the phase is complete.\<close>

lemma notify_full:
  assumes "sys_inv E s" and "pc_stage (pc (master s)) < 3" and "0 < n_output_files (mr_spec E)"
  shows "notify_master (mst (master s)) \<longleftrightarrow> (if map_side (pc (master s)) then num_map_msgs (mst (master s)) = num_shards (mst (master s))
    else num_reduce_msgs (mst (master s)) = m_num_partitions (mst (master s)))"
proof (cases "map_side (pc (master s))")
  case True
  have "num_reduce_msgs (mst (master s)) = 0" using sys_invD(8) [OF assms(1)] True
    by (cases rule: phase_cases) (auto simp: map_flight_def)
  then show ?thesis using True assms sys_invD(5,6) [OF assms(1)] by (simp add: notify_master_def static_ok_def control_ok_def)
next
  case False
  then show ?thesis using assms(2) sys_invD(5,6) [OF assms(1)] by (simp add: notify_master_def static_ok_def control_ok_def)
qed

lemma poll_control_step:
  assumes inv: "sys_inv E s" and p: "polling (master s) = Cleanup \<or> polling (master s) = Notified is_map" and st: "poll_step (master s) r"
    and n: "0 < n_output_files (mr_spec E)"
  shows "mst r = mst (master s) \<and> pc r = pc (master s) \<and> idx2files r = idx2files (master s) \<and> control_ok r \<and> (\<forall>c call. polling r \<noteq> Counting c call)"
  using st
proof cases
  case (poll_cleanup f q)
  note C = sys_invD(6) [OF inv]
  have stage: "pc_stage (pc (master s)) < 3" "pc_stage (pc (master s)) \<noteq> 2"
    using C poll_cleanup(2) by (auto simp: control_ok_def handshake_def split: if_splits)
  note nf = notify_full [OF inv stage(1) n]
  show ?thesis
  proof (cases "map_reduce_flag (master s) \<and> notify_master (mst (master s))")
    case True
    then have "f = False" "q = Notified (\<not> map_complete (mst (master s)))" using poll_cleanup(3) by (simp_all add: poll_cleanup_def)
    moreover have "pc_stage (pc (master s)) = 1" using True stage C by (auto simp: control_ok_def handshake_def split: if_splits)
    ultimately show ?thesis using poll_cleanup(1) C True nf stage by (auto simp: control_ok_def handshake_def split: if_splits)
  next
    case False
    have "\<not> reduce_complete (mst (master s))" using C stage(1) by (auto simp: control_ok_def split: if_splits)
    then have fq: "f = map_reduce_flag (master s)" "q = Polling" using poll_cleanup(3) False by (auto simp: poll_cleanup_def split: if_splits)
    have "control_ok r" by (rule control_ok_listening [OF C]) (simp_all add: poll_cleanup(1,2) fq)
    then show ?thesis using poll_cleanup(1) fq by simp
  qed
next
  case (poll_resume is_map')
  note C = sys_invD(6) [OF inv]
  have stage: "3 \<le> pc_stage (pc (master s))" "is_map' = map_side (pc (master s))"
    using C poll_resume(2,3) by (auto simp: control_ok_def handshake_def split: if_splits)
  then have "poll_resume is_map' (mst (master s)) = PollReturned" using C by (auto simp: control_ok_def poll_resume_def split: if_splits)
  then show ?thesis using poll_resume(1) C stage(1) by (auto simp: control_ok_def handshake_def split: if_splits)
qed (use p in auto)


section \<open>The invariant holds in every reachable state\<close>

abbreviation sys_start :: "mr_run \<Rightarrow> system \<Rightarrow> bool" where
  "sys_start E \<equiv> sys_init (mr_spec E) (mr_shards E) (mr_disk E)"

abbreviation sys_run :: "mr_run \<Rightarrow> system \<Rightarrow> system \<Rightarrow> bool" where
  "sys_run E \<equiv> sys_step (mr_hash E) (mr_factory E)"

definition run_usable :: "mr_run \<Rightarrow> bool" where
  "run_usable E \<longleftrightarrow> spec_usable (mr_spec E) (mr_shards E) \<and> 0 < n_output_files (mr_spec E) \<and> (\<exists>P. run_correct E P)"

lemma sys_inv_init:
  assumes "run_usable E" and "sys_start E s"
  shows "sys_inv E s"
proof -
  note u = assms(1) [unfolded run_usable_def spec_usable_def]
  have "run_inv (mr_shards E) (master s)" using run_inv_init [of "mr_spec E" "mr_shards E" "master s"] u assms(2) by (simp add: sys_init_def)
  moreover obtain m where m: "new_Master (mr_spec E) (mr_shards E) = Inr m" "master s = \<lparr>mst = m, pc = Starting, polling = Polling,
      map_reduce_flag = False, idx2files = Map.empty, map_errors = 0, resent = False, stopped = None\<rparr>"
    using assms(2) by (auto simp: sys_init_def run_init_def)
  have mf: "m_user_id m = user_id (mr_spec E)" "m_output_dir m = output_dir (mr_spec E)" "m_num_partitions m = n_output_files (mr_spec E)"
    "num_shards m = int (length (mr_shards E))" "dropped_worker_ips m = []" "num_dropped_workers m = 0" "num_dropped_map_jobs m = 0"
    "num_dropped_reduce_jobs m = 0" "unfinished_shards m = []" "m_shards m = mr_shards E" "sent m = []" "num_map_msgs m = 0" "num_reduce_msgs m = 0"
    "m_intermediate_files m = {}" "output_files m = []" "removed m = []" "\<not> map_complete m" "\<not> reduce_complete m"
    using m(1) foldm_add_worker [of "length (worker_ipaddr_ports (mr_spec E))" "worker_ipaddr_ports (mr_spec E)"] u
    by (auto simp: new_Master_def fold_add_worker)
  have "map_flight E [] {#} {#} {#} s"
    using assms(2) by (simp add: map_flight_def accounted_def m(2) mf sys_init_def unsent_def at_ports_def map_phase_def)
  then have "phase_ok E s" by (rule map_phase_ok) (simp_all add: m(2) mf)
  ultimately show ?thesis using assms(2)
    by (simp add: sys_inv_def m(2) mf static_ok_def control_ok_def handshake_def counting_ok_def sys_init_def)
qed

lemma sys_inv_step:
  assumes "run_usable E" and inv: "sys_inv E s" and "sys_run E s t"
  shows "sys_inv E t"
proof -
  obtain P where fine: "run_correct E P" using assms(1) unfolding run_usable_def by blast
  have n: "0 < n_output_files (mr_spec E)" and sh: "list_all shard_ok (mr_shards E)" using assms(1) by (simp_all add: run_usable_def spec_usable_def)
  note I = sys_invD [OF inv]
  show ?thesis
    using assms(3)
  proof cases
    case (sys_main r)
    have c: "counting_ok t" if "polling r = polling (master s) \<or> polling r = Polling"
      using I(7) that unfolding sys_main(1) counting_ok_def by auto
    have "static_ok E (mst r) \<and> control_ok r \<and> counting_ok t \<and> phase_ok E t"
    proof (cases "map_side (pc (master s))")
      case True
      from map_side_step [OF inv sys_main(2) True] show ?thesis using c by (simp add: sys_main(1))
    next
      case False
      from reduce_side_step [OF inv sys_main(2) False fine n] show ?thesis using c by (simp add: sys_main(1))
    qed
    then show ?thesis using main_keeps_running [OF inv sys_main(2)] I(4) by (simp add: sys_inv_def sys_main(1))
  next
    case (sys_job c fl fs)
    have "phase_ok E t" using job_step [OF inv fine sh sys_job(2)] sys_job(1,3) by simp
    moreover have "counting_ok t" using I(7) unfolding sys_job(1) counting_ok_def by fastforce
    ultimately show ?thesis using I by (simp add: sys_inv_def sys_job(1))
  next
    case (sys_job_fault c e)
    then show ?thesis using job_step [OF inv fine sh sys_job_fault(2)] by simp
  next
    case (sys_response c fl b m)
    let ?r = "(master s)\<lparr>mst := m, polling := Counting c (call_of c fl)\<rparr>"
    note resp = response_step [OF inv sys_response(2-4)]
    then have t: "t = s\<lparr>master := ?r\<rparr>" using sys_response(1) by simp
    obtain port where a: "answers port c (call_of c fl)" using result_ok(2) [OF inv sys_response(3)] by blast
    have e: "status_ok (call_of c fl)" by (cases c) (simp_all add: call_of_def)
    have "poll_step (master s) ?r"
      using poll_step.poll_response [OF sys_response(2) result_ok(3) [OF inv sys_response(3)] a sys_response(4)] resp e by simp
    then have "run_inv (mr_shards E) ?r" using poll_step_inv I(1,3) by blast
    moreover have "counting_ok t" using sys_response(3) by (auto simp: t counting_ok_def)
    ultimately show ?thesis using resp I(3,4) by (simp add: sys_inv_def t)
  next
    case (sys_count c call r)
    have no_drop: "dropped_worker_ips (mst (master s)) = []" using I(5) by (simp add: static_ok_def)
    obtain fl where fl: "call = call_of c fl" "(c, fl) \<in> set (results s)"
      and r: "r = (master s)\<lparr>mst := count_response call ((mst (master s))\<lparr>sent := remove1 c (sent (mst (master s)))\<rparr>), polling := Cleanup\<rparr>"
      by (rule counting_form [OF I(7) sys_count(2,3) no_drop])
    have rf: "result_files call = fl" unfolding fl(1) by (cases c) (simp_all add: call_of_def)
    have "static_ok E (mst r) \<and> control_ok r \<and> phase_ok E t"
      using count_step [OF inv fl(2) sys_count(2) [unfolded fl(1)] r [unfolded fl(1)]] by (simp add: sys_count(1) rf)
    moreover have "run_inv (mr_shards E) r" using poll_step_inv [OF sys_count(3) I(1,3)] .
    moreover have "counting_ok t" by (simp add: sys_count(1) r counting_ok_def)
    ultimately show ?thesis using I(3,4) by (simp add: sys_inv_def sys_count(1) r)
  next
    case (sys_poll is_map r)
    note pc = poll_control_step [OF inv sys_poll(2,3) n]
    have "phase_ok E t" unfolding sys_poll(1) by (rule phase_ok_frame [OF I(8)]) (simp_all add: pc)
    moreover have "run_inv (mr_shards E) r" using poll_step_inv [OF sys_poll(3) I(1,3)] .
    moreover have "stopped r = None" using run_inv_running [OF calculation(2)] I(5) pc by simp
    ultimately show ?thesis using pc I by (simp add: sys_inv_def sys_poll(1) counting_ok_def)
  qed
qed

interpretation system_inv: inductive_invariant "\<lambda>s. run_usable E \<and> sys_start E s" "sys_run E" "\<lambda>s. run_usable E \<and> sys_inv E s" for E
  by unfold_locales (auto intro: sys_inv_init sys_inv_step)

lemma reachable_from: "reachable start step s \<Longrightarrow> (\<And>s. start s \<Longrightarrow> start' s) \<Longrightarrow> reachable start' step s"
  by (induction rule: reachable.induct) (auto intro: reachable.intros)

lemma sys_reachable_inv:
  assumes "run_usable E" and "reachable (sys_start E) (sys_run E) s"
  shows "sys_inv E s"
  using system_inv.inv_reachable [OF reachable_from [OF assms(2)]] assms(1) by blast

text \<open>What the disk holds when \<open>run\<close> has returned.\<close>

lemma unlink_other: "f \<notin> set fl \<Longrightarrow> file_text (unlink fl fs) f = file_text fs f"
  by (simp add: unlink_def)

lemma sys_result:
  assumes "run_correct E P" and "sys_inv E s" and "pc (master s) = Returned" and "disk_ok (output_dir (mr_spec E)) (mr_disk E)"
    and "i \<in> {0..<n_output_files (mr_spec E)}"
  shows "P i (file_text (shared_disk s) (output_name (output_dir (mr_spec E)) i))"
proof -
  let ?idx = "idx2files (master s)" and ?names = "m_intermediate_files (mst (master s))"
  have "returned_ok E s" using sys_invD(8) [OF assms(2)] assms(3) by (simp add: phase_ok_def)
  then obtain fs parts outs fs2 where R: "mapped E fs (master s)" "distinct parts" "set parts = dom ?idx"
    "reduce_jobs E ?idx fs parts = Inr (outs, fs2)" "shared_disk s = unlink (sorted_list_of_set ?names) fs2" unfolding returned_ok_def by blast
  obtain jobs where jobs: "mset (map snd jobs) = mset (mr_shards E)" "map_jobs E jobs = Inr (?names, fs)" "group_files ?names = Inr ?idx"
    using R(1) unfolding mapped_def by blast
  obtain outs' fs' where "reduce_jobs E ?idx fs parts = Inr (outs', fs')" "\<forall>i\<in>dom ?idx. P i (file_text fs' (output_name (output_dir (mr_spec E)) i))"
    using assms(1) jobs R(2,3) unfolding run_correct_def by (metis Inr_inject Pair_inject)
  then have P: "P i (file_text fs2 (output_name (output_dir (mr_spec E)) i))" using R(4) mapped_dom [OF assms(1) R(1)] assms(5) by simp
  have "?names = phase_names (n_output_files (mr_spec E)) jobs" using map_phase_names [OF jobs(2)] by simp
  then have "finite ?names" "\<forall>f\<in>?names. is_intermediate f"
    using phase_names_finite by (auto simp: phase_names_def dest: job_names_are)
  then have "output_name (output_dir (mr_spec E)) i \<notin> set (sorted_list_of_set ?names)" using assms(4) by (auto simp: disk_ok_def)
  then show ?thesis using P R(5) unlink_other by simp
qed

end
