(* ===== verification/MapReduceProgress.thy ===== *)
theory MapReduceProgress
  imports MapReduceSystem
begin

text \<open>
  When the system of \<open>MapReduceSystem\<close> can finish. Every worker is ready, is being sent a job or has one (\<open>workers_ok\<close>), so
  there is a next step that decreases \<open>rank\<close>, unless the main thread waits for a notification that has been
  missed. The last section states what that means for word count.
\<close>

section \<open>Workers that are ready\<close>

definition rpc_ip :: "rpc \<Rightarrow> string" where
  "rpc_ip c = (case c of MapRpc ip q \<Rightarrow> ip | ReduceRpc ip q \<Rightarrow> ip)"

fun sending :: "main_pc \<Rightarrow> string multiset" where
  "sending (MapSend i ip) = {#ip#}" | "sending (ReduceSend i ip) = {#ip#}" | "sending _ = {#}"

fun answering :: "poll_pc \<Rightarrow> string multiset" where
  "answering (Counting c call) = {#rpc_ip c#}" | "answering _ = {#}"

text \<open>Every worker is ready, or is being sent a job, or has one.\<close>

definition workers_ok :: "run_state \<Rightarrow> bool" where
  "workers_ok r \<longleftrightarrow> worker_ips (mst r) \<noteq> [] \<and>
     mset (ready_queue (mst r)) + image_mset rpc_ip (mset (sent (mst r))) + sending (pc r) = mset (worker_ips (mst r)) + answering (polling r)"

lemma workers_ok_frame:
  "workers_ok r \<Longrightarrow> worker_ips (mst r') = worker_ips (mst r) \<Longrightarrow> ready_queue (mst r') = ready_queue (mst r) \<Longrightarrow> sent (mst r') = sent (mst r) \<Longrightarrow>
   sending (pc r') = sending (pc r) \<Longrightarrow> answering (polling r') = answering (polling r) \<Longrightarrow> workers_ok r'"
  by (simp add: workers_ok_def)

lemma take_ready_some:
  assumes "ready_queue m \<noteq> []" and "dropped_worker_ips m = []" and "take_ready k m = (w, m')"
  shows "\<exists>ip rest. ready_queue m = ip # rest \<and> w = Some ip \<and> m' = m\<lparr>ready_queue := rest, worker2job := (worker2job m)(ip \<mapsto> k)\<rparr>"
  using assms by (cases "ready_queue m") (auto simp: take_ready_def Let_def)

lemma send_effect:
  shows "send_mapper_job ip sh m = Inr m' \<Longrightarrow> ready_queue m' = ready_queue m \<and> (\<exists>q. sent m' = sent m @ [MapRpc ip q])"
    and "send_reducer_job ip p fl m = Inr m' \<Longrightarrow> ready_queue m' = ready_queue m \<and> (\<exists>q. sent m' = sent m @ [ReduceRpc ip q])"
  by (auto simp: send_mapper_job_def send_reducer_job_def client_at_def bnd_eq_Inr split: option.splits)

lemma workers_ok_main:
  assumes "run_main_step r r'" and "workers_ok r" and "dropped_worker_ips (mst r) = []"
  shows "workers_ok r'"
proof -
  note w = same_workers_main [OF assms(1), unfolded same_workers_def]
  show ?thesis
    using assms(1)
  proof cases
    case (map_take i w m)
    obtain ip rest where "ready_queue (mst r) = ip # rest" "w = Some ip" "m = (mst r)\<lparr>ready_queue := rest, worker2job := (worker2job (mst r))(ip \<mapsto> int i)\<rparr>"
      using take_ready_some [OF map_take(4) assms(3) map_take(5)] by blast
    then show ?thesis using map_take(1,2) assms(2) by (simp add: workers_ok_def)
  next
    case (reduce_take i w m)
    obtain ip rest where "ready_queue (mst r) = ip # rest" "w = Some ip"
      "m = (mst r)\<lparr>ready_queue := rest, worker2job := (worker2job (mst r))(ip \<mapsto> m_partitions (mst r) ! i)\<rparr>"
      using take_ready_some [OF reduce_take(4) assms(3) reduce_take(5)] by blast
    then show ?thesis using reduce_take(1,2) assms(2) by (simp add: workers_ok_def)
  next
    case (map_send i ip)
    show ?thesis
    proof (cases "send_mapper_job ip (m_shards (mst r) ! i) (mst r)")
      case (Inr m')
      then have "r' = r\<lparr>mst := m', pc := Mapping (Suc i)\<rparr>" using map_send(1) by (simp add: goes_to_def)
      then show ?thesis using send_effect(1) [OF Inr] w map_send(2) assms(2) by (auto simp: workers_ok_def rpc_ip_def)
    qed (use map_send assms(2) in \<open>simp add: goes_to_def workers_ok_def\<close>)
  next
    case (reduce_send i ip p fl)
    show ?thesis
    proof (cases "send_reducer_job ip p fl (mst r)")
      case (Inr m')
      then have "r' = r\<lparr>mst := m', pc := Reducing (Suc i)\<rparr>" using reduce_send(1) by (simp add: goes_to_def)
      then show ?thesis using send_effect(2) [OF Inr] w reduce_send(2) assms(2) by (auto simp: workers_ok_def rpc_ip_def)
    qed (use reduce_send assms(2) in \<open>simp add: goes_to_def workers_ok_def\<close>)
  qed (use assms(2) in \<open>auto intro!: workers_ok_frame [of r] simp: schedule_monitor_def end_map_round_def end_reduce_round_def
      delete_intermediate_files_def Let_def split: if_splits\<close>)
qed

lemma call_of_simps: "worker_ip_addr (call_of c fl) = rpc_ip c" "result_files (call_of c fl) = fl" "status_ok (call_of c fl)"
  by (cases c; simp add: call_of_def rpc_ip_def)+

lemma workers_ok_step:
  assumes "run_usable E" and inv: "sys_inv E s" and "sys_run E s t" and w: "workers_ok (master s)"
  shows "workers_ok (master t)"
  using assms(3)
proof cases
  case (sys_main r)
  then show ?thesis using workers_ok_main [OF sys_main(2) w] sys_invD(5) [OF inv] by (simp add: static_ok_def)
next
  case (sys_response c fl b m)
  have "b" "m = (mst (master s))\<lparr>ready_queue := ready_queue (mst (master s)) @ [rpc_ip c], worker2job := (worker2job (mst (master s)))(rpc_ip c := None)\<rparr>"
    using sys_response(4) result_ok(1) [OF inv sys_response(3)] by (auto simp: poll_response_def call_of_simps)
  then show ?thesis using w sys_response(1,2) by (simp add: workers_ok_def)
next
  case (sys_count c call r)
  obtain fl where fl: "call = call_of c fl" "(c, fl) \<in> set (results s)"
    and r: "r = (master s)\<lparr>mst := count_response call ((mst (master s))\<lparr>sent := remove1 c (sent (mst (master s)))\<rparr>), polling := Cleanup\<rparr>"
    by (rule counting_form [OF sys_invD(7) [OF inv] sys_count(2,3)]) (use sys_invD(5) [OF inv] in \<open>simp add: static_ok_def\<close>)
  obtain S where S: "mset (sent (mst (master s))) = add_mset c S" using result_ok(3) [OF inv fl(2)] by (metis mset_add set_mset_mset)
  have "ready_queue (count_response call m) = ready_queue m \<and> sent (count_response call m) = sent m \<and> worker_ips (count_response call m) = worker_ips m" for m
    by (auto simp: count_response_def client_at_def split: option.splits)
  then show ?thesis using w sys_count(1,2) by (simp add: workers_ok_def r S)
next
  case (sys_poll is_map r)
  have "0 < n_output_files (mr_spec E)" using assms(1) by (simp add: run_usable_def)
  note c = poll_control_step [OF inv sys_poll(2,3) this]
  have "answering (polling r) = {#}" using c by (cases "polling r") auto
  then show ?thesis using w sys_poll(1,2) c by (auto simp: workers_ok_def)
qed (use w in simp_all)

lemma workers_ok_init:
  assumes "run_usable E" and "worker_ipaddr_ports (mr_spec E) \<noteq> []" and "sys_start E s"
  shows "workers_ok (master s)"
proof -
  note u = assms(1) [unfolded run_usable_def spec_usable_def]
  obtain m where m: "new_Master (mr_spec E) (mr_shards E) = Inr m" "mst (master s) = m" "pc (master s) = Starting" "polling (master s) = Polling"
    using assms(3) by (auto simp: sys_init_def run_init_def)
  have "worker_ips m = worker_ipaddr_ports (mr_spec E)" "ready_queue m = worker_ipaddr_ports (mr_spec E)" "sent m = []"
    using m(1) foldm_add_worker [of "length (worker_ipaddr_ports (mr_spec E))" "worker_ipaddr_ports (mr_spec E)"] u
    by (auto simp: new_Master_def fold_add_worker)
  then show ?thesis using assms(2) m by (simp add: workers_ok_def)
qed


section \<open>Progress\<close>

definition all_counted :: "run_state \<Rightarrow> bool" where
  "all_counted r \<longleftrightarrow> (if map_side (pc r) then num_map_msgs (mst r) = num_shards (mst r) else num_reduce_msgs (mst r) = m_num_partitions (mst r))"

text \<open>
  The last response of the phase has been processed before the main thread has set its flag, so nobody will notify it:
  see \<open>late_wait_hangs\<close>.
\<close>

definition missed :: "run_state \<Rightarrow> bool" where
  "missed r \<longleftrightarrow> pc_stage (pc r) \<le> 1 \<and> polling r = Polling \<and> all_counted r"

fun main_rank :: "nat \<Rightarrow> main_pc \<Rightarrow> nat" where
  "main_rank n Starting = 10 * n + 26" | "main_rank n (Mapping i) = 10 * n + 25" | "main_rank n (MapSend i ip) = 10 * n + 24"
| "main_rank n MapWait = 10 * n + 23" | "main_rank n MapMonitor = 10 * n + 22" | "main_rank n MapDecided = 10 * n + 21"
| "main_rank n MapJoin = 10 * n + 20" | "main_rank n (Reducing i) = 6" | "main_rank n (ReduceSend i ip) = 5" | "main_rank n ReduceWait = 4"
| "main_rank n ReduceMonitor = 3" | "main_rank n ReduceDecided = 2" | "main_rank n ReduceJoin = 1" | "main_rank n Returned = 0"

fun poll_rank :: "poll_pc \<Rightarrow> nat" where
  "poll_rank Polling = 4" | "poll_rank (Counting c call) = 3" | "poll_rank Cleanup = 5" | "poll_rank (Notified b) = 2" | "poll_rank PollReturned = 1"

definition rank :: "mr_run \<Rightarrow> system \<Rightarrow> nat" where
  "rank E s = main_rank (nat (n_output_files (mr_spec E))) (pc (master s)) + poll_rank (polling (master s)) +
     10 * (length (unsent (master s)) + length (unsent_parts (master s))) +
     5 * length (sent (mst (master s))) + (length (sent (mst (master s))) - length (results s))"

lemma length_remove1_Suc: "x \<in> set xs \<Longrightarrow> \<exists>k. length xs = Suc k \<and> length (remove1 x xs) = k"
  by (induction xs) auto

lemma unsent_same:
  assumes "pc r' = pc r" and "m_shards (mst r') = m_shards (mst r)" and "m_partitions (mst r') = m_partitions (mst r)"
  shows "unsent r' = unsent r" and "unsent_parts r' = unsent_parts r"
  using assms by (simp_all add: unsent_def unsent_parts_def split: main_pc.splits)

lemma in_flight:
  assumes "run_correct E P" and inv: "sys_inv E s" and "pc (master s) \<noteq> Returned" and n: "0 < n_output_files (mr_spec E)"
  shows "length (results s) \<le> length (sent (mst (master s)))"
    and "all_counted (master s) \<Longrightarrow> unsent (master s) = [] \<and> unsent_parts (master s) = [] \<and> sent (mst (master s)) = []"
    and "\<not> all_counted (master s) \<Longrightarrow> unsent (master s) = [] \<Longrightarrow> unsent_parts (master s) = [] \<Longrightarrow> sent (mst (master s)) \<noteq> []"
proof -
  note S = sys_invD(5) [OF inv]
  have "length (results s) \<le> length (sent (mst (master s))) \<and>
    (all_counted (master s) \<longrightarrow> unsent (master s) = [] \<and> unsent_parts (master s) = [] \<and> sent (mst (master s)) = []) \<and>
    (\<not> all_counted (master s) \<longrightarrow> unsent (master s) = [] \<longrightarrow> unsent_parts (master s) = [] \<longrightarrow> sent (mst (master s)) \<noteq> [])"
    using sys_invD(8) [OF inv]
  proof (cases rule: phase_cases)
    case (Map log C U Q)
    note F = Map(4)
    have "size (image_mset snd (C + U + Q) + mset (unsent (master s))) = size (mset (mr_shards E))"
      using F unfolding map_flight_def by presburger
    then have a: "size C + size U + size Q + length (unsent (master s)) = length (mr_shards E)" by simp
    have "size (mset (sent (mst (master s)))) = size (image_mset (map_rpc E) (U + Q))" "size (mset (results s)) = size (image_mset (\<lambda>j. (map_rpc E j, map_files E j)) U)"
      using F unfolding map_flight_def accounted_def by presburger+
    then have b: "length (sent (mst (master s))) = size U + size Q" "length (results s) = size U" by simp_all
    have c: "all_counted (master s) \<longleftrightarrow> size C = length (mr_shards E)"
      using Map(1) S F by (simp add: all_counted_def static_ok_def map_flight_def)
    have "unsent_parts (master s) = []" using Map(1) by (cases "pc (master s)") (simp_all add: unsent_parts_def)
    then show ?thesis using a b unfolding c by auto
  next
    case (Reduce fs parts log C U Q)
    note F = Reduce(4)
    have "size (image_mset snd (C + U + Q) + mset (unsent_parts (master s))) = size (mset parts)"
      using F unfolding reduce_flight_def by presburger
    then have a: "size C + size U + size Q + length (unsent_parts (master s)) = length parts" by simp
    have "size (mset (sent (mst (master s)))) = size (image_mset (reduce_rpc E (idx2files (master s))) (U + Q))"
      "size (mset (results s)) = size (image_mset (\<lambda>j. (reduce_rpc E (idx2files (master s)) j, reduce_files E j)) U)"
      using F unfolding reduce_flight_def accounted_def by presburger+
    then have b: "length (sent (mst (master s))) = size U + size Q" "length (results s) = size U" by simp_all
    have "length parts = card (dom (idx2files (master s)))" using F by (metis reduce_flight_def distinct_card)
    moreover have "mapped E fs (master s)" using F by (simp add: reduce_flight_def)
    then have "dom (idx2files (master s)) = {0..<n_output_files (mr_spec E)}" by (rule mapped_dom [OF assms(1)])
    ultimately have "int (length parts) = n_output_files (mr_spec E)" using n by simp
    then have c: "all_counted (master s) \<longleftrightarrow> size C = length parts"
      using Reduce(1) S F by (auto simp: all_counted_def static_ok_def reduce_flight_def)
    have "unsent (master s) = []" using Reduce(1) by (cases "pc (master s)") (simp_all add: unsent_def)
    then show ?thesis using a b unfolding c by auto
  next
    case Done
    then show ?thesis using assms(3) by simp
  qed
  then show "length (results s) \<le> length (sent (mst (master s)))"
    "all_counted (master s) \<Longrightarrow> unsent (master s) = [] \<and> unsent_parts (master s) = [] \<and> sent (mst (master s)) = []"
    "\<not> all_counted (master s) \<Longrightarrow> unsent (master s) = [] \<Longrightarrow> unsent_parts (master s) = [] \<Longrightarrow> sent (mst (master s)) \<noteq> []" by blast+
qed

definition better :: "mr_run \<Rightarrow> system \<Rightarrow> bool" where
  "better E s \<longleftrightarrow> (\<exists>t. sys_run E s t \<and> rank E t < rank E s \<and> \<not> missed (master t))"

text \<open>A worker executes a job, or the thread that polls goes on, while it does not wait for the main thread.\<close>

lemma better_polling:
  assumes usable: "run_usable E" and inv: "sys_inv E s" and p: "polling (master s) = Polling" and sent: "sent (mst (master s)) \<noteq> []"
    and miss: "\<not> missed (master s)"
  shows "better E s"
proof -
  note I = sys_invD [OF inv]
  obtain P where fine: "run_correct E P" and sh: "list_all shard_ok (mr_shards E)"
    using usable by (auto simp: run_usable_def spec_usable_def)
  show ?thesis
  proof (cases "results s")
    case Nil
    have c: "hd (sent (mst (master s))) \<in># mset (sent (mst (master s))) - mset (map fst (results s))" using sent Nil by simp
    from job_step [OF inv fine sh c] obtain fl fs where "execute_call (mr_hash E) (mr_factory E) (hd (sent (mst (master s)))) (shared_disk s) = Inr (fl, fs)"
      by blast
    then have "sys_run E s (s\<lparr>shared_disk := fs, results := results s @ [(hd (sent (mst (master s))), fl)]\<rparr>)" using sys_job [OF c _ I(3,4)] by simp
    then show ?thesis unfolding better_def using miss sent Nil
      by (intro exI [of _ "s\<lparr>shared_disk := fs, results := results s @ [(hd (sent (mst (master s))), fl)]\<rparr>"]) (simp add: rank_def)
  next
    case (Cons cf rest)
    obtain c fl where cf: "(c, fl) \<in> set (results s)" using Cons by (cases cf) auto
    obtain b m where pr: "poll_response (call_of c fl) (mst (master s)) = (b, m)" by fastforce
    from poll_response_form [OF pr result_ok(1) [OF inv cf]] obtain q j where b: b and m: "m = (mst (master s))\<lparr>ready_queue := q, worker2job := j\<rparr>" by blast
    let ?t = "s\<lparr>master := (master s)\<lparr>mst := m, polling := Counting c (call_of c fl)\<rparr>\<rparr>"
    have "sys_run E s ?t" using sys_response [OF p cf pr I(3,4)] b by simp
    moreover have "rank E ?t < rank E s" using unsent_same [of "master ?t" "master s"] by (simp add: rank_def m p)
    ultimately show ?thesis unfolding better_def by (intro exI [of _ ?t]) (simp add: missed_def)
  qed
qed

lemma better_listening:
  assumes usable: "run_usable E" and inv: "sys_inv E s" and np: "listening (polling (master s))" "polling (master s) \<noteq> Polling"
    and fl0: "all_counted (master s) \<longrightarrow> map_reduce_flag (master s)"
  shows "better E s"
proof -
  note I = sys_invD [OF inv]
  obtain P where fine: "run_correct E P" and n: "0 < n_output_files (mr_spec E)" using usable by (auto simp: run_usable_def)
  consider (counting) c call where "polling (master s) = Counting c call" | (cleanup) "polling (master s) = Cleanup"
    using np by (cases "polling (master s)") auto
  then show ?thesis
  proof cases
    case (counting c call)
    obtain fl where fl: "call = call_of c fl" "(c, fl) \<in> set (results s)" using I(7) counting unfolding counting_ok_def by blast
    let ?m = "(mst (master s))\<lparr>sent := remove1 c (sent (mst (master s)))\<rparr>"
    let ?r = "(master s)\<lparr>mst := count_response call ?m, polling := Cleanup\<rparr>"
    have "poll_step (master s) ?r" using poll_step.poll_count [OF counting] .
    from sys_count [OF counting this I(3,4)]
    have st: "sys_run E s (s\<lparr>master := ?r, results := remove1 (c, fl) (results s)\<rparr>)" by (simp add: fl(1) call_of_simps)
    have "m_shards (count_response call m) = m_shards m \<and> m_partitions (count_response call m) = m_partitions m \<and> sent (count_response call m) = sent m" for m
      by (auto simp: count_response_def client_at_def split: option.splits)
    then have u: "unsent ?r = unsent (master s)" "unsent_parts ?r = unsent_parts (master s)" "sent (mst ?r) = remove1 c (sent (mst (master s)))"
      using unsent_same [of ?r "master s"] by simp_all
    obtain k where k: "length (sent (mst (master s))) = Suc k" "length (remove1 c (sent (mst (master s)))) = k"
      using length_remove1_Suc [OF result_ok(3) [OF inv fl(2)]] by blast
    obtain l where l: "length (results s) = Suc l" "length (remove1 (c, fl) (results s)) = l"
      using length_remove1_Suc [OF fl(2)] by blast
    have "rank E (s\<lparr>master := ?r, results := remove1 (c, fl) (results s)\<rparr>) < rank E s"
      using u k l counting by (simp add: rank_def)
    then show ?thesis unfolding better_def using st
      by (intro exI [of _ "s\<lparr>master := ?r, results := remove1 (c, fl) (results s)\<rparr>"]) (simp add: missed_def)
  next
    case cleanup
    obtain f q where fq: "poll_cleanup (map_reduce_flag (master s)) (mst (master s)) = (f, q)" by fastforce
    let ?r = "(master s)\<lparr>polling := q, map_reduce_flag := f\<rparr>"
    have ps: "poll_step (master s) ?r" using poll_step.poll_cleanup [OF cleanup fq] .
    have st: "sys_run E s (s\<lparr>master := ?r\<rparr>)" using sys_poll [OF _ ps I(3,4)] cleanup by blast
    have stage: "pc_stage (pc (master s)) < 3" using I(6) cleanup by (auto simp: control_ok_def handshake_def split: if_splits)
    note nf = notify_full [OF inv stage n]
    have "q = Polling \<and> \<not> all_counted (master s) \<or> (\<exists>b. q = Notified b) \<or> q = PollReturned"
      using fq fl0 nf by (auto simp: poll_cleanup_def all_counted_def split: if_splits)
    then have "poll_rank q < poll_rank Cleanup \<and> \<not> missed ?r" by (auto simp: missed_def all_counted_def)
    then show ?thesis unfolding better_def using st cleanup unsent_same [of ?r "master s"]
      by (intro exI [of _ "s\<lparr>master := ?r\<rparr>"]) (simp add: rank_def)
  qed
qed


lemma better_main:
  assumes "run_main_step (master s) r" and "sys_inv E s" and "rank E (s\<lparr>master := r\<rparr>) < rank E s" and "\<not> missed r"
  shows "better E s"
proof -
  let ?t = "s\<lparr>master := r, shared_disk := unlink (drop (length (removed (mst (master s)))) (removed (mst r))) (shared_disk s)\<rparr>"
  have "sys_run E s ?t" using sys_step.sys_main [OF assms(1) sys_invD(3,4) [OF assms(2)]] .
  moreover have "rank E ?t < rank E s" using assms(3) by (simp add: rank_def)
  ultimately show ?thesis unfolding better_def using assms(4) by (intro exI [of _ ?t]) simp
qed

text \<open>The main thread waits for a worker or for the thread that polls.\<close>

lemma better_blocked:
  assumes usable: "run_usable E" and inv: "sys_inv E s" and w: "workers_ok (master s)" and miss: "\<not> missed (master s)"
    and blocked: "pc_stage (pc (master s)) = 0 \<and> ready_queue (mst (master s)) = [] \<and> sending (pc (master s)) = {#} \<and>
        (unsent (master s) \<noteq> [] \<or> unsent_parts (master s) \<noteq> []) \<or>
      pc_stage (pc (master s)) = 1 \<and> map_reduce_flag (master s)"
  shows "better E s"
proof -
  obtain P where fine: "run_correct E P" and n: "0 < n_output_files (mr_spec E)" using usable by (auto simp: run_usable_def)
  have npc: "pc (master s) \<noteq> Returned" using blocked by auto
  note fl = in_flight [OF fine inv npc n]
  have lis: "listening (polling (master s))" using sys_invD(6) [OF inv] blocked by (auto simp: control_ok_def handshake_def split: if_splits)
  show ?thesis
  proof (cases "polling (master s) = Polling")
    case True
    have "sent (mst (master s)) \<noteq> []"
    proof (cases "pc_stage (pc (master s)) = 0")
      case True
      then show ?thesis using w blocked by (auto simp: workers_ok_def)
    next
      case False
      then have "unsent (master s) = [] \<and> unsent_parts (master s) = []"
        using blocked by (cases "pc (master s)") (simp_all add: unsent_def unsent_parts_def)
      moreover have "\<not> all_counted (master s)" using miss True False blocked by (simp add: missed_def)
      ultimately show ?thesis using fl(3) by blast
    qed
    then show ?thesis using better_polling [OF usable inv True _ miss] by blast
  next
    case False
    then show ?thesis using better_listening [OF usable inv lis False] fl(2) blocked by blast
  qed
qed

text \<open>The thread that polls returns when the main thread has decided.\<close>

lemma better_resume:
  assumes inv: "sys_inv E s" and stage: "pc_stage (pc (master s)) = 3" and p: "polling (master s) \<noteq> PollReturned"
  shows "better E s"
proof -
  note C = sys_invD(6) [OF inv]
  have h: "polling (master s) = Notified (map_side (pc (master s)))" "map_reduce_flag (master s)"
    using C stage p by (auto simp: control_ok_def handshake_def split: if_splits)
  have q: "poll_resume (map_side (pc (master s))) (mst (master s)) = PollReturned"
    using C stage by (auto simp: control_ok_def poll_resume_def split: if_splits)
  let ?r = "(master s)\<lparr>polling := PollReturned, map_reduce_flag := False\<rparr>"
  have "poll_step (master s) ?r" using poll_step.poll_resume [OF h] q by simp
  then have "sys_run E s (s\<lparr>master := ?r\<rparr>)" using sys_poll [OF disjI2 [OF h(1)]] sys_invD(3,4) [OF inv] by blast
  then show ?thesis unfolding better_def using stage h unsent_same [of ?r "master s"]
    by (intro exI [of _ "s\<lparr>master := ?r\<rparr>"]) (simp add: rank_def missed_def)
qed

text \<open>The map phase.\<close>

lemma better_map:
  assumes usable: "run_usable E" and inv: "sys_inv E s" and w: "workers_ok (master s)" and miss: "\<not> missed (master s)"
    and side: "map_side (pc (master s))"
  shows "better E s"
proof -
  obtain P where fine: "run_correct E P" and n: "0 < n_output_files (mr_spec E)" using usable by (auto simp: run_usable_def)
  note I = sys_invD [OF inv] and S = sys_invD(5) [OF inv]
  have C: "handshake True (num_map_msgs (mst (master s)) = num_shards (mst (master s))) (master s)"
    "map_complete (mst (master s)) = (3 \<le> pc_stage (pc (master s)))" "\<not> reduce_complete (mst (master s))"
    using I(6) side by (simp_all add: control_ok_def)
  have npc: "pc (master s) \<noteq> Returned" using side by auto
  note fl = in_flight [OF fine inv npc n]
  note step = better_main [OF _ inv]
  note b = better_blocked [OF usable inv w miss]
  show ?thesis
  proof (cases "pc (master s)")
    case Starting
    show ?thesis by (rule step [OF run_main_step.first_pongs [OF Starting]])
      (use Starting miss in \<open>simp_all add: rank_def unsent_def unsent_parts_def missed_def all_counted_def\<close>)
  next
    case (Mapping i)
    consider (all_sent) "length (m_shards (mst (master s))) \<le> i" | (take_worker) "i < length (m_shards (mst (master s)))" "ready_queue (mst (master s)) \<noteq> []"
      | (wait) "i < length (m_shards (mst (master s)))" "ready_queue (mst (master s)) = []" by linarith
    then show ?thesis
    proof cases
      case all_sent
      show ?thesis by (rule step [OF run_main_step.map_sent [OF Mapping all_sent]])
        (use Mapping all_sent miss in \<open>simp_all add: rank_def unsent_def unsent_parts_def missed_def all_counted_def\<close>)
    next
      case take_worker
      obtain wk m where tr: "take_ready (int i) (mst (master s)) = (wk, m)" by fastforce
      obtain ip rest where e: "wk = Some ip" "m = (mst (master s))\<lparr>ready_queue := rest, worker2job := (worker2job (mst (master s)))(ip \<mapsto> int i)\<rparr>"
        using take_ready_some [OF take_worker(2) _ tr] S by (auto simp: static_ok_def)
      show ?thesis by (rule step [OF run_main_step.map_take [OF Mapping take_worker tr]])
        (use Mapping e miss in \<open>simp_all add: rank_def unsent_def unsent_parts_def missed_def all_counted_def\<close>)
    next
      case wait
      then show ?thesis using b Mapping by (simp add: unsent_def)
    qed
  next
    case (MapSend i ip)
    have ok: "i < length (m_shards (mst (master s)))" "ip \<in> set (worker_ips (mst (master s)))"
      using I(1) MapSend S by (simp_all add: run_inv_def main_ok_def static_ok_def)
    then have lv: "live (mst (master s)) ip" using clients_okD(3) [OF I(2)] by simp
    have sh: "shard_ok (m_shards (mst (master s)) ! i)" using clients_okD(10) [OF I(2)] ok(1) by (simp add: list_all_length)
    obtain m' where m': "send_mapper_job ip (m_shards (mst (master s)) ! i) (mst (master s)) = Inr m'"
      using lv sh by (simp add: send_mapper_job_def client_at_live map_query_pieces shard_ok_def)
    obtain a q where a: "m' = (mst (master s))\<lparr>ip_addr2worker := a, sent := sent (mst (master s)) @ [MapRpc ip q]\<rparr>"
      using send_mapper_form [OF m' lv sh] by blast
    show ?thesis by (rule step [OF run_main_step.map_send [OF MapSend]])
      (use MapSend ok fl(1) a m' miss in \<open>simp_all add: goes_to_def rank_def unsent_def unsent_parts_def missed_def all_counted_def\<close>)
  next
    case MapWait
    show ?thesis
    proof (cases "map_reduce_flag (master s)")
      case True
      then show ?thesis using b MapWait by simp
    next
      case False
      show ?thesis by (rule step [OF run_main_step.map_notified [OF MapWait False]])
        (use MapWait miss in \<open>simp_all add: rank_def unsent_def unsent_parts_def missed_def\<close>)
    qed
  next
    case MapMonitor
    have full: "num_map_msgs (mst (master s)) = num_shards (mst (master s))" using C(1) MapMonitor by (simp add: handshake_def)
    have "schedule_monitor (mst (master s)) = (mst (master s))\<lparr>map_complete := True, num_dropped_workers := 0\<rparr>"
      using C(2) MapMonitor S full by (simp add: schedule_monitor_map static_ok_def)
    then show ?thesis by (intro step [OF run_main_step.map_decide [OF MapMonitor]])
      (use MapMonitor in \<open>simp_all add: rank_def unsent_def unsent_parts_def missed_def\<close>)
  next
    case MapDecided
    have e: "end_map_round (mst (master s)) = (True, (mst (master s))\<lparr>m_shards := []\<rparr>)"
      using S C(2) MapDecided by (simp add: end_map_round_def static_ok_def)
    show ?thesis by (rule step [OF run_main_step.map_round [OF MapDecided e]])
      (use MapDecided in \<open>simp_all add: rank_def unsent_def unsent_parts_def missed_def\<close>)
  next
    case MapJoin
    show ?thesis
    proof (cases "polling (master s) = PollReturned")
      case False
      then show ?thesis using better_resume [OF inv] MapJoin by simp
    next
      case True
      have full: "num_map_msgs (mst (master s)) = num_shards (mst (master s))" using C(1) MapJoin by (simp add: handshake_def)
      obtain log C' U Q where F: "map_flight E log C' U Q s" using I(8) side npc unfolding phase_ok_def by auto
      have ns: "num_shards (mst (master s)) = int (length (mr_shards E))" using S by (simp add: static_ok_def)
      obtain jobs where "mset (map snd jobs) = mset (mr_shards E)" "map_jobs E jobs = Inr (m_intermediate_files (mst (master s)), shared_disk s)"
        using map_flight_done [OF F full ns] by blast
      then obtain idx where idx: "group_files (m_intermediate_files (mst (master s))) = Inr idx" "dom idx = {0..<n_output_files (mr_spec E)}"
        using fine unfolding run_correct_def by (metis Inr_inject Pair_inject)
      let ?parts = "sorted_list_of_set (dom idx)"
      have parts: "distinct ?parts" "set ?parts = dom idx" "length ?parts = nat (n_output_files (mr_spec E))" using idx(2) by simp_all
      have nr: "num_reduce_msgs (mst (master s)) = 0" "m_num_partitions (mst (master s)) = n_output_files (mr_spec E)"
        using F S by (simp_all add: map_flight_def static_ok_def)
      show ?thesis by (rule step [OF run_main_step.group [OF MapJoin True idx(1) parts(1,2)]])
        (use MapJoin True parts(3) nr n in \<open>simp_all add: rank_def unsent_def unsent_parts_def missed_def all_counted_def\<close>)
    qed
  qed (use side in simp_all)
qed


text \<open>The reduce phase.\<close>

lemma better_reduce:
  assumes usable: "run_usable E" and inv: "sys_inv E s" and w: "workers_ok (master s)" and miss: "\<not> missed (master s)"
    and side: "\<not> map_side (pc (master s))" and npc: "pc (master s) \<noteq> Returned"
  shows "better E s"
proof -
  obtain P where fine: "run_correct E P" and n: "0 < n_output_files (mr_spec E)" using usable by (auto simp: run_usable_def)
  note I = sys_invD [OF inv] and S = sys_invD(5) [OF inv]
  have C: "handshake False (num_reduce_msgs (mst (master s)) = m_num_partitions (mst (master s))) (master s)"
    "map_complete (mst (master s))" "reduce_complete (mst (master s)) = (3 \<le> pc_stage (pc (master s)))"
    using I(6) side by (simp_all add: control_ok_def)
  obtain fs parts log C' U Q where F: "reduce_flight E fs parts log C' U Q s" using I(8) side npc unfolding phase_ok_def by auto
  note fl = in_flight [OF fine inv npc n]
  note step = better_main [OF _ inv]
  note b = better_blocked [OF usable inv w miss]
  show ?thesis
  proof (cases "pc (master s)")
    case (Reducing i)
    consider (all_sent) "length (m_partitions (mst (master s))) \<le> i"
      | (take_worker) "i < length (m_partitions (mst (master s)))" "ready_queue (mst (master s)) \<noteq> []"
      | (wait) "i < length (m_partitions (mst (master s)))" "ready_queue (mst (master s)) = []" by linarith
    then show ?thesis
    proof cases
      case all_sent
      show ?thesis by (rule step [OF run_main_step.reduce_sent [OF Reducing all_sent]])
        (use Reducing all_sent miss in \<open>simp_all add: rank_def unsent_def unsent_parts_def missed_def all_counted_def\<close>)
    next
      case take_worker
      obtain wk m where tr: "take_ready (m_partitions (mst (master s)) ! i) (mst (master s)) = (wk, m)" by fastforce
      obtain ip rest where e: "wk = Some ip"
        "m = (mst (master s))\<lparr>ready_queue := rest, worker2job := (worker2job (mst (master s)))(ip \<mapsto> m_partitions (mst (master s)) ! i)\<rparr>"
        using take_ready_some [OF take_worker(2) _ tr] S by (auto simp: static_ok_def)
      show ?thesis by (rule step [OF run_main_step.reduce_take [OF Reducing take_worker tr]])
        (use Reducing e miss in \<open>simp_all add: rank_def unsent_def unsent_parts_def missed_def all_counted_def\<close>)
    next
      case wait
      then show ?thesis using b Reducing by (simp add: unsent_parts_def)
    qed
  next
    case (ReduceSend i ip)
    let ?p = "m_partitions (mst (master s)) ! i"
    have ok: "i < length (m_partitions (mst (master s)))" "ip \<in> set (worker_ips (mst (master s)))"
      using I(1) ReduceSend S F by (simp_all add: run_inv_def main_ok_def static_ok_def reduce_flight_def)
    then have lv: "live (mst (master s)) ip" using clients_okD(3) [OF I(2)] by simp
    obtain fl' where fl': "fl' = (case idx2files (master s) ?p of None \<Rightarrow> [] | Some fl \<Rightarrow> fl)" by blast
    obtain m' where m': "send_reducer_job ip ?p fl' (mst (master s)) = Inr m'" using lv by (simp add: send_reducer_job_def client_at_live)
    note a = send_reducer_form [OF m' lv]
    show ?thesis by (rule step [OF run_main_step.reduce_send [OF ReduceSend refl fl']])
      (use ReduceSend ok fl(1) a m' miss in \<open>simp_all add: goes_to_def rank_def unsent_def unsent_parts_def missed_def all_counted_def\<close>)
  next
    case ReduceWait
    show ?thesis
    proof (cases "map_reduce_flag (master s)")
      case True
      then show ?thesis using b ReduceWait by simp
    next
      case False
      show ?thesis by (rule step [OF run_main_step.reduce_notified [OF ReduceWait False]])
        (use ReduceWait miss in \<open>simp_all add: rank_def unsent_def unsent_parts_def missed_def\<close>)
    qed
  next
    case ReduceMonitor
    have full: "num_reduce_msgs (mst (master s)) = m_num_partitions (mst (master s))" using C(1) ReduceMonitor by (simp add: handshake_def)
    have "int (length (output_files (mst (master s)))) = m_num_partitions (mst (master s))" using F full by (simp add: reduce_flight_def)
    then have "schedule_monitor (mst (master s)) = (mst (master s))\<lparr>reduce_complete := True, num_dropped_workers := 0\<rparr>"
      using C(2,3) ReduceMonitor clients_okD(6) [OF I(2)] by (simp add: schedule_monitor_def)
    then show ?thesis by (intro step [OF run_main_step.reduce_decide [OF ReduceMonitor]])
      (use ReduceMonitor in \<open>simp_all add: rank_def unsent_def unsent_parts_def missed_def\<close>)
  next
    case ReduceDecided
    have e: "end_reduce_round (mst (master s)) = (True, (mst (master s))\<lparr>m_partitions := []\<rparr>)"
      using C(3) ReduceDecided clients_okD(6) [OF I(2)] by (simp add: end_reduce_round_def)
    show ?thesis by (rule step [OF run_main_step.reduce_round [OF ReduceDecided e]])
      (use ReduceDecided in \<open>simp_all add: rank_def unsent_def unsent_parts_def missed_def\<close>)
  next
    case ReduceJoin
    show ?thesis
    proof (cases "polling (master s) = PollReturned")
      case False
      then show ?thesis using better_resume [OF inv] ReduceJoin by simp
    next
      case True
      show ?thesis by (rule step [OF run_main_step.finish [OF ReduceJoin True]])
        (use ReduceJoin in \<open>simp_all add: rank_def unsent_def unsent_parts_def missed_def delete_intermediate_files_def\<close>)
    qed
  qed (use side npc in simp_all)
qed

text \<open>So the run can be completed from every state in which the main thread has not missed its notification.\<close>

lemma run_can_return:
  assumes usable: "run_usable E" and "sys_inv E s" and "workers_ok (master s)" and "\<not> missed (master s)"
  shows "\<exists>t. (sys_run E)\<^sup>*\<^sup>* s t \<and> pc (master t) = Returned"
  using assms(2-)
proof (induction "rank E s" arbitrary: s rule: less_induct)
  case less
  show ?case
  proof (cases "pc (master s) = Returned")
    case True
    then show ?thesis by (intro exI [of _ s]) simp
  next
    case False
    then have "better E s" using better_map [OF usable less.prems] better_reduce [OF usable less.prems] by blast
    then obtain u where u: "sys_run E s u" "rank E u < rank E s" "\<not> missed (master u)" unfolding better_def by blast
    obtain t where "(sys_run E)\<^sup>*\<^sup>* u t" "pc (master t) = Returned"
      using less.hyps [OF u(2) sys_inv_step [OF usable less.prems(1) u(1)] workers_ok_step [OF usable less.prems(1) u(1) less.prems(2)] u(3)] by blast
    then show ?thesis using converse_rtranclp_into_rtranclp [of "sys_run E", OF u(1)] by blast
  qed
qed

interpretation system_workers: inductive_invariant "\<lambda>s. run_usable E \<and> worker_ipaddr_ports (mr_spec E) \<noteq> [] \<and> sys_start E s" "sys_run E"
  "\<lambda>s. run_usable E \<and> sys_inv E s \<and> workers_ok (master s)" for E
  by unfold_locales (auto intro: sys_inv_init sys_inv_step workers_ok_init workers_ok_step)


text \<open>And it cannot be completed from the others: nobody will notify the main thread.\<close>

lemma missed_step:
  assumes usable: "run_usable E" and inv: "sys_inv E s" and "sys_run E s t" and miss: "missed (master s)"
  shows "missed (master t)"
proof -
  obtain P where fine: "run_correct E P" and n: "0 < n_output_files (mr_spec E)" using usable by (auto simp: run_usable_def)
  have p: "polling (master s) = Polling" and a: "all_counted (master s)" and stage: "pc_stage (pc (master s)) \<le> 1"
    using miss by (simp_all add: missed_def)
  then have "pc (master s) \<noteq> Returned" by auto
  from in_flight(1,2) [OF fine inv this n] a have none: "unsent (master s) = []" "unsent_parts (master s) = []" "sent (mst (master s)) = []" "results s = []"
    by simp_all
  have waiting: "map_reduce_flag (master s)" if "pc_stage (pc (master s)) = 1"
    using sys_invD(6) [OF inv] that p by (auto simp: control_ok_def handshake_def split: if_splits)
  have ms: "pc (master s) \<noteq> MapSend i ip" for i ip
    using sys_invD(1) [OF inv] none(1) by (auto simp: run_inv_def main_ok_def unsent_def)
  have rs: "pc (master s) \<noteq> ReduceSend i ip" for i ip
    using sys_invD(8) [OF inv] none(2) by (cases rule: phase_cases) (auto simp: reduce_flight_def unsent_parts_def)
  show ?thesis
    using assms(3)
  proof cases
    case (sys_main r)
    show ?thesis
      using sys_main(2)
      by cases (use sys_main(1) ms rs none p a stage waiting in \<open>simp_all add: missed_def all_counted_def unsent_def unsent_parts_def\<close>)
  qed (use none p in auto)
qed

lemma missed_never_returns:
  assumes usable: "run_usable E" and "(sys_run E)\<^sup>*\<^sup>* s t" and "sys_inv E s" and "missed (master s)"
  shows "pc (master t) \<noteq> Returned"
proof -
  have "sys_inv E t \<and> missed (master t)"
    using assms(2) by (induction rule: rtranclp_induct) (auto intro: assms(3,4) sys_inv_step [OF usable] missed_step [OF usable])
  then show ?thesis by (auto simp: missed_def)
qed

lemma reachable_steps: "reachable (sys_start E) (sys_run E) s \<Longrightarrow> (sys_run E)\<^sup>*\<^sup>* s t \<Longrightarrow> reachable (sys_start E) (sys_run E) t"
  by (rotate_tac 1, induction rule: rtranclp_induct) (auto intro: reachable.intros)

lemma sys_reachable_workers:
  assumes "run_usable E" and "worker_ipaddr_ports (mr_spec E) \<noteq> []" and "reachable (sys_start E) (sys_run E) s"
  shows "workers_ok (master s)"
  using system_workers.inv_reachable [OF reachable_from [OF assms(3)]] assms(1,2) by blast

lemma sys_returns_iff:
  assumes "run_usable E" and "worker_ipaddr_ports (mr_spec E) \<noteq> []" and "reachable (sys_start E) (sys_run E) s"
  shows "(\<exists>t. (sys_run E)\<^sup>*\<^sup>* s t \<and> pc (master t) = Returned) \<longleftrightarrow> \<not> missed (master s)"
  using run_can_return [OF assms(1) sys_reachable_inv [OF assms(1,3)] sys_reachable_workers [OF assms]]
    missed_never_returns [OF assms(1) _ sys_reachable_inv [OF assms(1,3)]] by blast



section \<open>Word count on the whole system\<close>

lemma word_count_usable:
  assumes "0 < map_kilobytes spec" and "map_kilobytes spec \<le> 2097151" and "0 < n_output_files spec" and "in_int (n_output_files spec)"
    and "n_workers spec = int (length (worker_ipaddr_ports spec))" and "distinct (worker_ipaddr_ports spec)"
    and "shard_files (contents fs) spec = Some (Inr (True, shards))" and "shards \<noteq> []"
    and "get_mapper factory (user_id spec) = Some UserMapper_map" and "get_reducer factory (user_id spec) = Some UserReducer_reduce"
    and "\<And>f. f \<in> set (input_files spec) \<Longrightarrow> \<exists>c. contents fs f = Some c \<and> int (length c) < INT_MAX \<and> \<not> is_intermediate f"
    and "disk_ok (output_dir spec) fs" and "int (length (input_words (contents fs) (input_files spec))) \<le> INT_MAX"
    and E_def: "E = \<lparr>mr_hash = hash, mr_factory = factory, mr_spec = spec, mr_shards = shards, mr_disk = fs\<rparr>"
  shows "run_correct E (\<lambda>i content. content = word_count_text hash (n_output_files spec) (input_words (contents fs) (input_files spec)) i)"
    and "run_usable E"
proof -
  show correct: "run_correct E (\<lambda>i content. content = word_count_text hash (n_output_files spec) (input_words (contents fs) (input_files spec)) i)"
    unfolding run_correct_def
  proof (intro allI impI)
    fix jobs :: "(string \<times> FileShard) list"
    assume "mset (map snd jobs) = mset (mr_shards E)"
    then have "mset (map snd jobs) = mset shards" by (simp add: E_def)
    from word_count_job [OF assms(1-4,7,8) this assms(9-13), of hash]
    show "\<exists>names fs1 idx. map_jobs E jobs = Inr (names, fs1) \<and> group_files names = Inr idx \<and> dom idx = {0..<n_output_files (mr_spec E)} \<and>
       (\<forall>parts. distinct parts \<and> set parts = dom idx \<longrightarrow> (\<exists>outs fs2. reduce_jobs E idx fs1 parts = Inr (outs, fs2) \<and>
          (\<forall>i\<in>dom idx. file_text fs2 (output_name (output_dir (mr_spec E)) i) =
             word_count_text hash (n_output_files spec) (input_words (contents fs) (input_files spec)) i)))"
      by (simp add: E_def) metis
  qed
  have ok: "inputs_ok UserMapper_map (contents fs) (input_files spec)"
    using assms(11) by (fastforce simp: inputs_ok_def nul_safe_def UserMapper_map_NUL split: option.splits)
  have "MapReduceRun.jobs_ok (contents fs) (map (Pair []) shards)"
    by (rule shards_jobs [OF assms(1,2,7) ok]) (simp add: comp_def)
  then have "list_all shard_ok shards" by (auto simp: MapReduceRun.jobs_ok_def shard_ok_def list_all_iff)
  then show "run_usable E" using assms(3-6) correct unfolding run_usable_def spec_usable_def by (auto simp: E_def)
qed

text \<open>The input of two lines with two workers.\<close>

definition demo_master :: Master where
  "demo_master = projr (new_Master demo_spec1 demo_shards)"

definition demo_system :: system where
  "demo_system = \<lparr>master = \<lparr>mst = demo_master, pc = Starting, polling = Polling, map_reduce_flag = False, idx2files = Map.empty,
     map_errors = 0, resent = False, stopped = None\<rparr>, shared_disk = demo_input, results = [], job_fault = None\<rparr>"

lemma demo_start: "sys_init demo_spec1 demo_shards demo_input demo_system" "\<not> missed (master demo_system)"
proof -
  have m: "new_Master demo_spec1 demo_shards = Inr demo_master" and "num_map_msgs demo_master = 0" "num_shards demo_master = 2"
    using foldm_add_worker [of 2 "worker_ipaddr_ports demo_spec1"]
    by (simp_all add: demo_master_def new_Master_def demo_spec1_def demo_spec_def demo_shards_def add_worker_def)
  then show "sys_init demo_spec1 demo_shards demo_input demo_system" "\<not> missed (master demo_system)"
    by (simp_all add: demo_system_def sys_init_def run_init_def missed_def all_counted_def)
qed

lemma demo_finishes:
  defines "E \<equiv> \<lparr>mr_hash = (\<lambda>k. of_nat (length k)), mr_factory = demo_factory, mr_spec = demo_spec1, mr_shards = demo_shards, mr_disk = demo_input\<rparr>"
  shows "\<exists>t. reachable (sys_start E) (sys_run E) t \<and> pc (master t) = Returned"
proof -
  have "run_usable E"
    by (rule word_count_usable(2) [of demo_spec1 demo_input demo_shards demo_factory])
      (use demo_run demo_disk_ok in \<open>simp_all add: E_def demo_spec1_def demo_spec_def demo_shards_def demo_factory_def get_mapper_def get_reducer_def
        demo_inputs in_int_def INT_MAX_def INT_MIN_def is_intermediate_def\<close>, simp_all add: demo_input_def demo_words)
  moreover have "worker_ipaddr_ports (mr_spec E) \<noteq> []" by (simp add: E_def demo_spec1_def demo_spec_def)
  moreover have st: "reachable (sys_start E) (sys_run E) demo_system" using demo_start(1) by (intro reachable.reachable_start) (simp add: E_def)
  ultimately obtain t where "(sys_run E)\<^sup>*\<^sup>* demo_system t" "pc (master t) = Returned"
    using sys_returns_iff demo_start(2) by blast
  then show ?thesis using reachable_steps [OF st] by blast
qed

text \<open>
  C2: The whole system counts words: the master and its workers run concurrently on one disk, calls are executed and answered in any
  order, and no worker fails. Then no thread of the master and no job faults, and when \<open>Master::run\<close> has returned, every output file holds
  the words of its partition in increasing order, each with the number of its occurrences in the input files.
\<close>

theorem system_counts_words:
  assumes "0 < map_kilobytes spec" and "map_kilobytes spec \<le> 2097151" and "0 < n_output_files spec" and "in_int (n_output_files spec)"
    and "n_workers spec = int (length (worker_ipaddr_ports spec))" and "distinct (worker_ipaddr_ports spec)"
    and "shard_files (contents fs) spec = Some (Inr (True, shards))" and "shards \<noteq> []"
    and "get_mapper factory (user_id spec) = Some UserMapper_map" and "get_reducer factory (user_id spec) = Some UserReducer_reduce"
    and "\<And>f. f \<in> set (input_files spec) \<Longrightarrow> \<exists>c. contents fs f = Some c \<and> int (length c) < INT_MAX \<and> \<not> is_intermediate f"
    and "disk_ok (output_dir spec) fs" and "int (length (input_words (contents fs) (input_files spec))) \<le> INT_MAX"
    and "reachable (sys_init spec shards fs) (sys_step hash factory) s"
  shows "stopped (master s) = None \<and> job_fault s = None \<and>
    (pc (master s) = Returned \<longrightarrow> (\<forall>i\<in>{0..<n_output_files spec}. file_text (shared_disk s) (output_name (output_dir spec) i) =
       word_count_text hash (n_output_files spec) (input_words (contents fs) (input_files spec)) i))"
proof -
  let ?E = "\<lparr>mr_hash = hash, mr_factory = factory, mr_spec = spec, mr_shards = shards, mr_disk = fs\<rparr>"
  note u = word_count_usable [OF assms(1-13) refl, of hash]
  have "reachable (sys_start ?E) (sys_run ?E) s" using assms(14) by simp
  note inv = sys_reachable_inv [OF u(2) this]
  show ?thesis using sys_invD(3,4) [OF inv] sys_result [OF u(1) inv] assms(12) by simp
qed

theorem system_counts_words_witness:
  "\<exists>t. reachable (sys_init demo_spec1 demo_shards demo_input) (sys_step (\<lambda>k. of_nat (length k)) demo_factory) t \<and> pc (master t) = Returned \<and>
    file_text (shared_disk t) (output_name ''output'' 4) = word_count_text (\<lambda>k. of_nat (length k)) 8 [replicate 1100 (CHR ''x''), ''tail''] 4"
proof -
  obtain t where t: "reachable (sys_init demo_spec1 demo_shards demo_input) (sys_step (\<lambda>k. of_nat (length k)) demo_factory) t" "pc (master t) = Returned"
    using demo_finishes by auto
  from system_counts_words [OF _ _ _ _ _ _ _ _ _ _ _ _ _ t(1)] have "file_text (shared_disk t) (output_name ''output'' 4) =
      word_count_text (\<lambda>k. of_nat (length k)) 8 [replicate 1100 (CHR ''x''), ''tail''] 4"
    using demo_run demo_disk_ok t(2)
    by (simp add: demo_spec1_def demo_spec_def demo_shards_def demo_factory_def get_mapper_def get_reducer_def demo_inputs
      demo_words in_int_def INT_MAX_def INT_MIN_def is_intermediate_def) (simp add: demo_input_def demo_words)
  then show ?thesis using t by blast
qed

text \<open>
  C3: When the system can finish. From a state that it reaches, \<open>Master::run\<close> can still return unless the main thread has missed its
  notification: the last response of the phase has been processed before the main thread began to wait. From then on it never returns.
\<close>

theorem system_returns_unless_missed:
  assumes "0 < map_kilobytes spec" and "map_kilobytes spec \<le> 2097151" and "0 < n_output_files spec" and "in_int (n_output_files spec)"
    and "n_workers spec = int (length (worker_ipaddr_ports spec))" and "distinct (worker_ipaddr_ports spec)"
    and "shard_files (contents fs) spec = Some (Inr (True, shards))" and "shards \<noteq> []"
    and "get_mapper factory (user_id spec) = Some UserMapper_map" and "get_reducer factory (user_id spec) = Some UserReducer_reduce"
    and "\<And>f. f \<in> set (input_files spec) \<Longrightarrow> \<exists>c. contents fs f = Some c \<and> int (length c) < INT_MAX \<and> \<not> is_intermediate f"
    and "disk_ok (output_dir spec) fs" and "int (length (input_words (contents fs) (input_files spec))) \<le> INT_MAX"
    and "reachable (sys_init spec shards fs) (sys_step hash factory) s" and "worker_ipaddr_ports spec \<noteq> []"
  shows "(\<exists>t. (sys_step hash factory)\<^sup>*\<^sup>* s t \<and> pc (master t) = Returned) \<longleftrightarrow> \<not> missed (master s)"
proof -
  let ?E = "\<lparr>mr_hash = hash, mr_factory = factory, mr_spec = spec, mr_shards = shards, mr_disk = fs\<rparr>"
  have "reachable (sys_start ?E) (sys_run ?E) s" using assms(14) by simp
  from sys_returns_iff [OF word_count_usable(2) [OF assms(1-13) refl] _ this] show ?thesis using assms(15) by simp
qed

theorem system_returns_unless_missed_witness:
  "\<exists>t. (sys_step (\<lambda>k. of_nat (length k)) demo_factory)\<^sup>*\<^sup>* demo_system t \<and> pc (master t) = Returned"
  using system_returns_unless_missed [of demo_spec1 demo_input demo_shards demo_factory "\<lambda>k. of_nat (length k)" demo_system]
    demo_run demo_disk_ok demo_start reachable.reachable_start [of "sys_init demo_spec1 demo_shards demo_input", OF demo_start(1)]
  by (simp add: demo_spec1_def demo_spec_def demo_shards_def demo_factory_def get_mapper_def get_reducer_def demo_inputs
    demo_words in_int_def INT_MAX_def INT_MIN_def is_intermediate_def) (simp add: demo_input_def demo_words)

end
