(* ===== verification/MapReduceMain.thy ===== *)
theory MapReduceMain
  imports MapReduceProgress
begin

text \<open>
  The entry point of a MapReduce job, \<^verbatim>\<open>project4/src/mapreduce_impl.cc\<close>: configuration, sharding and the master in turn.
  What the file system says and the run of the master are parameters. The properties hand the guarantees of the first two
  parts to the theorems on the master and, with its workers, on the whole system.
\<close>

definition MapReduceImpl_run :: "(string \<Rightarrow> bool) \<Rightarrow> (string \<Rightarrow> bool) \<Rightarrow> (string \<Rightarrow> string option)
    \<Rightarrow> (MapReduceSpec \<Rightarrow> FileShard list \<Rightarrow> bool outcome option) \<Rightarrow> string \<Rightarrow> MapReduceSpec \<Rightarrow> bool outcome option" where
  "MapReduceImpl_run exists isdir fs run_master config_filename spec0 =
     (case read_and_validate_spec exists isdir (fs config_filename) spec0 of
        Inl e \<Rightarrow> Some (Inl e)
      | Inr (ok, spec) \<Rightarrow>
          if \<not> ok then Some (Inr False)
          else (case shard_files fs spec of
                  None \<Rightarrow> None
                | Some (Inl e) \<Rightarrow> Some (Inl e)
                | Some (Inr (ok, shards)) \<Rightarrow>
                    if \<not> ok then Some (Inr False)
                    else (case run_master spec shards of
                            None \<Rightarrow> None
                          | Some (Inl e) \<Rightarrow> Some (Inl e)
                          | Some (Inr ok) \<Rightarrow> Some (Inr ok))))"

lemma stoi_in_int: "stoi s = Inr v \<Longrightarrow> in_int v"
  by (auto simp: stoi_def Let_def split: prod.splits if_splits)

lemma config_value_in_int:
  "(if a then bnd (stoi x) (\<lambda>v. Inr (spec\<lparr>n_workers := v\<rparr>)) else if b then Inr (spec\<lparr>worker_ipaddr_ports := ips\<rparr>)
    else if c then Inr (spec\<lparr>input_files := fl\<rparr>) else if d then Inr (spec\<lparr>output_dir := x\<rparr>)
    else if e then bnd (stoi x) (\<lambda>v. Inr (spec\<lparr>n_output_files := v\<rparr>)) else if f then bnd (stoi x) (\<lambda>v. Inr (spec\<lparr>map_kilobytes := v\<rparr>))
    else if g then Inr (spec\<lparr>user_id := x\<rparr>) else Inr spec) = Inr spec' \<Longrightarrow> in_int (n_output_files spec) \<Longrightarrow> in_int (n_output_files spec')"
  for a b c d e f g :: bool
  by (auto simp: bnd_eq_Inr stoi_in_int split: if_splits)

lemma read_config_line_in_int:
  assumes "read_config_line l spec = Inr spec'" and "in_int (n_output_files spec)"
  shows "in_int (n_output_files spec')"
proof -
  obtain x where "read_config_line l spec = Inr spec'" and x: "\<exists>key. substr l 0 (find_first CHR ''='' l) = Inr key \<and> substr l (find_first CHR ''='' l + 1) npos = Inr x"
    using assms(1) unfolding read_config_line_def Let_def bnd_eq_Inr by blast
  then show ?thesis using config_value_in_int [OF _ assms(2)] unfolding read_config_line_def Let_def by (elim exE conjE) (simp only: bnd_simps)
qed

lemma read_config_lines_in_int:
  "foldm read_config_line ls spec = Inr spec' \<Longrightarrow> in_int (n_output_files spec) \<Longrightarrow> in_int (n_output_files spec')"
  by (induction ls arbitrary: spec) (auto simp: bnd_eq_Inr read_config_line_in_int)

lemma validated_spec:
  assumes "read_and_validate_spec exists isdir file spec0 = Inr (True, spec)" and "in_int (n_output_files spec0)"
  shows "n_workers spec = int (length (worker_ipaddr_ports spec))" and "0 < map_kilobytes spec" and "0 < n_output_files spec"
    and "in_int (n_output_files spec)" and "0 < n_workers spec"
proof -
  obtain c where c: "file = Some c" "foldm read_config_line (getlines newline c) spec0 = Inr spec" "validate_mr_spec exists isdir spec"
    using assms(1) by (auto simp: read_and_validate_spec_def read_mr_spec_from_config_file_def bnd_eq_Inr split: option.splits)
  show "in_int (n_output_files spec)" by (rule read_config_lines_in_int [OF c(2) assms(2)])
  show "n_workers spec = int (length (worker_ipaddr_ports spec))" "0 < map_kilobytes spec" "0 < n_output_files spec" "0 < n_workers spec"
    using c(3) by (auto simp: validate_mr_spec_def split: if_splits)
qed

lemma shards_fit:
  assumes "0 < map_kilobytes spec" and "shard_files fs spec = Some (Inr (True, shards))"
  shows "map_kilobytes spec \<le> 2097151"
proof (rule ccontr)
  assume "\<not> map_kilobytes spec \<le> 2097151"
  then have "int_op (map_kilobytes spec * 1024) = Inl SignedOverflow" by (simp add: int_op_def in_int_def INT_MAX_def)
  then show False using assms(2) by (simp add: shard_files_def)
qed

lemma shards_ok:
  assumes "0 < map_kilobytes spec" and "shard_files fs spec = Some (Inr (True, shards))"
  shows "list_all shard_ok shards"
proof -
  from shard_files_true [OF assms(1) shards_fit [OF assms] assms(2)] obtain st where
    "shards = (if files (shard st) \<noteq> [] then fileShards st @ [shard st] else fileShards st)" "st_ok (map_kilobytes spec * 1024) st" .
  then show ?thesis by (auto simp: st_ok_def shard_ok_def list_all_iff split: if_splits)
qed

lemma shards_some:
  assumes "0 < map_kilobytes spec" and "shard_files fs spec = Some (Inr (True, shards))" and "inputs_ok UserMapper_map fs (input_files spec)"
    and "input_words fs (input_files spec) \<noteq> []"
  shows "shards \<noteq> []"
proof
  assume "shards = []"
  then have "mset (input_pairs UserMapper_map fs (input_files spec)) = {#}"
    using shards_jobs(2) [OF assms(1) shards_fit [OF assms(1,2)] assms(2,3), of "[]"] by simp
  then show False using assms(4) by (simp add: input_pairs_words)
qed

lemma job_parts:
  assumes "MapReduceImpl_run exists isdir fs run_master config_filename spec0 = Some (Inr True)"
    and "read_and_validate_spec exists isdir (fs config_filename) spec0 = Inr (True, spec)"
  obtains shards where "shard_files fs spec = Some (Inr (True, shards))" and "run_master spec shards = Some (Inr True)"
  using assms by (auto simp: MapReduceImpl_run_def split: sum.splits if_splits option.splits)

text \<open>
  A job succeeds only when the master was run, and succeeded, on a specification that was read from the configuration and is
  valid, and on the shards of its input files. With distinct worker addresses these are what the theorems on the master ask
  for; the addresses being distinct is the one thing that nothing checks.
\<close>

theorem job_runs_master_on_valid_input:
  assumes "MapReduceImpl_run exists isdir fs run_master config_filename spec0 = Some (Inr True)" and "in_int (n_output_files spec0)"
  shows "\<exists>spec shards. read_and_validate_spec exists isdir (fs config_filename) spec0 = Inr (True, spec) \<and>
    shard_files fs spec = Some (Inr (True, shards)) \<and> run_master spec shards = Some (Inr True) \<and> 0 < n_workers spec \<and>
    0 < n_output_files spec \<and> (distinct (worker_ipaddr_ports spec) \<longrightarrow> spec_usable spec shards)"
proof -
  obtain spec shards where s: "read_and_validate_spec exists isdir (fs config_filename) spec0 = Inr (True, spec)"
    "shard_files fs spec = Some (Inr (True, shards))" "run_master spec shards = Some (Inr True)"
    using assms(1) by (auto simp: MapReduceImpl_run_def split: sum.splits if_splits option.splits)
  note v = validated_spec [OF s(1) assms(2)]
  have "distinct (worker_ipaddr_ports spec) \<longrightarrow> spec_usable spec shards"
    using v shards_ok [OF v(2) s(2)] by (simp add: spec_usable_def)
  then show ?thesis using s v by blast
qed

definition job_files :: "string \<Rightarrow> string option" where
  "job_files = [''config.ini'' \<mapsto> config_file False True demo_spec, ''input/a.txt'' \<mapsto> ''to be or not to be'']"

lemma job_spec: "read_and_validate_spec (\<lambda>_. True) (\<lambda>_. True) (job_files ''config.ini'') demo_spec0 = Inr (True, demo_spec)"
proof -
  have "read_mr_spec_from_config_file (Some (config_file False True demo_spec)) demo_spec0 = Inr (True, demo_spec)"
    by (rule read_config_back) (simp_all add: spec_ok_def list_ok_def demo_spec_def demo_spec0_def in_int_def INT_MAX_def INT_MIN_def newline_def)
  moreover have "validate_mr_spec (\<lambda>_. True) (\<lambda>_. True) demo_spec" by (simp add: validate_mr_spec_def demo_spec_def)
  ultimately show ?thesis by (simp add: read_and_validate_spec_def job_files_def)
qed

definition job_shards :: "FileShard list" where
  "job_shards = [\<lparr>files = [''input/a.txt''], offsets = [(0, 18)]\<rparr>]"

lemma job_sharded: "shard_files job_files demo_spec = Some (Inr (True, job_shards))"
  by (simp add: shard_files_def demo_spec_def int_op_def in_int_def INT_MAX_def INT_MIN_def get_file_size_def job_files_def shard_file.simps
    push_piece_def job_shards_def)

lemma demo_job:
  "MapReduceImpl_run (\<lambda>_. True) (\<lambda>_. True) job_files (\<lambda>_ _. Some (Inr True)) ''config.ini'' demo_spec0 = Some (Inr True)"
  using job_spec job_sharded by (simp add: MapReduceImpl_run_def)

theorem job_runs_master_on_valid_input_witness:
  "\<exists>spec shards. read_and_validate_spec (\<lambda>_. True) (\<lambda>_. True) (job_files ''config.ini'') demo_spec0 = Inr (True, spec) \<and>
     shard_files job_files spec = Some (Inr (True, shards)) \<and> 0 < n_workers spec"
proof -
  have "in_int (n_output_files demo_spec0)" by (simp add: demo_spec0_def demo_spec_def in_int_def INT_MIN_def INT_MAX_def)
  then show ?thesis using job_runs_master_on_valid_input [OF demo_job] by blast
qed

text \<open>
  C1: A job of word count that succeeds without failures has counted the words: \<open>MapReduceImpl::run\<close> reads and validates the
  configuration, cuts the input files into shards and runs the master with its workers; when it returns true after a run of
  \<open>sys_step\<close>, that is one in which no worker fails and no call ends with an error, the file of every partition on the disk lists
  the words of that partition in increasing order with the number of their occurrences in the input files. Without that
  restriction the claim is false: \<open>failure_leaves_files\<close> in \<open>MasterRun\<close> shows that the files of a failed worker stay and their
  pairs are counted twice. The worker addresses have to be distinct, which nothing checks, and so have the ports, for a job to be
  one step of \<open>sys_step\<close>.
\<close>

theorem job_counts_words:
  assumes "MapReduceImpl_run exists isdir (contents fs) run_master config_filename spec0 = Some (Inr True)"
    and "read_and_validate_spec exists isdir (contents fs config_filename) spec0 = Inr (True, spec)" and "in_int (n_output_files spec0)"
    and "distinct (worker_ipaddr_ports spec)" and "disk_ok (output_dir spec) fs"
    and "get_mapper factory (user_id spec) = Some UserMapper_map" and "get_reducer factory (user_id spec) = Some UserReducer_reduce"
    and "\<And>f. f \<in> set (input_files spec) \<Longrightarrow> \<exists>c. contents fs f = Some c \<and> int (length c) < INT_MAX \<and> \<not> is_intermediate f"
    and "input_words (contents fs) (input_files spec) \<noteq> []" and "int (length (input_words (contents fs) (input_files spec))) \<le> INT_MAX"
    and "\<And>shards. run_master spec shards = Some (Inr True) \<Longrightarrow>
      \<exists>s. reachable (sys_init spec shards fs) (sys_step hash factory) s \<and> pc (master s) = Returned \<and> shared_disk s = disk_after"
  shows "\<forall>i\<in>{0..<n_output_files spec}. file_text disk_after (output_name (output_dir spec) i) =
    word_count_text hash (n_output_files spec) (input_words (contents fs) (input_files spec)) i"
proof -
  let ?Q = "\<lambda>i content. content = word_count_text hash (n_output_files spec) (input_words (contents fs) (input_files spec)) i"
  obtain shards where sh: "shard_files (contents fs) spec = Some (Inr (True, shards))" "run_master spec shards = Some (Inr True)"
    using job_parts [OF assms(1,2)] by blast
  obtain s where s: "reachable (sys_init spec shards fs) (sys_step hash factory) s" "pc (master s) = Returned" "shared_disk s = disk_after"
    using assms(11) [OF sh(2)] by blast
  note v = validated_spec [OF assms(2,3)]
  have "inputs_ok UserMapper_map (contents fs) (input_files spec)"
    using assms(8) by (fastforce simp: inputs_ok_def nul_safe_def UserMapper_map_NUL split: option.splits)
  note ne = shards_some [OF v(2) sh(1) this assms(9)]
  note u = word_count_usable [OF v(2) shards_fit [OF v(2) sh(1)] v(3,4,1) assms(4) sh(1) ne assms(6-8,5,10) refl, of hash]
  let ?E = "\<lparr>mr_hash = hash, mr_factory = factory, mr_spec = spec, mr_shards = shards, mr_disk = fs\<rparr>"
  have "reachable (sys_start ?E) (sys_run ?E) s" using s(1) by simp
  note inv = sys_reachable_inv [OF u(2) this]
  show ?thesis using sys_result [OF u(1) inv] s(2,3) assms(5) by auto
qed


text \<open>The words of \<open>job_files\<close>, counted by two workers.\<close>

definition job_disk :: filesystem where
  "job_disk = \<lparr>contents = job_files, writable = (\<lambda>_. True)\<rparr>"

lemma job_words: "input_words job_files [''input/a.txt''] = [''to'', ''be'', ''or'', ''not'', ''to'', ''be'']"
  by code_simp

lemma job_text: "word_count_text (\<lambda>k. of_nat (length k)) 8 [''to'', ''be'', ''or'', ''not'', ''to'', ''be''] 2 = ''be 2'' @ newline # ''or 1'' @ newline # ''to 2'' @ [newline]"
  by code_simp

lemma job_input:
  "disk_ok ''output'' job_disk" "distinct (worker_ipaddr_ports demo_spec)" "in_int (n_output_files demo_spec0)"
  "get_mapper demo_factory ''cs6210'' = Some UserMapper_map" "get_reducer demo_factory ''cs6210'' = Some UserReducer_reduce"
  "\<exists>c. job_files ''input/a.txt'' = Some c \<and> int (length c) < INT_MAX \<and> \<not> is_intermediate ''input/a.txt''"
  by (simp_all add: disk_ok_def job_disk_def job_files_def is_intermediate_def output_name_def demo_spec_def demo_spec0_def in_int_def INT_MIN_def
    INT_MAX_def demo_factory_def get_mapper_def get_reducer_def)

lemma job_finishes:
  "\<exists>t. reachable (sys_init demo_spec job_shards job_disk) (sys_step (\<lambda>k. of_nat (length k)) demo_factory) t \<and> pc (master t) = Returned"
proof -
  let ?E = "\<lparr>mr_hash = (\<lambda>k. of_nat (length k)) :: string \<Rightarrow> u64, mr_factory = demo_factory, mr_spec = demo_spec, mr_shards = job_shards, mr_disk = job_disk\<rparr>"
  have usable: "run_usable ?E"
    by (rule word_count_usable(2) [of demo_spec job_disk job_shards demo_factory])
      (use job_input job_sharded in \<open>simp_all add: demo_spec_def job_disk_def job_words job_shards_def in_int_def INT_MAX_def INT_MIN_def\<close>)
  obtain m where m: "new_Master demo_spec job_shards = Inr m" "num_map_msgs m = 0" "num_shards m = 1"
    using foldm_add_worker [of 2 "worker_ipaddr_ports demo_spec"]
    by (simp add: new_Master_def demo_spec_def job_shards_def add_worker_def)
  let ?s = "\<lparr>master = \<lparr>mst = m, pc = Starting, polling = Polling, map_reduce_flag = False, idx2files = Map.empty, map_errors = 0,
     resent = False, stopped = None\<rparr>, shared_disk = job_disk, results = [], job_fault = None\<rparr>"
  have st: "reachable (sys_start ?E) (sys_run ?E) ?s"
    using m(1) by (intro reachable.reachable_start) (simp add: sys_init_def run_init_def)
  have "\<not> missed (master ?s)" using m by (simp add: missed_def all_counted_def)
  then obtain t where "(sys_run ?E)\<^sup>*\<^sup>* ?s t" "pc (master t) = Returned"
    using sys_returns_iff [OF usable _ st] by (auto simp: demo_spec_def)
  then show ?thesis using reachable_steps [OF st] by auto
qed

theorem job_counts_words_witness:
  "\<exists>run_master disk_after. MapReduceImpl_run (\<lambda>_. True) (\<lambda>_. True) (contents job_disk) run_master ''config.ini'' demo_spec0 = Some (Inr True) \<and>
     file_text disk_after (output_name ''output'' 2) = ''be 2'' @ newline # ''or 1'' @ newline # ''to 2'' @ [newline]"
proof -
  obtain t where t: "reachable (sys_init demo_spec job_shards job_disk) (sys_step (\<lambda>k. of_nat (length k)) demo_factory) t" "pc (master t) = Returned"
    using job_finishes by blast
  let ?run = "\<lambda>_ shards. Some (Inr (shards = job_shards))"
  have run: "MapReduceImpl_run (\<lambda>_. True) (\<lambda>_. True) (contents job_disk) ?run ''config.ini'' demo_spec0 = Some (Inr True)"
    using job_spec job_sharded by (simp add: MapReduceImpl_run_def job_disk_def)
  have spec: "input_files demo_spec = [''input/a.txt'']" "n_output_files demo_spec = 8" "output_dir demo_spec = ''output''" "user_id demo_spec = ''cs6210''"
    by (simp_all add: demo_spec_def)
  have "\<forall>i\<in>{0..<n_output_files demo_spec}. file_text (shared_disk t) (output_name (output_dir demo_spec) i) =
      word_count_text (\<lambda>k. of_nat (length k)) (n_output_files demo_spec) (input_words (contents job_disk) (input_files demo_spec)) i"
  proof (rule job_counts_words [OF run])
    show "\<exists>s. reachable (sys_init demo_spec shards job_disk) (sys_step (\<lambda>k. of_nat (length k)) demo_factory) s \<and> pc (master s) = Returned \<and>
        shared_disk s = shared_disk t" if "?run demo_spec shards = Some (Inr True)" for shards using that t by auto
  qed (use job_spec job_input in \<open>simp_all add: spec job_disk_def job_words INT_MAX_def\<close>)
  then have "file_text (shared_disk t) (output_name ''output'' 2) = ''be 2'' @ newline # ''or 1'' @ newline # ''to 2'' @ [newline]"
    using job_text by (simp add: spec job_words job_disk_def)
  then show ?thesis using run by blast
qed

end
