(* ===== verification/WorkerServer.thy ===== *)
theory WorkerServer
  imports UserTasks "HOL-Library.Multiset"
begin

text \<open>
  The server side of a MapReduce worker: the state machines of the three request classes of
  \<^verbatim>\<open>project4/src/worker_request.cc\<close> and the two event loops of \<^verbatim>\<open>project4/src/worker.cc\<close>. Objects live at addresses of a heap;
  the tag of an event is the address of its object. What gRPC does is a step of the environment: a call arrives for an object that
  has registered for one of its kind, and the reply of a ping may find its caller gone.

  The lemmas show that no deleted object is touched, that there always is exactly one object of every kind for the next
  call, and that every call is answered once, with the result of its job.
\<close>

section \<open>Requests\<close>

datatype RequestStatus = CREATE | PROCESS | FINISH

datatype request_class = MapRequest | ReduceRequest | PingRequest

datatype query = MapQ MapQuery | ReduceQ ReduceQuery | PingQ string

datatype result = MapResult "string list" | ReduceResult string | PingResult string

record Request =
  req_class :: request_class
  worker_ip_addr :: string
  status :: RequestStatus
  request :: "query option"
  reply :: "result option"

text \<open>
  The user functions and \<open>std::hash\<close> are parameters of the jobs. \<open>registered\<close> holds the objects that wait for
  a call, \<open>arrived\<close> and \<open>answered\<close> record the calls and the replies.
\<close>

record worker_env =
  w_hash :: "string \<Rightarrow> u64"
  w_factory :: factory

record worker =
  requests :: "nat \<Rightarrow> Request option"
  next_addr :: nat
  registered :: "nat list"
  map_reduce_queue :: "nat list"
  ping_queue :: "nat list"
  disk :: filesystem
  arrived :: "query list"
  answered :: "(query \<times> result) list"
  crashed :: "c_fault option"

definition crash :: "c_fault \<Rightarrow> worker \<Rightarrow> worker" where
  "crash e s = s\<lparr>crashed := Some e\<rparr>"

text \<open>The branches of \<open>Proceed\<close> that the classes share.\<close>

definition register_call :: "nat \<Rightarrow> Request \<Rightarrow> worker \<Rightarrow> worker" where
  "register_call this r s = s\<lparr>requests := (requests s)(this \<mapsto> r\<lparr>status := PROCESS\<rparr>), registered := registered s @ [this]\<rparr>"

definition delete_this :: "nat \<Rightarrow> worker \<Rightarrow> worker" where
  "delete_this this s = s\<lparr>requests := (requests s)(this := None)\<rparr>"

text \<open>A constructor runs the first branch of \<open>Proceed\<close>.\<close>

definition new_Request :: "request_class \<Rightarrow> string \<Rightarrow> worker \<Rightarrow> worker" where
  "new_Request c ip_addr s = register_call (next_addr s)
     \<lparr>req_class = c, worker_ip_addr = ip_addr, status = CREATE, request = None, reply = None\<rparr> (s\<lparr>next_addr := Suc (next_addr s)\<rparr>)"

definition post :: "request_class \<Rightarrow> nat \<Rightarrow> worker \<Rightarrow> worker" where
  "post c this s = (if c = PingRequest then s\<lparr>ping_queue := ping_queue s @ [this]\<rparr> else s\<lparr>map_reduce_queue := map_reduce_queue s @ [this]\<rparr>)"

definition Finish :: "nat \<Rightarrow> Request \<Rightarrow> query \<Rightarrow> result \<Rightarrow> worker \<Rightarrow> worker" where
  "Finish this r q res s =
     post (req_class r) this (s\<lparr>requests := (requests s)(this \<mapsto> r\<lparr>reply := Some res, status := FINISH\<rparr>),
       answered := answered s @ [(q, res)]\<rparr>)"

definition MapRequest_Proceed :: "worker_env \<Rightarrow> nat \<Rightarrow> Request \<Rightarrow> worker \<Rightarrow> worker" where
  "MapRequest_Proceed env this r s = (case status r of
       CREATE \<Rightarrow> register_call this r s
     | PROCESS \<Rightarrow>
         let s = new_Request MapRequest (worker_ip_addr r) s
         in (case request r of
               Some (MapQ q) \<Rightarrow>
                 (case handle_map_job (w_hash env) (w_factory env) (worker_ip_addr r) q (disk s) of
                    Inl e \<Rightarrow> crash e s
                  | Inr (names, fs) \<Rightarrow> Finish this r (MapQ q) (MapResult names) (s\<lparr>disk := fs\<rparr>))
             | _ \<Rightarrow> crash BadPointer s)
     | FINISH \<Rightarrow> delete_this this s)"

definition ReduceRequest_Proceed :: "worker_env \<Rightarrow> nat \<Rightarrow> Request \<Rightarrow> worker \<Rightarrow> worker" where
  "ReduceRequest_Proceed env this r s = (case status r of
       CREATE \<Rightarrow> register_call this r s
     | PROCESS \<Rightarrow>
         let s = new_Request ReduceRequest (worker_ip_addr r) s
         in (case request r of
               Some (ReduceQ q) \<Rightarrow>
                 (case handle_reduce_job (w_factory env) q (disk s) of
                    Inl e \<Rightarrow> crash e s
                  | Inr (f, fs) \<Rightarrow> Finish this r (ReduceQ q) (ReduceResult f) (s\<lparr>disk := fs\<rparr>))
             | _ \<Rightarrow> crash BadPointer s)
     | FINISH \<Rightarrow> delete_this this s)"

definition PingRequest_Proceed :: "nat \<Rightarrow> Request \<Rightarrow> worker \<Rightarrow> worker" where
  "PingRequest_Proceed this r s = (case status r of
       CREATE \<Rightarrow> register_call this r s
     | PROCESS \<Rightarrow>
         let s = new_Request PingRequest (worker_ip_addr r) s
         in (case request r of
               Some (PingQ q) \<Rightarrow> Finish this r (PingQ q) (PingResult (worker_ip_addr r)) s
             | _ \<Rightarrow> crash BadPointer s)
     | FINISH \<Rightarrow> delete_this this s)"

text \<open>The virtual call \<open>static_cast<Request *>(tag)->Proceed()\<close>.\<close>

definition Request_Proceed :: "worker_env \<Rightarrow> nat \<Rightarrow> worker \<Rightarrow> worker" where
  "Request_Proceed env this s = (case requests s this of
       None \<Rightarrow> crash BadPointer s
     | Some r \<Rightarrow> (case req_class r of
           MapRequest \<Rightarrow> MapRequest_Proceed env this r s
         | ReduceRequest \<Rightarrow> ReduceRequest_Proceed env this r s
         | PingRequest \<Rightarrow> PingRequest_Proceed this r s))"

section \<open>The event loops\<close>

definition worker_start :: "string \<Rightarrow> filesystem \<Rightarrow> worker outcome" where
  "worker_start ip_addr_port fs =
     bnd (port_num ip_addr_port) (\<lambda>port.
       Inr (new_Request PingRequest ip_addr_port (new_Request ReduceRequest port (new_Request MapRequest port
         \<lparr>requests = Map.empty, next_addr = 0, registered = [], map_reduce_queue = [], ping_queue = [], disk = fs, arrived = [],
          answered = [], crashed = None\<rparr>))))"

fun class_of :: "query \<Rightarrow> request_class" where
  "class_of (MapQ q) = MapRequest"
| "class_of (ReduceQ q) = ReduceRequest"
| "class_of (PingQ q) = PingRequest"

text \<open>gRPC fills the request of an object that has registered for calls of its class and posts the event.\<close>

definition call_arrives :: "query \<Rightarrow> nat \<Rightarrow> Request \<Rightarrow> worker \<Rightarrow> worker" where
  "call_arrives q this r s = post (req_class r) this
     (s\<lparr>requests := (requests s)(this \<mapsto> r\<lparr>request := Some q\<rparr>), arrived := arrived s @ [q]\<rparr>)"

text \<open>
  \<open>process_map_reduce_request\<close> prints a message when an event is not \<open>ok\<close> and goes on; \<open>process_ping_request\<close>
  asserts that every event is \<open>ok\<close>, but the event of a reply is not when its caller is gone.
\<close>

inductive worker_step :: "worker_env \<Rightarrow> worker \<Rightarrow> worker \<Rightarrow> bool" for env where
  arrive: "crashed s = None \<Longrightarrow> registered s = A @ this # B \<Longrightarrow> requests s this = Some r \<Longrightarrow> req_class r = class_of q \<Longrightarrow>
    worker_step env s (call_arrives q this r (s\<lparr>registered := A @ B\<rparr>))"
| map_reduce_event: "crashed s = None \<Longrightarrow> map_reduce_queue s = A @ this # B \<Longrightarrow>
    worker_step env s (Request_Proceed env this (s\<lparr>map_reduce_queue := A @ B\<rparr>))"
| ping_event: "crashed s = None \<Longrightarrow> ping_queue s = A @ this # B \<Longrightarrow>
    worker_step env s (Request_Proceed env this (s\<lparr>ping_queue := A @ B\<rparr>))"
| ping_not_ok: "crashed s = None \<Longrightarrow> ping_queue s = A @ this # B \<Longrightarrow> requests s this = Some r \<Longrightarrow> status r = FINISH \<Longrightarrow>
    worker_step env s (crash AssertFailed (s\<lparr>ping_queue := A @ B\<rparr>))"

definition worker_init :: "string \<Rightarrow> filesystem \<Rightarrow> worker \<Rightarrow> bool" where
  "worker_init ip_addr_port fs s \<longleftrightarrow> worker_start ip_addr_port fs = Inr s"

section \<open>Invariant\<close>

text \<open>The job of a call, whatever its class.\<close>

fun run_job :: "worker_env \<Rightarrow> string \<Rightarrow> query \<Rightarrow> filesystem \<Rightarrow> (result \<times> filesystem) outcome" where
  "run_job env ip (MapQ q) fs = bnd (handle_map_job (w_hash env) (w_factory env) ip q fs) (\<lambda>(names, fs). Inr (MapResult names, fs))"
| "run_job env ip (ReduceQ q) fs = bnd (handle_reduce_job (w_factory env) q fs) (\<lambda>(f, fs). Inr (ReduceResult f, fs))"
| "run_job env ip (PingQ q) fs = Inr (PingResult ip, fs)"

definition job_addr :: "string \<Rightarrow> string \<Rightarrow> request_class \<Rightarrow> string" where
  "job_addr ip port c = (if c = PingRequest then ip else port)"

definition queue_of :: "request_class \<Rightarrow> worker \<Rightarrow> nat list" where
  "queue_of c s = (if c = PingRequest then ping_queue s else map_reduce_queue s)"

definition ids :: "worker \<Rightarrow> nat list" where
  "ids s = registered s @ map_reduce_queue s @ ping_queue s"

definition to_register :: "Request \<Rightarrow> bool" where
  "to_register r \<longleftrightarrow> status r = PROCESS \<and> request r = None \<and> reply r = None"

definition to_handle :: "Request \<Rightarrow> bool" where
  "to_handle r \<longleftrightarrow> status r = PROCESS \<and> reply r = None \<and> (\<exists>q. request r = Some q \<and> class_of q = req_class r) \<or> status r = FINISH"

definition obj_ok :: "string \<Rightarrow> string \<Rightarrow> worker \<Rightarrow> nat \<Rightarrow> bool" where
  "obj_ok ip port s i \<longleftrightarrow> (\<exists>r. requests s i = Some r \<and> worker_ip_addr r = job_addr ip port (req_class r) \<and>
     (i \<in> set (registered s) \<longrightarrow> to_register r) \<and> (i \<in> set (map_reduce_queue s) \<longrightarrow> req_class r \<noteq> PingRequest \<and> to_handle r) \<and>
     (i \<in> set (ping_queue s) \<longrightarrow> req_class r = PingRequest \<and> to_handle r))"

definition accepts :: "request_class \<Rightarrow> Request option \<Rightarrow> nat" where
  "accepts c x = (case x of None \<Rightarrow> 0 | Some r \<Rightarrow> of_bool (req_class r = c \<and> status r = PROCESS))"

definition asked :: "Request option \<Rightarrow> query multiset" where
  "asked x = (case x of None \<Rightarrow> {#} | Some r \<Rightarrow> if status r = PROCESS then (case request r of None \<Rightarrow> {#} | Some q \<Rightarrow> {#q#}) else {#})"

definition worker_ok :: "worker_env \<Rightarrow> string \<Rightarrow> string \<Rightarrow> worker \<Rightarrow> bool" where
  "worker_ok env ip port s \<longleftrightarrow> distinct (ids s) \<and> set (ids s) = dom (requests s) \<and> (\<forall>i\<in>set (ids s). i < next_addr s) \<and>
     (\<forall>i\<in>set (ids s). obj_ok ip port s i) \<and> (\<forall>c. (\<Sum>i\<leftarrow>ids s. accepts c (requests s i)) = 1) \<and>
     mset (arrived s) = mset (map fst (answered s)) + (\<Sum>i\<leftarrow>ids s. asked (requests s i))"

definition answers_ok :: "worker_env \<Rightarrow> string \<Rightarrow> string \<Rightarrow> worker \<Rightarrow> bool" where
  "answers_ok env ip port s \<longleftrightarrow>
     (\<forall>(q, res)\<in>set (answered s). \<exists>fs fs'. run_job env (job_addr ip port (class_of q)) q fs = Inr (res, fs'))"

definition crash_ok :: "worker_env \<Rightarrow> string \<Rightarrow> string \<Rightarrow> worker \<Rightarrow> bool" where
  "crash_ok env ip port s \<longleftrightarrow> (case crashed s of None \<Rightarrow> True
     | Some e \<Rightarrow> e = AssertFailed \<or> (\<exists>q\<in>set (arrived s). \<exists>fs. run_job env (job_addr ip port (class_of q)) q fs = Inl e))"

definition worker_inv :: "worker_env \<Rightarrow> string \<Rightarrow> string \<Rightarrow> worker \<Rightarrow> bool" where
  "worker_inv env ip port s \<longleftrightarrow> answers_ok env ip port s \<and> crash_ok env ip port s \<and> (crashed s = None \<longrightarrow> worker_ok env ip port s)"

lemma worker_okD:
  assumes "worker_ok env ip port s"
  shows "distinct (ids s)" and "set (ids s) = dom (requests s)" and "\<And>i. i \<in> set (ids s) \<Longrightarrow> i < next_addr s"
    and "\<And>i. i \<in> set (ids s) \<Longrightarrow> obj_ok ip port s i" and "\<And>c. (\<Sum>i\<leftarrow>ids s. accepts c (requests s i)) = 1"
    and "mset (arrived s) = mset (map fst (answered s)) + (\<Sum>i\<leftarrow>ids s. asked (requests s i))"
  using assms unfolding worker_ok_def by blast+

lemma sum_list_perm:
  fixes f :: "'a \<Rightarrow> 'b::comm_monoid_add"
  assumes "mset xs = mset ys"
  shows "(\<Sum>x\<leftarrow>xs. f x) = (\<Sum>x\<leftarrow>ys. f x)"
proof -
  have "mset (map f xs) = mset (map f ys)" using assms by simp
  then show ?thesis by (metis sum_mset_sum_list)
qed

text \<open>One object changes, one may be added: what a step does to the sums over all objects.\<close>

lemma ids_sum_upd:
  fixes g :: "Request option \<Rightarrow> 'b::comm_monoid_add"
  assumes "mset (ids s) = mset (i # xs)" and "i \<notin> set xs" and "\<And>j. j \<in> set xs \<Longrightarrow> requests t j = requests s j"
  shows "(\<Sum>j\<leftarrow>ids s. g (requests s j)) = g (requests s i) + (\<Sum>j\<leftarrow>xs. g (requests s j))"
    and "(\<Sum>j\<leftarrow>xs. g (requests t j)) = (\<Sum>j\<leftarrow>xs. g (requests s j))"
proof -
  show "(\<Sum>j\<leftarrow>ids s. g (requests s j)) = g (requests s i) + (\<Sum>j\<leftarrow>xs. g (requests s j))"
    using sum_list_perm [OF assms(1), of "\<lambda>j. g (requests s j)"] by simp
  show "(\<Sum>j\<leftarrow>xs. g (requests t j)) = (\<Sum>j\<leftarrow>xs. g (requests s j))"
    by (intro arg_cong [where f = sum_list] map_cong refl) (simp add: assms(3))
qed

lemma mset_balance:
  fixes a b c d x y z :: "'a multiset"
  assumes "a + b + c = d + x + y" and "d = b + (c + z)"
  shows "a = x + (y + z)"
proof -
  have "a + (b + c) = (x + (y + z)) + (b + c)" using assms(1) unfolding assms(2) by (simp add: ac_simps)
  then show ?thesis by simp
qed

lemma worker_ok_upd:
  assumes ok: "worker_ok env ip port s" and i: "mset (ids s) = mset (i # xs)" and t: "mset (ids t) = mset (new @ xs)"
    and d: "distinct new" "set new \<inter> set xs = {}" and same: "\<And>j. j \<in> set xs \<Longrightarrow> requests t j = requests s j"
    and dm: "dom (requests t) = set new \<union> set xs" and na: "next_addr s \<le> next_addr t" "\<And>j. j \<in> set new \<Longrightarrow> j < next_addr t"
    and obj: "\<And>j. j \<in> set new \<Longrightarrow> obj_ok ip port t j"
    and places: "\<And>j. j \<in> set xs \<Longrightarrow> (j \<in> set (registered t) \<longleftrightarrow> j \<in> set (registered s)) \<and>
      (j \<in> set (map_reduce_queue t) \<longleftrightarrow> j \<in> set (map_reduce_queue s)) \<and> (j \<in> set (ping_queue t) \<longleftrightarrow> j \<in> set (ping_queue s))"
    and acc: "\<And>c. (\<Sum>j\<leftarrow>new. accepts c (requests t j)) = accepts c (requests s i)"
    and qs: "mset (arrived t) + mset (map fst (answered s)) + asked (requests s i) =
      mset (arrived s) + mset (map fst (answered t)) + (\<Sum>j\<leftarrow>new. asked (requests t j))"
  shows "worker_ok env ip port t"
  unfolding worker_ok_def
proof (intro conjI ballI allI)
  note W = worker_okD [OF ok]
  have "distinct (i # xs)" using W(1) mset_eq_imp_distinct_iff [OF i] by blast
  then have xs: "distinct xs" "i \<notin> set xs" by simp_all
  have sets: "set (ids s) = insert i (set xs)" "set (ids t) = set new \<union> set xs" using mset_eq_setD [OF i] mset_eq_setD [OF t] by simp_all
  show "distinct (ids t)" using mset_eq_imp_distinct_iff [OF t] d xs by simp
  show "set (ids t) = dom (requests t)" using sets dm by simp
  show "j < next_addr t" if "j \<in> set (ids t)" for j using that sets W(3) [of j] na by force
  show "obj_ok ip port t j" if j: "j \<in> set (ids t)" for j
  proof (cases "j \<in> set new")
    case False
    then have "j \<in> set xs" using j sets by simp
    then show ?thesis using W(4) [of j] sets places same by (simp add: obj_ok_def)
  qed (rule obj)
  have sum_t: "(\<Sum>j\<leftarrow>ids t. g (requests t j)) = (\<Sum>j\<leftarrow>new. g (requests t j)) + (\<Sum>j\<leftarrow>xs. g (requests s j))"
    for g :: "Request option \<Rightarrow> 'x::comm_monoid_add"
    using sum_list_perm [OF t, of "\<lambda>j. g (requests t j)"] ids_sum_upd(2) [OF i xs(2) same, of g] by simp
  show "(\<Sum>j\<leftarrow>ids t. accepts c (requests t j)) = 1" for c
    unfolding sum_t acc using W(5) [of c] ids_sum_upd(1) [OF i xs(2) same, of "accepts c"] by simp
  have "mset (arrived s) = mset (map fst (answered s)) + (asked (requests s i) + (\<Sum>j\<leftarrow>xs. asked (requests s j)))"
    using W(6) ids_sum_upd(1) [OF i xs(2) same, of asked] by simp
  with qs show "mset (arrived t) = mset (map fst (answered t)) + (\<Sum>j\<leftarrow>ids t. asked (requests t j))"
    unfolding sum_t by (rule mset_balance)
qed

lemma queue_of_simps:
  "queue_of c (post c i s) = queue_of c s @ [i]" "requests (post c i s) = requests s" "registered (post c i s) = registered s"
  "next_addr (post c i s) = next_addr s" "arrived (post c i s) = arrived s" "answered (post c i s) = answered s"
  "crashed (post c i s) = crashed s" "mset (ids (post c i s)) = add_mset i (mset (ids s))"
  by (simp_all add: queue_of_def post_def ids_def)

lemma obj_okD:
  assumes "worker_ok env ip port s" and "i \<in> set (ids s)"
  obtains r where "requests s i = Some r" and "worker_ip_addr r = job_addr ip port (req_class r)" and "i < next_addr s"
    and "i \<in> set (registered s) \<Longrightarrow> to_register r" and "i \<in> set (map_reduce_queue s) \<Longrightarrow> req_class r \<noteq> PingRequest \<and> to_handle r"
    and "i \<in> set (ping_queue s) \<Longrightarrow> req_class r = PingRequest \<and> to_handle r"
  using worker_okD(3,4) [OF assms] unfolding obj_ok_def by blast

lemma arrive_ok:
  assumes ok: "worker_ok env ip port s" and reg: "registered s = A @ this # B" and r: "requests s this = Some r" "req_class r = class_of q"
    and t: "t = call_arrives q this r (s\<lparr>registered := A @ B\<rparr>)"
  shows "worker_ok env ip port t \<and> crashed t = crashed s \<and> answered t = answered s \<and> arrived t = arrived s @ [q]"
proof -
  note W = worker_okD [OF ok]
  let ?xs = "A @ B @ map_reduce_queue s @ ping_queue s"
  have i: "mset (ids s) = mset (this # ?xs)" by (simp add: ids_def reg)
  have nin: "this \<notin> set ?xs" using W(1) mset_eq_imp_distinct_iff [OF i] by simp
  have "this \<in> set (ids s)" by (simp add: ids_def reg)
  from obj_okD [OF ok this] r(1) reg have o: "worker_ip_addr r = job_addr ip port (req_class r)" "this < next_addr s" "to_register r" by auto
  have f: "requests t = (requests s)(this \<mapsto> r\<lparr>request := Some q\<rparr>)" "registered t = A @ B" "next_addr t = next_addr s" "arrived t = arrived s @ [q]"
    "answered t = answered s" "crashed t = crashed s"
    "map_reduce_queue t = (if req_class r = PingRequest then map_reduce_queue s else map_reduce_queue s @ [this])"
    "ping_queue t = (if req_class r = PingRequest then ping_queue s @ [this] else ping_queue s)"
    by (simp_all add: t call_arrives_def post_def)
  have "worker_ok env ip port t"
  proof (rule worker_ok_upd [OF ok i, of t "[this]"])
    show "mset (ids t) = mset ([this] @ ?xs)" by (simp add: ids_def f)
    show "dom (requests t) = set [this] \<union> set ?xs" using W(2) mset_eq_setD [OF i] by (auto simp: f)
    show "obj_ok ip port t j" if "j \<in> set [this]" for j
      using that nin o r(2) by (auto simp: obj_ok_def f to_register_def to_handle_def)
    show "(\<Sum>j\<leftarrow>[this]. accepts c (requests t j)) = accepts c (requests s this)" for c by (simp add: f r(1) accepts_def)
    show "mset (arrived t) + mset (map fst (answered s)) + asked (requests s this) =
        mset (arrived s) + mset (map fst (answered t)) + (\<Sum>j\<leftarrow>[this]. asked (requests t j))"
      using o(3) by (simp add: f r(1) asked_def to_register_def)
  qed (use nin o(2) W(2) r(1) in \<open>auto simp: f reg\<close>)
  then show ?thesis using f by blast
qed

text \<open>An event loop takes an event of its queue.\<close>

definition takes :: "request_class \<Rightarrow> nat \<Rightarrow> nat list \<Rightarrow> nat list \<Rightarrow> worker \<Rightarrow> worker \<Rightarrow> bool" where
  "takes c this A B s u \<longleftrightarrow>
     (if c = PingRequest then ping_queue s = A @ this # B \<and> u = s\<lparr>ping_queue := A @ B\<rparr>
      else map_reduce_queue s = A @ this # B \<and> u = s\<lparr>map_reduce_queue := A @ B\<rparr>)"

lemma takes_frame:
  assumes "takes c this A B s u"
  shows "mset (ids s) = add_mset this (mset (ids u))" and "requests u = requests s" and "registered u = registered s"
    and "next_addr u = next_addr s" and "arrived u = arrived s" and "answered u = answered s" and "crashed u = crashed s" and "disk u = disk s"
    and "set (ping_queue u) \<subseteq> set (ping_queue s)" and "set (map_reduce_queue u) \<subseteq> set (map_reduce_queue s)"
    and "j \<noteq> this \<Longrightarrow> j \<in> set (ping_queue u) \<longleftrightarrow> j \<in> set (ping_queue s)"
    and "j \<noteq> this \<Longrightarrow> j \<in> set (map_reduce_queue u) \<longleftrightarrow> j \<in> set (map_reduce_queue s)"
    and "this \<in> set (queue_of c s)"
  using assms by (auto simp: takes_def ids_def queue_of_def split: if_splits)

lemma Request_Proceed_job:
  assumes "requests s this = Some r" and "status r = PROCESS" and "request r = Some q" and "class_of q = req_class r"
  shows "Request_Proceed env this s = (let u = new_Request (req_class r) (worker_ip_addr r) s in
     (case run_job env (worker_ip_addr r) q (disk s) of Inl e \<Rightarrow> crash e u | Inr (res, fs) \<Rightarrow> Finish this r q res (u\<lparr>disk := fs\<rparr>)))"
proof -
  have d: "disk (new_Request c ip s) = disk s" for c ip by (simp add: new_Request_def register_call_def)
  show ?thesis
  proof (cases q)
    case (MapQ m)
    then have "req_class r = MapRequest" using assms(4) by simp
    then show ?thesis using assms(1-3) MapQ d
      by (cases "handle_map_job (w_hash env) (w_factory env) (worker_ip_addr r) m (disk s)")
        (auto simp: Request_Proceed_def MapRequest_Proceed_def Let_def)
  next
    case (ReduceQ m)
    then have "req_class r = ReduceRequest" using assms(4) by simp
    then show ?thesis using assms(1-3) ReduceQ d
      by (cases "handle_reduce_job (w_factory env) m (disk s)") (auto simp: Request_Proceed_def ReduceRequest_Proceed_def Let_def)
  next
    case (PingQ m)
    then have "req_class r = PingRequest" using assms(4) by simp
    moreover have "(new_Request c ip s)\<lparr>disk := disk s\<rparr> = new_Request c ip s" for c ip using d [of c ip] by (metis worker.surjective worker.update_convs(6))
    ultimately show ?thesis using assms(1-3) PingQ by (simp add: Request_Proceed_def PingRequest_Proceed_def Let_def)
  qed
qed

lemma Request_Proceed_delete: "requests s this = Some r \<Longrightarrow> status r = FINISH \<Longrightarrow> Request_Proceed env this s = delete_this this s"
  by (cases "req_class r") (simp_all add: Request_Proceed_def MapRequest_Proceed_def ReduceRequest_Proceed_def PingRequest_Proceed_def)

text \<open>What a queue holds.\<close>

lemma queued_obj:
  assumes ok: "worker_ok env ip port s" and tk: "takes c this A B s u" and r: "requests s this = Some r"
    and c: "c = PingRequest \<longleftrightarrow> req_class r = PingRequest"
  shows "this < next_addr s" and "worker_ip_addr r = job_addr ip port (req_class r)" and "to_handle r" and "this \<notin> set (ids u)"
    and "distinct (ids u)" and "next_addr s \<notin> set (ids s)"
proof -
  note W = worker_okD [OF ok] and tf = takes_frame [OF tk]
  have "this \<in> set (ids s)" using tf(1) by (metis insert_iff set_mset_add_mset_insert set_mset_mset)
  from W(4) [OF this] r have o: "worker_ip_addr r = job_addr ip port (req_class r)" "this \<in> set (map_reduce_queue s) \<Longrightarrow> to_handle r"
    "this \<in> set (ping_queue s) \<Longrightarrow> to_handle r" by (simp_all add: obj_ok_def)
  show "this < next_addr s" by (rule W(3)) fact
  show "worker_ip_addr r = job_addr ip port (req_class r)" by (rule o)
  show "to_handle r" using tf(13) o(2,3) by (cases "c = PingRequest") (simp_all add: queue_of_def)
  have "distinct (this # ids u)" using W(1) mset_eq_imp_distinct_iff [of "ids s" "this # ids u"] tf(1) by simp
  then show "this \<notin> set (ids u)" "distinct (ids u)" by simp_all
  show "next_addr s \<notin> set (ids s)" using W(3) by blast
qed

lemma finish_ok:
  assumes ok: "worker_ok env ip port s" and tk: "takes c this A B s u" and r: "requests s this = Some r"
    and c: "c = PingRequest \<longleftrightarrow> req_class r = PingRequest" and "status r = FINISH"
  shows "worker_ok env ip port (delete_this this u)"
proof -
  note W = worker_okD [OF ok] and tf = takes_frame [OF tk] and qo = queued_obj [OF ok tk r c]
  have i: "mset (ids s) = mset (this # ids u)" using tf(1) by simp
  show ?thesis
  proof (rule worker_ok_upd [OF ok i, of _ "[]"])
    show "mset (ids (delete_this this u)) = mset ([] @ ids u)" by (simp add: delete_this_def ids_def)
    show "requests (delete_this this u) j = requests s j" if "j \<in> set (ids u)" for j using that qo(4) tf(2) by (auto simp: delete_this_def)
    show "dom (requests (delete_this this u)) = set [] \<union> set (ids u)" using W(2) mset_eq_setD [OF i] qo(4) tf(2) by (auto simp: delete_this_def)
    show "(j \<in> set (registered (delete_this this u)) \<longleftrightarrow> j \<in> set (registered s)) \<and>
        (j \<in> set (map_reduce_queue (delete_this this u)) \<longleftrightarrow> j \<in> set (map_reduce_queue s)) \<and>
        (j \<in> set (ping_queue (delete_this this u)) \<longleftrightarrow> j \<in> set (ping_queue s))" if "j \<in> set (ids u)" for j
    proof -
      have "j \<noteq> this" using that qo(4) by auto
      then show ?thesis using tf(3,11,12) by (simp add: delete_this_def)
    qed
  qed (use assms(5) tf in \<open>auto simp: delete_this_def accepts_def asked_def r\<close>)
qed

lemma job_ok:
  assumes ok: "worker_ok env ip port s" and tk: "takes c this A B s u" and r: "requests s this = Some r" "status r = PROCESS" "request r = Some q"
    "class_of q = req_class r" and c: "c = PingRequest \<longleftrightarrow> req_class r = PingRequest" and rep: "reply r = None"
    and t: "t = Finish this r q res ((new_Request (req_class r) (worker_ip_addr r) u)\<lparr>disk := fs\<rparr>)"
  shows "worker_ok env ip port t" and "answered t = answered s @ [(q, res)]" and "arrived t = arrived s" and "crashed t = crashed s"
proof -
  note W = worker_okD [OF ok] and tf = takes_frame [OF tk] and qo = queued_obj [OF ok tk r(1) c]
  let ?n = "next_addr s" and ?nr = "\<lparr>req_class = req_class r, worker_ip_addr = worker_ip_addr r, status = PROCESS, request = None, reply = None\<rparr>"
  have i: "mset (ids s) = mset (this # ids u)" using tf(1) by simp
  have ne: "?n \<noteq> this" "?n \<notin> set (ids u)" using qo(1,6) mset_eq_setD [OF i] by auto
  have f: "requests t = (requests s)(?n \<mapsto> ?nr, this \<mapsto> r\<lparr>reply := Some res, status := FINISH\<rparr>)" "registered t = registered s @ [?n]"
    "next_addr t = Suc ?n" "mset (ids t) = add_mset this (add_mset ?n (mset (ids u)))" "queue_of (req_class r) t = queue_of (req_class r) u @ [this]"
    "ping_queue t = (if req_class r = PingRequest then ping_queue u @ [this] else ping_queue u)"
    "map_reduce_queue t = (if req_class r = PingRequest then map_reduce_queue u else map_reduce_queue u @ [this])"
    "answered t = answered s @ [(q, res)]" "arrived t = arrived s" "crashed t = crashed s"
    using tf ne(1) by (simp_all add: t Finish_def queue_of_simps new_Request_def register_call_def ids_def post_def queue_of_def)
  show "worker_ok env ip port t"
  proof (rule worker_ok_upd [OF ok i, of t "[this, ?n]"])
    show "mset (ids t) = mset ([this, ?n] @ ids u)" by (simp add: f)
    show "requests t j = requests s j" if "j \<in> set (ids u)" for j using that qo(4) ne by (auto simp: f)
    show "dom (requests t) = set [this, ?n] \<union> set (ids u)" using W(2) mset_eq_setD [OF i] r(1) by (auto simp: f)
    show "obj_ok ip port t j" if "j \<in> set [this, ?n]" for j
    proof -
      have "this \<notin> set (registered s)" "?n \<notin> set (ping_queue u)" "?n \<notin> set (map_reduce_queue u)" "this \<notin> set (ping_queue u)"
        "this \<notin> set (map_reduce_queue u)" using qo(4) ne(2) tf(3) by (auto simp: ids_def)
      then show ?thesis using that ne(1) qo(2) by (auto simp: obj_ok_def f to_register_def to_handle_def job_addr_def)
    qed
    show "(j \<in> set (registered t) \<longleftrightarrow> j \<in> set (registered s)) \<and> (j \<in> set (map_reduce_queue t) \<longleftrightarrow> j \<in> set (map_reduce_queue s)) \<and>
        (j \<in> set (ping_queue t) \<longleftrightarrow> j \<in> set (ping_queue s))" if "j \<in> set (ids u)" for j
    proof -
      have "j \<noteq> this" "j \<noteq> ?n" using that qo(4) ne(2) by auto
      then show ?thesis using tf(11,12) by (auto simp: f)
    qed
    show "(\<Sum>j\<leftarrow>[this, ?n]. accepts d (requests t j)) = accepts d (requests s this)" for d using ne(1) r by (simp add: f accepts_def)
    show "mset (arrived t) + mset (map fst (answered s)) + asked (requests s this) =
        mset (arrived s) + mset (map fst (answered t)) + (\<Sum>j\<leftarrow>[this, ?n]. asked (requests t j))"
      using ne(1) r by (simp add: f asked_def)
  qed (use qo ne in \<open>auto simp: f less_Suc_eq\<close>)
  show "answered t = answered s @ [(q, res)]" "arrived t = arrived s" "crashed t = crashed s" by (rule f)+
qed

section \<open>Reachable states\<close>

lemma worker_start_ok:
  assumes "port_num ip = Inr port" and "worker_init ip fs s"
  shows "worker_inv env ip port s"
proof -
  have s: "requests s = [0 \<mapsto> \<lparr>req_class = MapRequest, worker_ip_addr = port, status = PROCESS, request = None, reply = None\<rparr>,
      1 \<mapsto> \<lparr>req_class = ReduceRequest, worker_ip_addr = port, status = PROCESS, request = None, reply = None\<rparr>,
      2 \<mapsto> \<lparr>req_class = PingRequest, worker_ip_addr = ip, status = PROCESS, request = None, reply = None\<rparr>]"
    "registered s = [0, 1, 2]" "next_addr s = 3" "map_reduce_queue s = []" "ping_queue s = []" "arrived s = []" "answered s = []" "crashed s = None"
    using assms by (auto simp: worker_init_def worker_start_def new_Request_def register_call_def)
  have "(\<Sum>i\<leftarrow>ids s. accepts c (requests s i)) = 1" for c by (cases c) (simp_all add: ids_def s accepts_def)
  moreover have "obj_ok ip port s i" if "i \<in> set (ids s)" for i
    using that by (auto simp: obj_ok_def ids_def s to_register_def job_addr_def)
  ultimately show ?thesis
    by (auto simp: worker_inv_def answers_ok_def crash_ok_def worker_ok_def ids_def s asked_def)
qed

text \<open>An event of an object: its job is run and answered, or ends the program, or the object is deleted.\<close>

lemma event_cases:
  assumes ok: "worker_ok env ip port s" and nc: "crashed s = None" and tk: "takes c this A B s u"
    and c: "\<And>r. requests s this = Some r \<Longrightarrow> c = PingRequest \<longleftrightarrow> req_class r = PingRequest"
  obtains (job) r q res fs where "requests s this = Some r" "request r = Some q" "class_of q = req_class r"
      "run_job env (job_addr ip port (class_of q)) q (disk s) = Inr (res, fs)"
      "worker_ok env ip port (Request_Proceed env this u)" "answered (Request_Proceed env this u) = answered s @ [(q, res)]"
      "arrived (Request_Proceed env this u) = arrived s" "crashed (Request_Proceed env this u) = None" "disk (Request_Proceed env this u) = fs"
    | (fault) q e where "q \<in> set (arrived s)" "run_job env (job_addr ip port (class_of q)) q (disk s) = Inl e"
      "answered (Request_Proceed env this u) = answered s" "arrived (Request_Proceed env this u) = arrived s" "crashed (Request_Proceed env this u) = Some e"
      "request (the (requests s this)) = Some q"
    | (delete) r where "requests s this = Some r" "status r = FINISH" "worker_ok env ip port (Request_Proceed env this u)"
      "answered (Request_Proceed env this u) = answered s" "arrived (Request_Proceed env this u) = arrived s" "crashed (Request_Proceed env this u) = None"
proof -
  note W = worker_okD [OF ok] and tf = takes_frame [OF tk]
  have "this \<in> set (ids s)" using tf(1) by (metis insert_iff set_mset_add_mset_insert set_mset_mset)
  then obtain r where r: "requests s this = Some r" using W(2) by blast
  note qo = queued_obj [OF ok tk r c [OF r]]
  have ru: "requests u this = Some r" using r tf(2) by simp
  consider "status r = FINISH" | q where "status r = PROCESS" "reply r = None" "request r = Some q" "class_of q = req_class r"
    using qo(3) by (auto simp: to_handle_def)
  then show thesis
  proof cases
    case 1
    then show thesis using delete [OF r 1] finish_ok [OF ok tk r c [OF r] 1] tf nc
      by (simp add: Request_Proceed_delete [OF ru 1]) (simp add: delete_this_def)
  next
    case (2 q)
    have addr: "worker_ip_addr r = job_addr ip port (class_of q)" using qo(2) 2(4) by simp
    note P = Request_Proceed_job [OF ru 2(1,3,4), of env, unfolded Let_def tf(8)]
    show thesis
    proof (cases "run_job env (worker_ip_addr r) q (disk s)")
      case (Inl e)
      have "q \<in># (\<Sum>i\<leftarrow>ids s. asked (requests s i))"
      proof -
        have "asked (requests s this) = {#q#}" using r 2 by (simp add: asked_def)
        then show ?thesis using split_list [OF \<open>this \<in> set (ids s)\<close>] by auto
      qed
      then have "q \<in> set (arrived s)" using arg_cong [OF W(6), of set_mset] by auto
      moreover have "Request_Proceed env this u = crash e (new_Request (req_class r) (worker_ip_addr r) u)" using P Inl by simp
      ultimately show thesis using fault [of q e] Inl tf r 2(3) by (simp add: addr crash_def new_Request_def register_call_def)
    next
      case (Inr x)
      then obtain res fs where x: "run_job env (worker_ip_addr r) q (disk s) = Inr (res, fs)" by (cases x) auto
      have t: "Request_Proceed env this u = Finish this r q res ((new_Request (req_class r) (worker_ip_addr r) u)\<lparr>disk := fs\<rparr>)" using P x by simp
      have "disk (Request_Proceed env this u) = fs" unfolding t by (simp add: Finish_def post_def)
      with job_ok [OF ok tk r 2(1,3,4) c [OF r] 2(2) t] show thesis using job [OF r 2(3,4)] x nc by (simp add: addr)
    qed
  qed
qed

lemma worker_event_inv:
  assumes inv: "worker_inv env ip port s" and nc: "crashed s = None" and tk: "takes c this A B s u"
    and c: "\<And>r. requests s this = Some r \<Longrightarrow> c = PingRequest \<longleftrightarrow> req_class r = PingRequest"
  shows "worker_inv env ip port (Request_Proceed env this u)"
proof -
  have ok: "worker_ok env ip port s" and an: "answers_ok env ip port s" using inv nc by (simp_all add: worker_inv_def)
  show ?thesis
  proof (cases rule: event_cases [OF ok nc tk c])
    case (2 r q res fs)
    then show ?thesis using an by (auto simp: worker_inv_def answers_ok_def crash_ok_def)
  next
    case (3 q e)
    then show ?thesis using an by (auto simp: worker_inv_def answers_ok_def crash_ok_def)
  next
    case (4 r)
    then show ?thesis using an by (auto simp: worker_inv_def answers_ok_def crash_ok_def)
  qed
qed

lemma queue_class:
  assumes "worker_ok env ip port s" and "requests s i = Some r"
  shows "i \<in> set (map_reduce_queue s) \<Longrightarrow> req_class r \<noteq> PingRequest" and "i \<in> set (ping_queue s) \<Longrightarrow> req_class r = PingRequest"
  using worker_okD(4) [OF assms(1), of i] assms(2) by (auto simp: ids_def obj_ok_def)

lemma worker_step_inv:
  assumes st: "worker_step env s t" and inv: "worker_inv env ip port s"
  shows "worker_inv env ip port t"
proof -
  have ok: "worker_ok env ip port s" if "crashed s = None" using inv that by (simp add: worker_inv_def)
  show ?thesis
    using st
  proof cases
    case (arrive A this B r q)
    then show ?thesis using arrive_ok [OF ok [OF arrive(2)] arrive(3-5,1)] inv
      by (auto simp: worker_inv_def answers_ok_def crash_ok_def)
  next
    case (map_reduce_event A this B)
    have "takes MapRequest this A B s (s\<lparr>map_reduce_queue := A @ B\<rparr>)" using map_reduce_event(3) by (simp add: takes_def)
    then show ?thesis unfolding map_reduce_event(1)
      using queue_class(1) [OF ok [OF map_reduce_event(2)]] map_reduce_event(3) by (intro worker_event_inv [OF inv map_reduce_event(2)]) auto
  next
    case (ping_event A this B)
    have "takes PingRequest this A B s (s\<lparr>ping_queue := A @ B\<rparr>)" using ping_event(3) by (simp add: takes_def)
    then show ?thesis unfolding ping_event(1)
      using queue_class(2) [OF ok [OF ping_event(2)]] ping_event(3) by (intro worker_event_inv [OF inv ping_event(2)]) auto
  next
    case (ping_not_ok A this B r)
    then show ?thesis using inv by (simp add: worker_inv_def answers_ok_def crash_ok_def crash_def)
  qed
qed

interpretation worker_inv: inductive_invariant "\<lambda>s. port_num ip = Inr port \<and> worker_init ip fs s" "worker_step env" "worker_inv env ip port" for ip port fs env
  by unfold_locales (auto intro: worker_start_ok worker_step_inv)

lemma worker_reachable_inv:
  assumes "port_num ip = Inr port" and "reachable (worker_init ip fs) (worker_step env) s"
  shows "worker_inv env ip port s"
proof (rule worker_inv.inv_reachable)
  show "reachable (\<lambda>s. port_num ip = Inr port \<and> worker_init ip fs s) (worker_step env) s"
    using assms(2) by induction (auto intro: reachable.intros assms(1))
qed

section \<open>Properties\<close>

lemma in_sum_list_mset: "y \<in># (\<Sum>x\<leftarrow>xs. f x) \<Longrightarrow> \<exists>x\<in>set xs. y \<in># f x"
  by (induction xs) auto

lemma sum_of_bool_ex1:
  assumes "(\<Sum>x\<leftarrow>xs. of_bool (P x)) = (1::nat)" and "distinct xs"
  shows "\<exists>!x. x \<in> set xs \<and> P x"
proof -
  have "(\<Sum>x\<leftarrow>xs. of_bool (P x)) = length (filter P xs)" by (induction xs) simp_all
  then obtain x where x: "filter P xs = [x]" using assms(1) by (cases "filter P xs") auto
  have eq: "y \<in> set xs \<and> P y \<longleftrightarrow> y = x" for y using arg_cong [OF x, of set] by auto
  show ?thesis unfolding eq by simp
qed

lemma one_acceptor:
  assumes "worker_ok env ip port s"
  shows "\<exists>!i. \<exists>r. requests s i = Some r \<and> req_class r = c \<and> status r = PROCESS"
proof -
  note W = worker_okD [OF assms]
  let ?P = "\<lambda>i. \<exists>r. requests s i = Some r \<and> req_class r = c \<and> status r = PROCESS"
  have "accepts c (requests s i) = of_bool (?P i)" for i by (cases "requests s i") (auto simp: accepts_def)
  then have "\<exists>!i. i \<in> set (ids s) \<and> ?P i" using sum_of_bool_ex1 [OF _ W(1), of ?P] W(5) [of c] by simp
  moreover have "?P i \<Longrightarrow> i \<in> set (ids s)" for i using W(2) by auto
  ultimately show ?thesis by blast
qed

text \<open>
  C9: A worker never touches a deleted request: it stops only with the fault of a job that it was sent, or when the caller of a
  ping is gone. Until then exactly one object of every class is there for the next call, calls are answered at
  most once, and every answer is the result of running its job.
\<close>

theorem worker_safe:
  assumes "port_num ip = Inr port" and "reachable (worker_init ip fs) (worker_step env) s"
  shows "(case crashed s of
        None \<Rightarrow> (\<forall>c. \<exists>!i. \<exists>r. requests s i = Some r \<and> req_class r = c \<and> status r = PROCESS) \<and> mset (map fst (answered s)) \<subseteq># mset (arrived s)
      | Some e \<Rightarrow> e = AssertFailed \<or> (\<exists>q\<in>set (arrived s). \<exists>d. run_job env (job_addr ip port (class_of q)) q d = Inl e)) \<and>
    (\<forall>(q, res)\<in>set (answered s). \<exists>d d'. run_job env (job_addr ip port (class_of q)) q d = Inr (res, d'))"
proof -
  note inv = worker_reachable_inv [OF assms]
  have "(\<forall>c. \<exists>!i. \<exists>r. requests s i = Some r \<and> req_class r = c \<and> status r = PROCESS) \<and> mset (map fst (answered s)) \<subseteq># mset (arrived s)"
    if "crashed s = None"
  proof -
    have ok: "worker_ok env ip port s" using inv that by (simp add: worker_inv_def)
    show ?thesis using one_acceptor [OF ok] worker_okD(6) [OF ok] by simp
  qed
  then show ?thesis using inv by (simp add: worker_inv_def answers_ok_def crash_ok_def split: option.splits)
qed

text \<open>
  A worker that counts words and has been sent a map job, a ping, which it has answered, and a reduce job on the file that
  the map job will write.
\<close>

definition idle_env :: worker_env where
  "idle_env = \<lparr>w_hash = (\<lambda>_. 0), w_factory = \<lparr>mappers = [''u'' \<mapsto> UserMapper_map], reducers = [''u'' \<mapsto> UserReducer_reduce]\<rparr>\<rparr>"

definition small_disk :: filesystem where
  "small_disk = \<lparr>contents = [''a.txt'' \<mapsto> ''to be''], writable = (\<lambda>_. True)\<rparr>"

definition small_job :: query where
  "small_job = MapQ \<lparr>mq_user_id = ''u'', mq_n_partitions = 1,
     mq_partitions = [\<lparr>sp_filename = ''a.txt'', sp_start = 0, sp_end = 5\<rparr>]\<rparr>"

definition small_reduce :: query where
  "small_reduce = ReduceQ \<lparr>rq_user_id = ''u'', rq_files = [''intermediate/0_1.txt''], rq_partition_id = 0, rq_output_dir = ''output''\<rparr>"

definition worker0 :: worker where
  "worker0 = projr (worker_start ''h:1'' small_disk)"

definition worker1 :: worker where
  "worker1 = call_arrives small_job 0 (the (requests worker0 0)) (worker0\<lparr>registered := [1, 2]\<rparr>)"

definition worker2 :: worker where
  "worker2 = call_arrives (PingQ ''h:1'') 2 (the (requests worker1 2)) (worker1\<lparr>registered := [1]\<rparr>)"

definition worker3 :: worker where
  "worker3 = Request_Proceed idle_env 2 (worker2\<lparr>ping_queue := []\<rparr>)"

definition worker4 :: worker where
  "worker4 = call_arrives small_reduce 1 (the (requests worker3 1)) (worker3\<lparr>registered := [3]\<rparr>)"

lemmas worker_demo_defs = worker0_def worker1_def worker2_def worker3_def worker4_def worker_start_def port_num_def substr_def find_first_def npos_def
  new_Request_def register_call_def call_arrives_def post_def small_job_def small_reduce_def Request_Proceed_def PingRequest_Proceed_def Finish_def

lemma demo_port: "port_num ''h:1'' = Inr ''1''"
  by (simp add: port_num_def substr_def find_first_def npos_def)

lemma worker_demo:
  "worker_start ''h:1'' small_disk = Inr worker0" "registered worker0 = [0, 1, 2]" "crashed worker0 = None" "requests worker0 0 \<noteq> None"
  "req_class (the (requests worker0 0)) = MapRequest" "registered worker1 = [1, 2]" "crashed worker1 = None" "requests worker1 2 \<noteq> None"
  "req_class (the (requests worker1 2)) = PingRequest" "ping_queue worker2 = [2]" "crashed worker2 = None" "crashed worker3 = None"
  "answered worker3 = [(PingQ ''h:1'', PingResult ''h:1'')]" "arrived worker3 = [small_job, PingQ ''h:1'']"
  "registered worker3 = [1, 3]" "requests worker3 1 \<noteq> None" "req_class (the (requests worker3 1)) = ReduceRequest" "crashed worker4 = None"
  "arrived worker4 = [small_job, PingQ ''h:1'', small_reduce]" "answered worker4 = [(PingQ ''h:1'', PingResult ''h:1'')]" "disk worker4 = small_disk"
  by (simp_all add: worker_demo_defs)

lemma worker_demo_reach: "reachable (worker_init ''h:1'' small_disk) (worker_step idle_env) worker3"
proof -
  have "reachable (worker_init ''h:1'' small_disk) (worker_step idle_env) worker0"
    by (rule reachable_start) (simp add: worker_init_def worker_demo(1))
  moreover have "worker_step idle_env worker0 worker1"
    using arrive [of worker0 "[]" 0 "[1, 2]" "the (requests worker0 0)" small_job idle_env] worker_demo by (auto simp: worker1_def small_job_def)
  ultimately have "reachable (worker_init ''h:1'' small_disk) (worker_step idle_env) worker1" by (rule reachable_step)
  moreover have "worker_step idle_env worker1 worker2"
    using arrive [of worker1 "[1]" 2 "[]" "the (requests worker1 2)" "PingQ ''h:1''" idle_env] worker_demo by (auto simp: worker2_def)
  ultimately have "reachable (worker_init ''h:1'' small_disk) (worker_step idle_env) worker2" by (rule reachable_step)
  moreover have "worker_step idle_env worker2 worker3"
    using ping_event [of worker2 "[]" 2 "[]" idle_env] worker_demo by (simp add: worker3_def)
  ultimately show ?thesis by (rule reachable_step)
qed

theorem worker_safe_witness:
  "mset (map fst (answered worker3)) \<subseteq># mset (arrived worker3) \<and>
   (\<exists>!i. \<exists>r. requests worker3 i = Some r \<and> req_class r = PingRequest \<and> status r = PROCESS)"
  using worker_safe [OF demo_port worker_demo_reach] worker_demo(12) by simp

text \<open>Jobs run one after the other: their results and the disk behind them, or the first fault.\<close>

fun run_jobs :: "worker_env \<Rightarrow> string \<Rightarrow> string \<Rightarrow> query list \<Rightarrow> filesystem \<Rightarrow> ((query \<times> result) list \<times> filesystem) outcome" where
  "run_jobs env ip port [] fs = Inr ([], fs)"
| "run_jobs env ip port (q # qs) fs =
     bnd (run_job env (job_addr ip port (class_of q)) q fs) (\<lambda>(res, fs).
     bnd (run_jobs env ip port qs fs) (\<lambda>(answers, fs). Inr ((q, res) # answers, fs)))"

lemma run_jobs_queries: "run_jobs env ip port qs fs = Inr (answers, fs') \<Longrightarrow> map fst answers = qs"
  by (induction qs arbitrary: fs answers) (auto simp: bnd_eq_Inr)

lemma pending_object:
  assumes ok: "worker_ok env ip port s" and "crashed s = None" and "q \<in># (\<Sum>i\<leftarrow>ids s. asked (requests s i))"
  obtains c i r A B u where "takes c i A B s u" and "worker_step env s (Request_Proceed env i u)"
    and "requests s i = Some r" and "status r = PROCESS" and "request r = Some q"
    and "c = PingRequest \<longleftrightarrow> req_class r = PingRequest"
proof -
  note W = worker_okD [OF ok]
  obtain i where i: "i \<in> set (ids s)" "q \<in># asked (requests s i)"
    using in_sum_list_mset [OF assms(3)] by blast
  then obtain r where r: "requests s i = Some r" "status r = PROCESS" "request r = Some q"
    by (auto simp: asked_def split: option.splits if_splits)
  have ob: "obj_ok ip port s i" by (rule W(4) [OF i(1)])
  then have "i \<notin> set (registered s)" using r by (auto simp: obj_ok_def to_register_def)
  then have "i \<in> set (queue_of (req_class r) s)" using i(1) ob r(1) by (auto simp: ids_def obj_ok_def queue_of_def)
  then obtain A B u where tk: "takes (req_class r) i A B s u" by (auto simp: takes_def queue_of_def in_set_conv_decomp split: if_splits)
  have st: "worker_step env s (Request_Proceed env i u)"
    using tk map_reduce_event [OF assms(2), of A i B env] ping_event [OF assms(2), of A i B env]
    by (auto simp: takes_def split: if_splits)
  show thesis by (rule that [OF tk st r refl])
qed

lemma pending_answered:
  assumes "worker_ok env ip port s" and "crashed s = None" and tk: "takes c i A B s u"
    and r: "requests s i = Some r" "status r = PROCESS" "request r = Some q" and c: "c = PingRequest \<longleftrightarrow> req_class r = PingRequest"
    and run: "run_job env (job_addr ip port (class_of q)) q (disk s) = Inr (res, d)"
  shows "worker_ok env ip port (Request_Proceed env i u) \<and> crashed (Request_Proceed env i u) = None \<and>
    arrived (Request_Proceed env i u) = arrived s \<and> answered (Request_Proceed env i u) = answered s @ [(q, res)] \<and>
    disk (Request_Proceed env i u) = d"
proof (cases rule: event_cases [OF assms(1-3)])
  case (1 r')
  then show ?case using r c by simp
next
  case (2 r' q' res' d')
  then have "r' = r" "q' = q" using r by simp_all
  then show ?thesis using 2 run by (simp add: Let_def)
next
  case (3 q' e)
  then show ?thesis using r run by simp
next
  case (4 r')
  then show ?thesis using r by simp
qed

lemma worker_runs_jobs:
  assumes "worker_ok env ip port s" and "crashed s = None"
    and "mset (map fst (answered s)) + mset qs = mset (arrived s)" and "run_jobs env ip port qs (disk s) = Inr (answers, fs)"
  shows "\<exists>t. (worker_step env)\<^sup>*\<^sup>* s t \<and> crashed t = None \<and> arrived t = arrived s \<and> answered t = answered s @ answers \<and> disk t = fs"
  using assms
proof (induction qs arbitrary: s answers)
  case (Cons q qs)
  note W = worker_okD [OF Cons.prems(1)]
  from Cons.prems(4) obtain res d as where run: "run_job env (job_addr ip port (class_of q)) q (disk s) = Inr (res, d)"
    "run_jobs env ip port qs d = Inr (as, fs)" and answers: "answers = (q, res) # as"
    by (auto simp: bnd_eq_Inr)
  have "(\<Sum>i\<leftarrow>ids s. asked (requests s i)) = mset (q # qs)"
    using W(6) Cons.prems(3) by (metis add_left_cancel)
  then have "q \<in># (\<Sum>i\<leftarrow>ids s. asked (requests s i))" by simp
  from pending_object [OF Cons.prems(1,2) this] obtain c i r A B u where
    tk: "takes c i A B s u" and st: "worker_step env s (Request_Proceed env i u)"
    and r: "requests s i = Some r" "status r = PROCESS" "request r = Some q"
    and c: "c = PingRequest \<longleftrightarrow> req_class r = PingRequest" .
  let ?t = "Request_Proceed env i u"
  have t: "worker_ok env ip port ?t \<and> crashed ?t = None \<and> arrived ?t = arrived s \<and> answered ?t = answered s @ [(q, res)] \<and> disk ?t = d"
    by (rule pending_answered [OF Cons.prems(1,2) tk r c run(1)])
  have ms: "mset (map fst (answered ?t)) + mset qs = mset (arrived ?t)" using t Cons.prems(3) by simp
  have jobs: "run_jobs env ip port qs (disk ?t) = Inr (as, fs)" using t run(2) by simp
  have ok: "worker_ok env ip port ?t" "crashed ?t = None" using t by simp_all
  from Cons.IH [OF ok ms jobs] obtain v where v: "(worker_step env)\<^sup>*\<^sup>* ?t v" "crashed v = None"
    "arrived v = arrived ?t" "answered v = answered ?t @ as" "disk v = fs" by (elim exE conjE)
  have "(worker_step env)\<^sup>*\<^sup>* s v" using st v(1) by (rule converse_rtranclp_into_rtranclp)
  then show ?case using v(2-5) t answers by (intro exI [of _ v]) simp
qed auto

text \<open>
  C10: Let \<open>qs\<close> be the calls that have arrived and are not answered yet, in some order in which their jobs succeed when they are run
  one after the other from the current disk. Then the worker can answer every call, each exactly once, with the results of that run,
  and the disk is the one behind it.
\<close>

theorem worker_answers_every_call:
  assumes "port_num ip = Inr port" and "reachable (worker_init ip fs0) (worker_step env) s" and "crashed s = None"
    and "mset (map fst (answered s)) + mset qs = mset (arrived s)" and "run_jobs env ip port qs (disk s) = Inr (answers, fs)"
  shows "\<exists>t. (worker_step env)\<^sup>*\<^sup>* s t \<and> crashed t = None \<and> arrived t = arrived s \<and>
    answered t = answered s @ answers \<and> map fst answers = qs \<and> disk t = fs"
proof -
  have "worker_ok env ip port s" using worker_reachable_inv [OF assms(1,2)] assms(3) by (simp add: worker_inv_def)
  from worker_runs_jobs [OF this assms(3-5)] show ?thesis using run_jobs_queries [OF assms(5)] by blast
qed

lemma worker4_reach: "reachable (worker_init ''h:1'' small_disk) (worker_step idle_env) worker4"
proof -
  have "worker_step idle_env worker3 worker4"
    using arrive [of worker3 "[]" 1 "[3]" "the (requests worker3 1)" small_reduce idle_env] worker_demo
    by (auto simp: worker4_def small_reduce_def)
  with worker_demo_reach show ?thesis by (rule reachable_step)
qed

lemma small_jobs_run:
  "case run_jobs idle_env ''h:1'' ''1'' [small_job, small_reduce] small_disk of
     Inl e \<Rightarrow> False
   | Inr (answers, fs) \<Rightarrow> answers = [(small_job, MapResult [''intermediate/0_1.txt'']), (small_reduce, ReduceResult ''output/0'')] \<and>
       file_text fs ''output/0'' = ''be 1'' @ newline # ''to 1'' @ [newline]"
  by code_simp

theorem worker_answers_every_call_witness:
  "\<exists>t. (worker_step idle_env)\<^sup>*\<^sup>* worker4 t \<and> crashed t = None \<and> file_text (disk t) ''output/0'' = ''be 1'' @ newline # ''to 1'' @ [newline] \<and>
     answered t = [(PingQ ''h:1'', PingResult ''h:1''), (small_job, MapResult [''intermediate/0_1.txt'']), (small_reduce, ReduceResult ''output/0'')]"
proof -
  obtain fs where run: "run_jobs idle_env ''h:1'' ''1'' [small_job, small_reduce] small_disk =
      Inr ([(small_job, MapResult [''intermediate/0_1.txt'']), (small_reduce, ReduceResult ''output/0'')], fs)"
    and out: "file_text fs ''output/0'' = ''be 1'' @ newline # ''to 1'' @ [newline]"
    using small_jobs_run by (auto split: sum.splits)
  have "mset (map fst (answered worker4)) + mset [small_job, small_reduce] = mset (arrived worker4)"
    by (simp add: worker_demo)
  from worker_answers_every_call [OF demo_port worker4_reach worker_demo(18) this, unfolded worker_demo(21), OF run]
  show ?thesis using out by (auto simp: worker_demo)
qed

end
