(* ===== verification/CombinedBarrier.thy ===== *)
theory CombinedBarrier
  imports SenseBarrier DisseminationBarrier
begin

text \<open>
  The barrier of \<^verbatim>\<open>project2/combined/combined.c\<close> for \<open>P\<close> MPI processes with \<open>T\<close> OpenMP threads each, called
  \<open>num_iter\<close> times by every thread as in \<^verbatim>\<open>project2/combined/harness.c\<close>. The last thread of a process to arrive runs the
  rounds of the dissemination barrier before it resets the counter and flips the sense.

  A state is related to one state of \<open>SenseBarrier\<close> for every process and one state of \<open>DisseminationBarrier\<close>;
  every step is a step of one or both of them, so the invariants of the two barriers carry over (locale \<open>simulation\<close>).
\<close>

section \<open>State and steps\<close>

datatype cb_pc =
    CB_loop            \<comment> \<open>at the head of the harness loop\<close>
  | CB_read            \<comment> \<open>\<open>my_sense = !sense\<close>\<close>
  | CB_sub bool        \<comment> \<open>\<open>__sync_fetch_and_sub(&count, 1) == 1\<close>\<close>
  | CB_round bool nat  \<comment> \<open>at the head of the loop over the rounds\<close>
  | CB_recv bool nat   \<comment> \<open>at \<open>MPI_Recv\<close> of a round\<close>
  | CB_reset bool      \<comment> \<open>\<open>count = num_threads\<close>\<close>
  | CB_flip bool       \<comment> \<open>\<open>sense = my_sense\<close>\<close>
  | CB_spin bool       \<comment> \<open>\<open>while (sense != my_sense)\<close>\<close>

text \<open>\<open>count\<close> and \<open>sense\<close> are variables of a process, the rest of a thread of it.\<close>

record 'n cb_state =
  cb_num_rounds :: nat
  cb_num_processes :: nat
  cb_num_threads :: int
  cb_count :: "nat \<Rightarrow> int"
  cb_sense :: "nat \<Rightarrow> bool"
  cb_iter :: "nat \<Rightarrow> nat \<Rightarrow> nat"
  cb_pc :: "nat \<Rightarrow> nat \<Rightarrow> cb_pc"
  cb_net :: 'n

definition cb_combined_init :: "'n mpi_net \<Rightarrow> nat \<Rightarrow> nat \<Rightarrow> 'n cb_state" where
  "cb_combined_init N P T = \<lparr>cb_num_rounds = ceillog2 P, cb_num_processes = P, cb_num_threads = int T, cb_count = (\<lambda>_. int T),
     cb_sense = (\<lambda>_. False), cb_iter = (\<lambda>_ _. 0), cb_pc = (\<lambda>_ _. CB_loop), cb_net = net_init N\<rparr>"

definition cb_goto :: "nat \<Rightarrow> nat \<Rightarrow> cb_pc \<Rightarrow> 'n cb_state \<Rightarrow> 'n cb_state" where
  "cb_goto p i x s = s\<lparr>cb_pc := (cb_pc s)(p := (cb_pc s p)(i := x))\<rparr>"

definition cb_return :: "nat \<Rightarrow> nat \<Rightarrow> 'n cb_state \<Rightarrow> 'n cb_state" where
  "cb_return p i s = s\<lparr>cb_pc := (cb_pc s)(p := (cb_pc s p)(i := CB_loop)),
     cb_iter := (cb_iter s)(p := (cb_iter s p)(i := Suc (cb_iter s p i)))\<rparr>"

definition cb_send_to :: "'n cb_state \<Rightarrow> nat \<Rightarrow> nat \<Rightarrow> int" where
  "cb_send_to s rank rnd = (int rank + 2 ^ rnd) smod int (cb_num_processes s)"

definition cb_recv_from :: "'n cb_state \<Rightarrow> nat \<Rightarrow> nat \<Rightarrow> int" where
  "cb_recv_from s rank rnd = (int rank - 2 ^ rnd + int (cb_num_processes s)) smod int (cb_num_processes s)"

text \<open>One step of thread \<open>i\<close> of process \<open>p\<close>; \<open>None\<close> when it spins, waits for a message or has finished its loop.\<close>

definition cb_combined_barrier :: "'n mpi_net \<Rightarrow> nat \<Rightarrow> nat \<Rightarrow> nat \<Rightarrow> 'n cb_state \<Rightarrow> 'n cb_state option" where
  "cb_combined_barrier N num_iter p i s = (case cb_pc s p i of
     CB_loop \<Rightarrow> if cb_iter s p i < num_iter then Some (cb_goto p i CB_read s) else None
   | CB_read \<Rightarrow> Some (cb_goto p i (CB_sub (\<not> cb_sense s p)) s)
   | CB_sub my_sense \<Rightarrow>
       Some (cb_goto p i (if cb_count s p = 1 then CB_round my_sense 0 else CB_spin my_sense)
               (s\<lparr>cb_count := (cb_count s)(p := cb_count s p - 1)\<rparr>))
   | CB_round my_sense rnd \<Rightarrow>
       if rnd < cb_num_rounds s
       then Some (cb_goto p i (CB_recv my_sense rnd) (s\<lparr>cb_net := MPI_Isend N p (cb_send_to s p rnd) (cb_net s)\<rparr>))
       else Some (cb_goto p i (CB_reset my_sense) s)
   | CB_recv my_sense rnd \<Rightarrow>
       (case MPI_Recv N (cb_recv_from s p rnd) p (cb_net s) of
          None \<Rightarrow> None
        | Some net \<Rightarrow> Some (cb_goto p i (CB_round my_sense (Suc rnd)) (s\<lparr>cb_net := net\<rparr>)))
   | CB_reset my_sense \<Rightarrow> Some (cb_goto p i (CB_flip my_sense) (s\<lparr>cb_count := (cb_count s)(p := cb_num_threads s)\<rparr>))
   | CB_flip my_sense \<Rightarrow> Some (cb_return p i (s\<lparr>cb_sense := (cb_sense s)(p := my_sense)\<rparr>))
   | CB_spin my_sense \<Rightarrow> if cb_sense s p = my_sense then Some (cb_return p i s) else None)"

inductive cb_step :: "'n mpi_net \<Rightarrow> nat \<Rightarrow> nat \<Rightarrow> nat \<Rightarrow> 'n cb_state \<Rightarrow> 'n cb_state \<Rightarrow> bool" for N P T num_iter where
  cb_thread: "p < P \<Longrightarrow> i < T \<Longrightarrow> cb_combined_barrier N num_iter p i s = Some t \<Longrightarrow> cb_step N P T num_iter s t"

definition cb_left :: "'n cb_state \<Rightarrow> nat \<Rightarrow> nat \<Rightarrow> nat" where
  "cb_left s p i = cb_iter s p i"

definition cb_entered :: "'n cb_state \<Rightarrow> nat \<Rightarrow> nat \<Rightarrow> nat" where
  "cb_entered s p i = (if cb_pc s p i = CB_loop then cb_iter s p i else Suc (cb_iter s p i))"

section \<open>The two barriers in it\<close>

text \<open>To the threads of its process, a thread in the rounds is still about to reset the counter.\<close>

fun cb_sb_pc :: "cb_pc \<Rightarrow> sb_pc" where
  "cb_sb_pc CB_loop = SB_loop"
| "cb_sb_pc CB_read = SB_read"
| "cb_sb_pc (CB_sub m) = SB_sub m"
| "cb_sb_pc (CB_round m r) = SB_reset m"
| "cb_sb_pc (CB_recv m r) = SB_reset m"
| "cb_sb_pc (CB_reset m) = SB_reset m"
| "cb_sb_pc (CB_flip m) = SB_flip m"
| "cb_sb_pc (CB_spin m) = SB_spin m"

definition cb_sb :: "nat \<Rightarrow> 'n cb_state \<Rightarrow> sb_state" where
  "cb_sb p s = \<lparr>sb_count = cb_count s p, sb_sense = cb_sense s p, sb_num_threads = cb_num_threads s, sb_iter = cb_iter s p,
     sb_pc = (\<lambda>i. cb_sb_pc (cb_pc s p i))\<rparr>"

fun cb_rounds :: "cb_pc \<Rightarrow> db_pc option" where
  "cb_rounds (CB_round m r) = Some (DB_round r)"
| "cb_rounds (CB_recv m r) = Some (DB_recv r)"
| "cb_rounds _ = None"

fun cb_synced :: "cb_pc \<Rightarrow> bool" where
  "cb_synced (CB_reset m) = True"
| "cb_synced (CB_flip m) = True"
| "cb_synced _ = False"

text \<open>The number of calls that are complete, seen from one thread: one that still spins has missed the flip.\<close>

definition sb_epoch :: "sb_state \<Rightarrow> nat \<Rightarrow> nat" where
  "sb_epoch s i = (if sb_pc s i = SB_spin (sb_sense s) then Suc (sb_iter s i) else sb_iter s i)"

definition cb_link :: "nat \<Rightarrow> 'n cb_state \<Rightarrow> 'n db_state \<Rightarrow> nat \<Rightarrow> bool" where
  "cb_link T s d p \<longleftrightarrow> (\<forall>i<T. \<forall>x. cb_rounds (cb_pc s p i) = Some x \<longrightarrow> db_pc d p = x) \<and>
     ((\<forall>i<T. cb_rounds (cb_pc s p i) = None) \<longrightarrow> db_pc d p = DB_loop) \<and>
     (\<forall>i<T. db_iter d p = sb_epoch (cb_sb p s) i + of_bool (\<exists>k<T. cb_synced (cb_pc s p k)))"

definition cb_sim :: "'n mpi_net \<Rightarrow> nat \<Rightarrow> nat \<Rightarrow> nat \<Rightarrow> 'n cb_state \<Rightarrow> 'n db_state \<Rightarrow> bool" where
  "cb_sim N P T num_iter s d \<longleftrightarrow> cb_num_rounds s = db_num_rounds P \<and> cb_num_processes s = P \<and> db_net d = cb_net s \<and>
     db_inv N P num_iter d \<and> (\<forall>p<P. sb_inv T num_iter (cb_sb p s) \<and> cb_link T s d p)"

lemma cb_sim_init: "mpi_ok N \<Longrightarrow> cb_sim N P T num_iter (cb_combined_init N P T) (db_start_state N)"
proof -
  have "cb_sb p (cb_combined_init N P T) = sb_gtmp_init T" for p
    by (simp add: cb_sb_def cb_combined_init_def sb_gtmp_init_def)
  then show "mpi_ok N \<Longrightarrow> ?thesis"
    by (simp add: cb_sim_def sb_inv_init db_inv_start) (simp add: cb_combined_init_def db_num_rounds_def db_start_state_def cb_link_def sb_epoch_def sb_gtmp_init_def)
qed

lemma cb_last: "cb_rounds x \<noteq> None \<or> cb_synced x \<longleftrightarrow> sb_last (cb_sb_pc x)"
  by (cases x) simp_all

lemma sb_epoch_ok: "sb_ok s e i \<Longrightarrow> sb_epoch s i = e"
  by (auto simp: sb_ok_def sb_epoch_def)

lemma cb_frame:
  assumes "cb_combined_barrier N num_iter p i s = Some t"
  shows "cb_num_rounds t = cb_num_rounds s" and "cb_num_processes t = cb_num_processes s" and "cb_num_threads t = cb_num_threads s"
    and "q \<noteq> p \<Longrightarrow> cb_sb q t = cb_sb q s" and "q \<noteq> p \<Longrightarrow> cb_pc t q = cb_pc s q" and "j \<noteq> i \<Longrightarrow> cb_pc t p j = cb_pc s p j"
  using assms by (auto simp: cb_combined_barrier_def cb_goto_def cb_return_def cb_sb_def split: cb_pc.splits if_splits option.splits)

lemma cb_sb_step:
  assumes "cb_combined_barrier N num_iter p i s = Some t"
  shows "cb_sb p t = cb_sb p s \<and> cb_rounds (cb_pc s p i) \<noteq> None \<or> sb_gtmp_barrier num_iter i (cb_sb p s) = Some (cb_sb p t)"
  using assms
  by (cases "cb_pc s p i")
    (auto simp: cb_combined_barrier_def cb_goto_def cb_return_def cb_sb_def sb_gtmp_barrier_def sb_goto_def sb_return_def fun_eq_iff
      split: if_splits option.splits)

lemma cb_sb_inv:
  assumes "cb_combined_barrier N num_iter p i s = Some t" and "i < T" and "sb_inv T num_iter (cb_sb p s)"
  shows "sb_inv T num_iter (cb_sb p t)"
  using cb_sb_step [OF assms(1)] sb_inv_step [OF assms(3) sb_thread [OF assms(2)]] assms(3) by metis

lemma cb_link_other:
  assumes "cb_sb p t = cb_sb p s" and "cb_pc t p = cb_pc s p" and "db_pc d' p = db_pc d p" and "db_iter d' p = db_iter d p"
  shows "cb_link T t d' p = cb_link T s d p"
  using assms by (simp add: cb_link_def)

text \<open>A step of a thread that is not the last one and does not become it: the process stays outside of the rounds.\<close>

lemma cb_link_quiet:
  assumes "cb_link T s d p" and "\<forall>k<T. \<not> sb_last (sb_pc (cb_sb p s) k)" and "\<forall>k<T. \<not> sb_last (sb_pc (cb_sb p t) k)"
    and "\<forall>k<T. sb_epoch (cb_sb p t) k = sb_epoch (cb_sb p s) k"
  shows "cb_link T t d p"
proof -
  have n: "cb_rounds (cb_pc u p k) = None \<and> \<not> cb_synced (cb_pc u p k)" if "\<forall>k<T. \<not> sb_last (sb_pc (cb_sb p u) k)" "k < T" for u k
    using that cb_last [of "cb_pc u p k"] by (auto simp: cb_sb_def)
  then have ns: "(\<exists>k<T. cb_synced (cb_pc s p k)) = False" "(\<exists>k<T. cb_synced (cb_pc t p k)) = False"
    and nr: "\<forall>k<T. cb_rounds (cb_pc s p k) = None" "\<forall>k<T. cb_rounds (cb_pc t p k) = None" using assms(2,3) by blast+
  show ?thesis using assms(1,4) nr unfolding cb_link_def ns by simp
qed

lemma cb_epoch_same:
  assumes inv: "sb_inv T num_iter (cb_sb p s)" and st: "sb_gtmp_barrier num_iter i (cb_sb p s) = Some (cb_sb p t)" and "i < T"
    and "\<And>m. cb_pc s p i \<noteq> CB_flip m"
  shows "sb_epoch (cb_sb p t) k = sb_epoch (cb_sb p s) k"
proof -
  obtain e where "sb_ok (cb_sb p s) e i" using inv assms(3) by (auto simp: sb_inv_def)
  then have "sb_epoch (cb_sb p t) i = sb_epoch (cb_sb p s) i" "\<And>k. k \<noteq> i \<Longrightarrow> sb_epoch (cb_sb p t) k = sb_epoch (cb_sb p s) k"
    using st assms(4) by (cases "cb_pc s p i";
      auto simp: sb_gtmp_barrier_def sb_goto_def sb_return_def cb_sb_def sb_epoch_def sb_ok_def fun_eq_iff split: if_splits)+
  then show ?thesis by metis
qed

lemma cb_link_at:
  assumes "i < T" and "\<And>k. k < T \<Longrightarrow> k \<noteq> i \<Longrightarrow> cb_rounds (cb_pc t p k) = None \<and> \<not> cb_synced (cb_pc t p k)"
    and "db_pc d p = (case cb_rounds (cb_pc t p i) of None \<Rightarrow> DB_loop | Some x \<Rightarrow> x)"
    and "\<And>k. k < T \<Longrightarrow> db_iter d p = sb_epoch (cb_sb p t) k + of_bool (cb_synced (cb_pc t p i))"
  shows "cb_link T t d p"
proof -
  have s: "(\<exists>k<T. cb_synced (cb_pc t p k)) = cb_synced (cb_pc t p i)" using assms(1,2) by blast
  show ?thesis unfolding cb_link_def s
  proof (intro conjI allI impI)
    show "db_pc d p = x" if "k < T" "cb_rounds (cb_pc t p k) = Some x" for k x
      using assms(2) [OF that(1)] assms(3) that(2) by (cases "k = i") auto
    show "db_pc d p = DB_loop" if "\<forall>k<T. cb_rounds (cb_pc t p k) = None" using that assms(1,3) by simp
  qed (rule assms(4))
qed

lemma cb_sim_step:
  assumes sim: "cb_sim N P T num_iter s d" and p: "p < P" and i: "i < T" and st: "cb_combined_barrier N num_iter p i s = Some t"
  shows "\<exists>d'. (d' = d \<or> db_step N P num_iter d d') \<and> cb_sim N P T num_iter t d'"
proof -
  have S: "cb_num_rounds s = db_num_rounds P" "cb_num_processes s = P" "db_net d = cb_net s" "db_inv N P num_iter d"
    "\<And>q. q < P \<Longrightarrow> sb_inv T num_iter (cb_sb q s)" "\<And>q. q < P \<Longrightarrow> cb_link T s d q"
    using sim by (simp_all add: cb_sim_def)
  note fr = cb_frame [OF st]
  have sbi: "sb_inv T num_iter (cb_sb q t)" if "q < P" for q
    using cb_sb_inv [OF st i S(5) [OF p]] fr(4) [of q] S(5) [OF that] by (cases "q = p") simp_all
  have sim: "cb_sim N P T num_iter t d'"
    if "db_net d' = cb_net t" "db_inv N P num_iter d'" "cb_link T t d' p" "\<And>q. q \<noteq> p \<Longrightarrow> db_pc d' q = db_pc d q \<and> db_iter d' q = db_iter d q" for d'
  proof -
    have "cb_link T t d' q" if "q < P" for q
      using that \<open>cb_link T t d' p\<close> S(6) [OF that] cb_link_other [OF fr(4,5)] \<open>\<And>q. q \<noteq> p \<Longrightarrow> db_pc d' q = db_pc d q \<and> db_iter d' q = db_iter d q\<close>
      by (cases "q = p") simp_all
    then show ?thesis using that S sbi fr by (simp add: cb_sim_def)
  qed
  note step = st [unfolded cb_combined_barrier_def]
  note L = S(6) [OF p]
  obtain e where e: "\<forall>k<T. sb_ok (cb_sb p s) e k" using S(5) [OF p] by (auto simp: sb_inv_def)
  have ep: "sb_epoch (cb_sb p s) k = e" if "k < T" for k using e sb_epoch_ok that by blast
  have others: "cb_rounds (cb_pc s p k) = None \<and> \<not> cb_synced (cb_pc s p k)"
    if "sb_last (cb_sb_pc (cb_pc s p i))" "k < T" "k \<noteq> i" for k
    using sb_last_others [OF S(5) [OF p] i _ that(2,3)] that(1) cb_last [of "cb_pc s p k"] by (simp add: cb_sb_def)
  have db: "db_step N P num_iter d d'" "db_inv N P num_iter d'" if "db_gtmpi_barrier N P num_iter p d = Some d'" for d'
    using db_process [OF p that] db_inv_step [OF S(4)] by blast+
  have here: "sb_ok (cb_sb p s) e i" using e i by blast
  have it: "cb_pc s p i \<noteq> CB_loop \<Longrightarrow> cb_iter s p i < num_iter"
    using S(5) [OF p] i by (cases "cb_pc s p i") (auto simp: sb_inv_def cb_sb_def)
  have at: "db_pc d p = (case cb_rounds (cb_pc s p i) of None \<Rightarrow> DB_loop | Some x \<Rightarrow> x)"
    "db_iter d p = e + of_bool (cb_synced (cb_pc s p i))" if "sb_last (cb_sb_pc (cb_pc s p i))"
  proof -
    have "(\<exists>k<T. cb_synced (cb_pc s p k)) = cb_synced (cb_pc s p i)" using others [OF that] i by blast
    then show "db_iter d p = e + of_bool (cb_synced (cb_pc s p i))" using L i ep [OF i] by (simp add: cb_link_def)
    show "db_pc d p = (case cb_rounds (cb_pc s p i) of None \<Rightarrow> DB_loop | Some x \<Rightarrow> x)"
    proof (cases "cb_rounds (cb_pc s p i)")
      case None
      then have "\<forall>k<T. cb_rounds (cb_pc s p k) = None" using others [OF that] by blast
      then show ?thesis using L None by (simp add: cb_link_def)
    qed (use L i in \<open>simp add: cb_link_def\<close>)
  qed
  have quiet: ?thesis if na: "\<not> sb_arrived (cb_sb p s) i" and nl: "\<not> sb_last (cb_sb_pc (cb_pc t p i))"
    and nf: "\<And>m. cb_pc s p i \<noteq> CB_flip m" and nr: "cb_rounds (cb_pc s p i) = None" and net: "cb_net t = cb_net s"
  proof -
    have none: "\<forall>k<T. \<not> sb_last (sb_pc (cb_sb p s) k)" using sb_no_last(1) [OF S(5) [OF p] i na] by blast
    have "\<not> sb_last (sb_pc (cb_sb p t) k)" if "k < T" for k
      using none nl fr(6) [of k] that by (cases "k = i") (simp_all add: cb_sb_def)
    then have "\<forall>k<T. \<not> sb_last (sb_pc (cb_sb p t) k)" by blast
    moreover have "sb_gtmp_barrier num_iter i (cb_sb p s) = Some (cb_sb p t)" using cb_sb_step [OF st] nr by blast
    then have "\<forall>k<T. sb_epoch (cb_sb p t) k = sb_epoch (cb_sb p s) k" using cb_epoch_same [OF S(5) [OF p] _ i nf] by blast
    ultimately have "cb_link T t d p" by (rule cb_link_quiet [OF L none])
    then show ?thesis using sim [of d] S(3,4) net by auto
  qed
  show ?thesis
  proof (cases "cb_pc s p i")
    case CB_loop
    then show ?thesis using step by (intro quiet) (auto simp: sb_arrived_def cb_sb_def cb_goto_def split: if_splits)
  next
    case CB_read
    then show ?thesis using step by (intro quiet) (auto simp: sb_arrived_def cb_sb_def cb_goto_def)
  next
    case (CB_spin m)
    then show ?thesis using step by (intro quiet) (auto simp: sb_arrived_def cb_sb_def cb_return_def split: if_splits)
  next
    case (CB_sub m)
    show ?thesis
    proof (cases "cb_count s p = 1")
      case False
      then show ?thesis using step CB_sub by (intro quiet) (auto simp: sb_arrived_def cb_sb_def cb_goto_def)
    next
      case True
      then have t: "t = cb_goto p i (CB_round m 0) (s\<lparr>cb_count := (cb_count s)(p := cb_count s p - 1)\<rparr>)" using step CB_sub by simp
      have na: "\<not> sb_arrived (cb_sb p s) i" by (simp add: sb_arrived_def cb_sb_def CB_sub)
      have none: "cb_rounds (cb_pc s p k) = None \<and> \<not> cb_synced (cb_pc s p k)" if "k < T" for k
        using sb_no_last(1) [OF S(5) [OF p] i na] that cb_last [of "cb_pc s p k"] by (auto simp: cb_sb_def)
      then have ns: "(\<exists>k<T. cb_synced (cb_pc s p k)) = False" by blast
      have dl: "db_pc d p = DB_loop" "db_iter d p = e" using L none ep [OF i] i unfolding cb_link_def ns by auto
      have "db_iter d p < num_iter" using here it CB_sub dl(2) by (auto simp: sb_ok_def cb_sb_def)
      then have b: "db_gtmpi_barrier N P num_iter p d = Some (d\<lparr>db_pc := (db_pc d)(p := DB_round 0)\<rparr>)"
        using dl by (simp add: db_gtmpi_barrier_def)
      have sb: "sb_gtmp_barrier num_iter i (cb_sb p s) = Some (cb_sb p t)" using cb_sb_step [OF st] CB_sub by simp
      have et: "sb_epoch (cb_sb p t) k = e" if "k < T" for k using cb_epoch_same [OF S(5) [OF p] sb i] CB_sub ep [OF that] by simp
      have "cb_link T t (d\<lparr>db_pc := (db_pc d)(p := DB_round 0)\<rparr>) p"
        by (rule cb_link_at [OF i]) (use none et dl in \<open>simp_all add: t cb_goto_def\<close>)
      then show ?thesis using sim [OF _ db(2) [OF b]] db(1) [OF b] S(3) by (auto simp: t cb_goto_def)
    qed
  next
    case (CB_round m r)
    note d = at [unfolded CB_round, simplified]
    show ?thesis
    proof (cases "r < db_num_rounds P")
      case True
      then have t: "t = cb_goto p i (CB_recv m r) (s\<lparr>cb_net := MPI_Isend N p (cb_send_to s p r) (cb_net s)\<rparr>)" using step CB_round S(1) by simp
      have sb: "cb_sb p t = cb_sb p s" using CB_round by (simp add: t cb_goto_def cb_sb_def fun_eq_iff)
      let ?d = "d\<lparr>db_pc := (db_pc d)(p := DB_recv r), db_net := MPI_Isend N p (db_send_to P p r) (db_net d)\<rparr>"
      have b: "db_gtmpi_barrier N P num_iter p d = Some ?d" using d True by (simp add: db_gtmpi_barrier_def)
      have "cb_link T t ?d p"
        by (rule cb_link_at [OF i]) (use others ep d CB_round in \<open>simp_all add: sb\<close>, simp_all add: t cb_goto_def)
      then show ?thesis using sim [OF _ db(2) [OF b]] db(1) [OF b] S(2,3) by (auto simp: t cb_goto_def cb_send_to_def db_send_to_def)
    next
      case False
      then have t: "t = cb_goto p i (CB_reset m) s" using step CB_round S(1) by simp
      have sb: "cb_sb p t = cb_sb p s" using CB_round by (simp add: t cb_goto_def cb_sb_def fun_eq_iff)
      let ?d = "d\<lparr>db_pc := (db_pc d)(p := DB_loop), db_iter := (db_iter d)(p := Suc (db_iter d p))\<rparr>"
      have b: "db_gtmpi_barrier N P num_iter p d = Some ?d" using d False by (simp add: db_gtmpi_barrier_def)
      have "cb_link T t ?d p"
        by (rule cb_link_at [OF i]) (use others ep d CB_round in \<open>simp_all add: sb\<close>, simp_all add: t cb_goto_def)
      then show ?thesis using sim [OF _ db(2) [OF b]] db(1) [OF b] S(3) by (auto simp: t cb_goto_def)
    qed
  next
    case (CB_recv m r)
    note d = at [unfolded CB_recv, simplified]
    obtain net where net: "MPI_Recv N (cb_recv_from s p r) p (cb_net s) = Some net" using step CB_recv by (auto split: option.splits)
    then have t: "t = cb_goto p i (CB_round m (Suc r)) (s\<lparr>cb_net := net\<rparr>)" using step CB_recv by simp
    have sb: "cb_sb p t = cb_sb p s" using CB_recv by (simp add: t cb_goto_def cb_sb_def fun_eq_iff)
    let ?d = "d\<lparr>db_pc := (db_pc d)(p := DB_round (Suc r)), db_net := net\<rparr>"
    have b: "db_gtmpi_barrier N P num_iter p d = Some ?d"
      using d net S(2,3) by (simp add: db_gtmpi_barrier_def cb_recv_from_def db_recv_from_def)
    have "cb_link T t ?d p"
      by (rule cb_link_at [OF i]) (use others ep d CB_recv in \<open>simp_all add: sb\<close>, simp_all add: t cb_goto_def)
    then show ?thesis using sim [OF _ db(2) [OF b]] db(1) [OF b] by (auto simp: t cb_goto_def)
  next
    case (CB_reset m)
    note d = at [unfolded CB_reset, simplified]
    have t: "t = cb_goto p i (CB_flip m) (s\<lparr>cb_count := (cb_count s)(p := cb_num_threads s)\<rparr>)" using step CB_reset by simp
    have sb: "sb_gtmp_barrier num_iter i (cb_sb p s) = Some (cb_sb p t)" using cb_sb_step [OF st] CB_reset by simp
    have et: "sb_epoch (cb_sb p t) k = e" if "k < T" for k using cb_epoch_same [OF S(5) [OF p] sb i] CB_reset ep [OF that] by simp
    have "cb_link T t d p"
      by (rule cb_link_at [OF i]) (use others et d CB_reset in \<open>simp_all\<close>, simp_all add: t cb_goto_def)
    then show ?thesis using sim [of d] S(3,4) by (auto simp: t cb_goto_def)
  next
    case (CB_flip m)
    note d = at [unfolded CB_flip, simplified]
    have t: "t = cb_return p i (s\<lparr>cb_sense := (cb_sense s)(p := m)\<rparr>)" using step CB_flip by simp
    have m: "m = (\<not> cb_sense s p)" and ie: "cb_iter s p i = e" using here CB_flip by (auto simp: sb_ok_def cb_sb_def)
    have et: "sb_epoch (cb_sb p t) k = Suc e" if k: "k < T" for k
    proof (cases "k = i")
      case True
      then show ?thesis by (simp add: t cb_return_def cb_sb_def sb_epoch_def ie)
    next
      case False
      have "sb_pc (cb_sb p s) k = SB_spin m"
        using sb_last_others [OF S(5) [OF p] i _ k False] CB_flip m by (simp add: cb_sb_def)
      moreover from this have "cb_iter s p k = e" using e k m by (auto simp: sb_ok_def cb_sb_def)
      ultimately show ?thesis using False by (simp add: t cb_return_def cb_sb_def sb_epoch_def)
    qed
    have "cb_link T t d p"
      by (rule cb_link_at [OF i]) (use others et d CB_flip in \<open>simp_all\<close>, simp_all add: t cb_return_def)
    then show ?thesis using sim [of d] S(3,4) by (auto simp: t cb_return_def)
  qed
qed

abbreviation cb_start :: "'n mpi_net \<Rightarrow> nat \<Rightarrow> nat \<Rightarrow> 'n cb_state \<Rightarrow> bool" where
  "cb_start N P T s \<equiv> mpi_ok N \<and> s = cb_combined_init N P T"

interpretation cbs: simulation "cb_start N P T" "cb_step N P T num_iter" "db_start N" "db_step N P num_iter" "cb_sim N P T num_iter"
proof unfold_locales
  show "\<exists>d. db_start N d \<and> cb_sim N P T num_iter s d" if "cb_start N P T s" for s
    using that cb_sim_init by blast
  show "\<exists>d'. cb_sim N P T num_iter t d' \<and> (d' = d \<or> db_step N P num_iter d d')" if "cb_sim N P T num_iter s d" "cb_step N P T num_iter s t" for s d t
    using that(2) by cases (metis cb_sim_step [OF that(1)])
qed

section \<open>Safety\<close>

lemma cb_simD:
  assumes "cb_sim N P T num_iter s d"
  shows "cb_num_rounds s = db_num_rounds P" and "cb_num_processes s = P" and "db_net d = cb_net s" and "db_inv N P num_iter d"
    and "p < P \<Longrightarrow> sb_inv T num_iter (cb_sb p s)" and "p < P \<Longrightarrow> cb_link T s d p"
  using assms by (simp_all add: cb_sim_def)

text \<open>What holds of a process when one of its threads has been the last to arrive, and when none is.\<close>

lemma cb_with_last:
  assumes sim: "cb_sim N P T num_iter s d" and p: "p < P" and k: "k < T" and last: "sb_last (cb_sb_pc (cb_pc s p k))" and j: "j < T"
  shows "cb_pc s p j \<noteq> CB_loop" and "db_iter d p = cb_iter s p j + of_bool (cb_synced (cb_pc s p k))"
    and "db_pc d p = (case cb_rounds (cb_pc s p k) of None \<Rightarrow> DB_loop | Some x \<Rightarrow> x)"
proof -
  note inv = cb_simD(5) [OF sim p] and L = cb_simD(6) [OF sim p]
  have oth: "sb_pc (cb_sb p s) l = SB_spin (\<not> sb_sense (cb_sb p s))" if "l < T" "l \<noteq> k" for l
    using sb_last_others [OF inv k _ that] last by (simp add: cb_sb_def)
  have none: "cb_rounds (cb_pc s p l) = None \<and> \<not> cb_synced (cb_pc s p l)" if "l < T" "l \<noteq> k" for l
    using oth [OF that] cb_last [of "cb_pc s p l"] by (simp add: cb_sb_def)
  show "cb_pc s p j \<noteq> CB_loop" using oth [OF j] last by (cases "j = k") (auto simp: cb_sb_def)
  have sy: "(\<exists>l<T. cb_synced (cb_pc s p l)) = cb_synced (cb_pc s p k)" using none k by blast
  have "sb_epoch (cb_sb p s) j = cb_iter s p j"
  proof (cases "j = k")
    case True
    then show ?thesis using last by (cases "cb_pc s p k") (simp_all add: sb_epoch_def cb_sb_def)
  next
    case False
    then show ?thesis using oth [OF j] by (simp add: sb_epoch_def) (simp add: cb_sb_def)
  qed
  moreover have "db_iter d p = sb_epoch (cb_sb p s) j + of_bool (cb_synced (cb_pc s p k))"
    using L j unfolding cb_link_def sy by blast
  ultimately show "db_iter d p = cb_iter s p j + of_bool (cb_synced (cb_pc s p k))" by simp
  show "db_pc d p = (case cb_rounds (cb_pc s p k) of None \<Rightarrow> DB_loop | Some x \<Rightarrow> x)"
  proof (cases "cb_rounds (cb_pc s p k)")
    case None
    then have "\<forall>l<T. cb_rounds (cb_pc s p l) = None" using none by blast
    then show ?thesis using L None by (simp add: cb_link_def)
  qed (use L k in \<open>simp add: cb_link_def\<close>)
qed

lemma cb_without_last:
  assumes sim: "cb_sim N P T num_iter s d" and p: "p < P" and nl: "\<forall>k<T. \<not> sb_last (cb_sb_pc (cb_pc s p k))"
  shows "db_pc d p = DB_loop" and "j < T \<Longrightarrow> db_iter d p = sb_epoch (cb_sb p s) j"
proof -
  have none: "cb_rounds (cb_pc s p l) = None \<and> \<not> cb_synced (cb_pc s p l)" if "l < T" for l
    using nl that cb_last [of "cb_pc s p l"] by blast
  then have sy: "(\<exists>l<T. cb_synced (cb_pc s p l)) = False" by blast
  show "db_pc d p = DB_loop" "j < T \<Longrightarrow> db_iter d p = sb_epoch (cb_sb p s) j"
    using cb_simD(6) [OF sim p] none unfolding cb_link_def sy by auto
qed

lemma cb_safe:
  assumes sim: "cb_sim N P T num_iter s d" and "p < P" and "i < T" and "q < P" and "j < T"
  shows "cb_left s p i \<le> cb_entered s q j"
proof -
  have "cb_iter s p i \<le> db_iter d p"
  proof (cases "\<exists>k<T. sb_last (cb_sb_pc (cb_pc s p k))")
    case True
    then show ?thesis using cb_with_last(2) [OF sim assms(2) _ _ assms(3)] by auto
  next
    case False
    then show ?thesis using cb_without_last(2) [OF sim assms(2) _ assms(3)] by (auto simp: sb_epoch_def cb_sb_def)
  qed
  also have "db_iter d p \<le> db_entered d q"
    using db_left_le_entered [OF cb_simD(4) [OF sim] assms(2,4)] by (simp add: db_left_def)
  also have "db_entered d q \<le> cb_entered s q j"
  proof (cases "\<exists>k<T. sb_last (cb_sb_pc (cb_pc s q k))")
    case True
    then obtain k where k: "k < T" "sb_last (cb_sb_pc (cb_pc s q k))" by blast
    show ?thesis using cb_with_last [OF sim assms(4) k assms(5)] k(2)
      by (cases "cb_pc s q k") (auto simp: db_entered_def cb_entered_def)
  next
    case False
    then show ?thesis using cb_without_last [OF sim assms(4)] assms(5)
      by (auto simp: db_entered_def cb_entered_def sb_epoch_def cb_sb_def)
  qed
  finally show ?thesis by (simp add: cb_left_def)
qed

section \<open>Termination\<close>

fun cb_weight :: "nat \<Rightarrow> cb_pc \<Rightarrow> nat" where
  "cb_weight R CB_loop = 0"
| "cb_weight R CB_read = 1"
| "cb_weight R (CB_sub m) = 2"
| "cb_weight R (CB_spin m) = 3"
| "cb_weight R (CB_round m r) = 2 * r + 3"
| "cb_weight R (CB_recv m r) = 2 * r + 4"
| "cb_weight R (CB_reset m) = 2 * R + 4"
| "cb_weight R (CB_flip m) = 2 * R + 5"

text \<open>A call has at most six steps and two for every round.\<close>

definition cb_todo :: "nat \<Rightarrow> nat \<Rightarrow> 'n cb_state \<Rightarrow> nat \<Rightarrow> nat \<Rightarrow> nat" where
  "cb_todo P num_iter s p i =
     steps_todo (2 * db_num_rounds P + 6) num_iter (cb_iter s p i) (cb_weight (db_num_rounds P) (cb_pc s p i))"

definition cb_rank :: "nat \<Rightarrow> nat \<Rightarrow> nat \<Rightarrow> 'n cb_state \<Rightarrow> nat" where
  "cb_rank P T num_iter s = (\<Sum>x<P * T. cb_todo P num_iter s (x div T) (x mod T))"

lemma cb_todo_decreases:
  assumes sim: "cb_sim N P T num_iter s d" and p: "p < P" and i: "i < T" and st: "cb_combined_barrier N num_iter p i s = Some t"
  shows "cb_todo P num_iter t p i < cb_todo P num_iter s p i"
proof -
  note step = st [unfolded cb_combined_barrier_def]
  have it: "cb_iter s p i < num_iter"
    using cb_simD(5) [OF sim p] i step by (cases "cb_pc s p i") (auto simp: sb_inv_def cb_sb_def split: if_splits)
  have rnd: "case cb_pc s p i of CB_round m r \<Rightarrow> r \<le> db_num_rounds P | CB_recv m r \<Rightarrow> r < db_num_rounds P | _ \<Rightarrow> True"
  proof -
    have "db_local P num_iter d p" using cb_simD(4) [OF sim] p by (simp add: db_inv_def)
    then show ?thesis using cb_simD(6) [OF sim p] i by (cases "cb_pc s p i") (auto simp: cb_link_def db_local_def)
  qed
  note tp = steps_todo_call [OF it, where c = "2 * db_num_rounds P + 6"]
  show ?thesis
  proof (cases "cb_pc s p i")
    case CB_loop
    then show ?thesis using step tp(2) [of 1 0] by (auto simp: cb_todo_def cb_goto_def split: if_splits)
  next
    case CB_read
    then show ?thesis using step tp(2) [of 2 1] by (auto simp: cb_todo_def cb_goto_def)
  next
    case (CB_sub m)
    then show ?thesis using step tp(2) [of 3 2] by (auto simp: cb_todo_def cb_goto_def)
  next
    case (CB_round m r)
    then show ?thesis using step rnd tp(2) [of "2 * r + 4" "2 * r + 3"] tp(2) [of "2 * db_num_rounds P + 4" "2 * r + 3"]
      by (auto simp: cb_todo_def cb_goto_def split: if_splits)
  next
    case (CB_recv m r)
    then show ?thesis using step rnd tp(2) [of "5 + 2 * r" "2 * r + 4"] by (auto simp: cb_todo_def cb_goto_def split: option.splits)
  next
    case (CB_reset m)
    then show ?thesis using step tp(2) [of "2 * db_num_rounds P + 5" "2 * db_num_rounds P + 4"] by (auto simp: cb_todo_def cb_goto_def)
  next
    case (CB_flip m)
    then show ?thesis using step tp(1) [of "2 * db_num_rounds P + 5"] by (auto simp: cb_todo_def cb_return_def)
  next
    case (CB_spin m)
    then show ?thesis using step tp(1) [of 3] by (auto simp: cb_todo_def cb_return_def split: if_splits)
  qed
qed

lemma cb_thread_index: "p < P \<Longrightarrow> i < T \<Longrightarrow> p * T + i < P * T"
  for p P i T :: nat
proof -
  assume a: "p < P" "i < T"
  have "p * T + i < Suc p * T" using a(2) by simp
  also have "\<dots> \<le> P * T" by (rule mult_le_mono1) (use a(1) in simp)
  finally show ?thesis .
qed

lemma cb_rank_decreases:
  assumes sim: "cb_sim N P T num_iter s d" and st: "cb_step N P T num_iter s t"
  shows "cb_rank P T num_iter t < cb_rank P T num_iter s"
  using st
proof cases
  case (cb_thread p i)
  let ?x = "p * T + i"
  have x: "?x div T = p" "?x mod T = i" using cb_thread(2) by simp_all
  have oth: "cb_todo P num_iter t q j = cb_todo P num_iter s q j" if "q \<noteq> p \<or> j \<noteq> i" for q j
    using cb_thread(3) that
    by (auto simp: cb_todo_def cb_combined_barrier_def cb_goto_def cb_return_def split: cb_pc.splits if_splits option.splits)
  show ?thesis unfolding cb_rank_def
  proof (rule sum_one_less [OF cb_thread_index [OF cb_thread(1,2)]])
    show "cb_todo P num_iter t (?x div T) (?x mod T) < cb_todo P num_iter s (?x div T) (?x mod T)"
      unfolding x by (rule cb_todo_decreases [OF sim cb_thread])
    show "cb_todo P num_iter t (y div T) (y mod T) = cb_todo P num_iter s (y div T) (y mod T)" if "y \<noteq> ?x" for y
      by (rule oth) (use that in \<open>metis div_mult_mod_eq\<close>)
  qed
qed

text \<open>
  When no thread can move, the threads of a process without a last thread cannot move in the sense-reversing barrier, so they are
  through; a last thread waits for a message. Then nothing can move in the dissemination barrier either, which only happens when
  every process is through.
\<close>

lemma cb_stuck_done:
  assumes sim: "cb_sim N P T num_iter s d" and stuck: "\<And>t. \<not> cb_step N P T num_iter s t" and "p < P" and "i < T"
  shows "cb_iter s p i = num_iter"
proof -
  have none: "cb_combined_barrier N num_iter q j s = None" if "q < P" "j < T" for q j
    using stuck cb_thread [OF that] by (cases "cb_combined_barrier N num_iter q j s") blast+
  have calm: "db_iter d q = num_iter \<and> db_pc d q = DB_loop \<and> (\<forall>j<T. cb_iter s q j = num_iter)"
    if q: "q < P" and nl: "\<forall>k<T. \<not> sb_last (cb_sb_pc (cb_pc s q k))" for q
  proof -
    have "sb_gtmp_barrier num_iter j (cb_sb q s) = None" if j: "j < T" for j
      using none [OF q j] nl j
      by (cases "cb_pc s q j") (auto simp: cb_combined_barrier_def sb_gtmp_barrier_def cb_sb_def split: if_splits)
    then have "\<not> sb_step T num_iter (cb_sb q s) u" for u by (auto elim: sb_step.cases)
    from sb_stuck_done [OF cb_simD(5) [OF sim q] this] have it: "\<forall>j<T. cb_iter s q j = num_iter" by (simp add: cb_sb_def)
    have "cb_pc s q i = CB_loop"
      using cb_simD(5) [OF sim q] it assms(4) by (cases "cb_pc s q i") (auto simp: sb_inv_def cb_sb_def)
    then have "db_iter d q = num_iter" using cb_without_last(2) [OF sim q nl assms(4)] it assms(4) by (simp add: sb_epoch_def cb_sb_def)
    then show ?thesis using it cb_without_last(1) [OF sim q nl] by blast
  qed
  have waits: "\<exists>r. db_pc d q = DB_recv r \<and> db_gtmpi_barrier N P num_iter q d = None"
    if q: "q < P" and k: "k < T" "sb_last (cb_sb_pc (cb_pc s q k))" for q k
  proof -
    obtain m r where r: "cb_pc s q k = CB_recv m r" "MPI_Recv N (cb_recv_from s q r) q (cb_net s) = None"
      using none [OF q k(1)] k(2) by (cases "cb_pc s q k") (auto simp: cb_combined_barrier_def split: if_splits option.splits)
    have "db_pc d q = DB_recv r" using cb_with_last(3) [OF sim q k k(1)] r(1) by simp
    then show ?thesis using r(2) cb_simD(2,3) [OF sim] by (simp add: db_gtmpi_barrier_def cb_recv_from_def db_recv_from_def)
  qed
  have "db_gtmpi_barrier N P num_iter q d = None" if q: "q < P" for q
  proof (cases "\<forall>k<T. \<not> sb_last (cb_sb_pc (cb_pc s q k))")
    case True
    from calm [OF q this] show ?thesis by (simp add: db_gtmpi_barrier_def)
  next
    case False
    then show ?thesis using waits [OF q] by blast
  qed
  then have "\<not> db_step N P num_iter d u" for u by (auto elim: db_step.cases)
  from db_stuck_done [OF cb_simD(4) [OF sim] this] have through: "\<And>q. q < P \<Longrightarrow> db_iter d q = num_iter" by blast
  have "\<forall>k<T. \<not> sb_last (cb_sb_pc (cb_pc s p k))"
  proof (rule ccontr)
    assume "\<not> (\<forall>k<T. \<not> sb_last (cb_sb_pc (cb_pc s p k)))"
    then obtain r where "db_pc d p = DB_recv r" using waits [OF assms(3)] by blast
    then show False using cb_simD(4) [OF sim] through [OF assms(3)] assms(3) by (auto simp: db_inv_def db_local_def)
  qed
  from calm [OF assms(3) this] show ?thesis using assms(4) by blast
qed

interpretation cb: terminating_barrier "P * T" "cb_start N P T" "cb_step N P T num_iter" "\<lambda>s x. cb_entered s (x div T) (x mod T)"
  "\<lambda>s x. cb_left s (x div T) (x mod T)" num_iter "cb_rank P T num_iter"
proof unfold_locales
  fix s i j t
  assume "reachable (cb_start N P T) (cb_step N P T num_iter) s"
  then obtain d where sim: "cb_sim N P T num_iter s d" using cbs.sim_reachable by blast
  have x: "x div T < P \<and> x mod T < T" if "x < P * T" for x
    using that by (metis less_mult_imp_div_less mod_less_divisor mult_0_right neq0_conv not_less_zero)
  show "cb_left s (i div T) (i mod T) \<le> cb_entered s (i div T) (i mod T) \<and> cb_entered s (i div T) (i mod T) \<le> Suc (cb_left s (i div T) (i mod T))"
    by (simp add: cb_left_def cb_entered_def)
  show "i < P * T \<Longrightarrow> j < P * T \<Longrightarrow> cb_left s (i div T) (i mod T) \<le> cb_entered s (j div T) (j mod T)"
    using cb_safe [OF sim] x by blast
  show "(\<And>t. \<not> cb_step N P T num_iter s t) \<Longrightarrow> i < P * T \<Longrightarrow> cb_left s (i div T) (i mod T) = num_iter"
    using cb_stuck_done [OF sim] x unfolding cb_left_def by blast
  show "cb_step N P T num_iter s t \<Longrightarrow> cb_rank P T num_iter t < cb_rank P T num_iter s"
    by (rule cb_rank_decreases [OF sim])
qed

section \<open>Properties\<close>

abbreviation cb_begin :: "'n mpi_net \<Rightarrow> nat \<Rightarrow> nat \<Rightarrow> 'n cb_state \<Rightarrow> bool" where
  "cb_begin N P T s \<equiv> s = cb_combined_init N P T"

lemma cb_begin_reachable: "reachable (cb_begin N P T) (cb_step N P T num_iter) (cb_combined_init N P T)"
  by (rule reachable_start) simp

lemma cb_start_reachable: "mpi_ok N \<Longrightarrow> reachable (cb_start N P T) (cb_step N P T num_iter) (cb_combined_init N P T)"
  by (rule reachable_start) simp

text \<open>
  C18: If MPI meets its laws, no thread of any process leaves its \<open>k\<close>-th call of the combined barrier before every thread of every
  process has begun its \<open>k\<close>-th call, for any number of processes and of threads.
\<close>

theorem combined_barrier_safe:
  assumes "mpi_ok N" and "reachable (cb_begin N P T) (cb_step N P T num_iter) s" and "p < P" and "i < T" and "q < P" and "j < T"
  shows "cb_left s p i \<le> cb_entered s q j \<and> cb_left s p i \<le> Suc (cb_left s q j)"
proof -
  note r = reachable_with [OF assms(2,1)]
  show ?thesis
    using cb.safe [OF r cb_thread_index [OF assms(3,4)] cb_thread_index [OF assms(5,6)]]
      cb.phases_close(2) [OF r cb_thread_index [OF assms(3,4)] cb_thread_index [OF assms(5,6)]] assms(4,6) by simp
qed

theorem combined_barrier_safe_witness:
  "cb_left (cb_combined_init counting_net 4 8) 1 2 \<le> cb_entered (cb_combined_init counting_net 4 8) 3 7 \<and>
   cb_left (cb_combined_init counting_net 4 8) 1 2 \<le> Suc (cb_left (cb_combined_init counting_net 4 8) 3 7)"
  by (rule combined_barrier_safe [OF counting_net_ok cb_begin_reachable [of _ 4 8 10]]) simp_all

text \<open>
  C19: The combined barrier cannot deadlock: from every reachable state all threads can complete their \<open>num_iter\<close> calls, every run has
  at most \<open>P * T * num_iter * (2 * ceil(log2(P)) + 6)\<close> steps, and it stops only when all are through.
\<close>

theorem combined_barrier_completes:
  assumes "mpi_ok N" and "reachable (cb_begin N P T) (cb_step N P T num_iter) s"
  shows "(\<exists>t. (cb_step N P T num_iter)\<^sup>*\<^sup>* s t \<and> (\<forall>p<P. \<forall>i<T. cb_left t p i = num_iter))
    \<and> (\<forall>k t. (cb_step N P T num_iter ^^ k) (cb_combined_init N P T) t \<longrightarrow> k \<le> P * T * ((2 * db_num_rounds P + 6) * num_iter))
    \<and> ((\<nexists>t. cb_step N P T num_iter s t) \<longrightarrow> (\<forall>p<P. \<forall>i<T. cb_left s p i = num_iter))"
proof -
  note r = reachable_with [OF assms(2,1)]
  have all: "\<forall>p<P. \<forall>i<T. cb_left t p i = num_iter" if "\<forall>x<P * T. cb_left t (x div T) (x mod T) = num_iter" for t
  proof (intro allI impI)
    fix p i assume a: "p < P" "i < T"
    have "cb_left t ((p * T + i) div T) ((p * T + i) mod T) = num_iter" using that cb_thread_index [OF a] by blast
    then show "cb_left t p i = num_iter" using a(2) by simp
  qed
  have rank0: "cb_rank P T num_iter (cb_combined_init N P T) = P * T * ((2 * db_num_rounds P + 6) * num_iter)"
    by (simp add: cb_rank_def cb_todo_def steps_todo_def cb_combined_init_def)
  have "k \<le> P * T * ((2 * db_num_rounds P + 6) * num_iter)" if "(cb_step N P T num_iter ^^ k) (cb_combined_init N P T) t" for k t
    using cb.run_length [OF cb_start_reachable [OF assms(1)] that] rank0 by simp
  then show ?thesis using cb.run_completes [OF r] cb.blocked_iff_done [OF r] all by blast
qed

theorem combined_barrier_completes_witness:
  "\<exists>t. (cb_step counting_net 4 8 10)\<^sup>*\<^sup>* (cb_combined_init counting_net 4 8) t \<and> (\<forall>p<4. \<forall>i<8. cb_left t p i = 10)"
  using combined_barrier_completes [OF counting_net_ok cb_begin_reachable [of _ 4 8 10]] by blast

end
