(* ===== verification/StoreServer.thy ===== *)
theory StoreServer
  imports CppStrings
begin

text \<open>
  The store of project 3: \<^verbatim>\<open>project3/src/threadpool.h\<close>, \<^verbatim>\<open>project3/src/vendor_client.cc\<close> and
  \<^verbatim>\<open>project3/src/store.cc\<close>. The dispatcher thread takes events from the completion queue, the threads of the
  pool serve queries by asking every vendor for a bid. The gRPC runtime is a parameter: which calls arrive
  when is a step of the model, and what the vendors answer is the argument \<open>net\<close>. Prices are of an
  arbitrary type.
\<close>

section \<open>The vendor client\<close>

record 'p bid_event =
  ev_tag :: int
  ev_ok :: bool
  ev_status :: bool
  ev_reply :: "'p \<times> string"

text \<open>
  What the completion queue delivers, in order, for the calls (vendor and product) that were started. All
  calls are given the same \<open>status\<close> and \<open>reply\<close> (\<^verbatim>\<open>vendor_client.cc:84\<close>), and the loop reads them after every
  completion: \<open>ev_status\<close> and \<open>ev_reply\<close> are what these two variables hold when \<open>Next\<close> has returned that
  completion, which need not be the result of the call that has completed.
\<close>

type_synonym 'p bid_net = "(string \<times> string) list \<Rightarrow> 'p bid_event list"

definition getProductBid :: "'p bid_net \<Rightarrow> string list \<Rightarrow> string \<Rightarrow> ('p \<times> string) list outcome" where
  "getProductBid net vendor_ips product_name =
     (let events = net (map (\<lambda>ip. (ip, product_name)) vendor_ips)
      in foldm (\<lambda>i product_bids. bnd (rd events (int i)) (\<lambda>ev.
           if ev_tag ev \<noteq> 1 then Inl AssertFailed
           else if \<not> ev_ok ev then Inl AssertFailed
           else Inr (if ev_status ev then product_bids @ [ev_reply ev] else product_bids)))
         [0..<length vendor_ips] [])"

text \<open>
  \<open>answer\<close> gives the status and the reply of a call. \<open>net_ok\<close>: the queue delivers one completion per
  call, with the tag it was given, and the \<open>ok\<close> of a client-side \<open>Finish\<close> is always true; a \<open>reply\<close> found
  next to an OK status is that of one of the calls that succeeded, because only these write it.
\<close>

definition net_ok :: "'p bid_net \<Rightarrow> (string \<times> string \<Rightarrow> bool \<times> 'p \<times> string) \<Rightarrow> bool" where
  "net_ok net answer \<longleftrightarrow> (\<forall>calls. length (net calls) = length calls \<and>
     (\<forall>e\<in>set (net calls). ev_tag e = 1 \<and> ev_ok e \<and> (ev_status e \<longrightarrow> (\<exists>c\<in>set calls. answer c = (True, ev_reply e)))))"

text \<open>
  \<open>net_paired\<close>: no completion overwrites the variables before the loop has read those of the one
  before. gRPC does not promise it; it is what the code would need to collect one bid per vendor.
\<close>

definition net_paired :: "'p bid_net \<Rightarrow> (string \<times> string \<Rightarrow> bool \<times> 'p \<times> string) \<Rightarrow> bool" where
  "net_paired net answer \<longleftrightarrow> (\<forall>calls. mset (map (\<lambda>e. (ev_status e, ev_reply e)) (net calls)) = mset (map answer calls))"

section \<open>The thread pool\<close>

datatype thread = Waiting | Running nat | Serving nat

definition max_threads :: "int \<Rightarrow> int \<Rightarrow> int" where
  "max_threads hardware_concurrency num_threads = max hardware_concurrency num_threads"

definition new_threads :: "int \<Rightarrow> int \<Rightarrow> thread list" where
  "new_threads hardware_concurrency num_threads = replicate (nat (max_threads hardware_concurrency num_threads)) Waiting"

definition queue_push :: "'a \<Rightarrow> 'a list \<Rightarrow> 'a list outcome" where
  "queue_push job q = Inr (q @ [job])"

text \<open>\<open>front\<close> and \<open>pop\<close>; on an empty queue they are undefined behaviour.\<close>

definition queue_pop :: "'a list \<Rightarrow> ('a \<times> 'a list) outcome" where
  "queue_pop q = (case q of [] \<Rightarrow> Inl BadPointer | job # rest \<Rightarrow> Inr (job, rest))"

interpretation std_queue: fifo_queue "(=)" "\<lambda>_ _. True" queue_push queue_pop "\<lambda>q. q = []"
  by unfold_locales (auto simp: queue_push_def queue_pop_def)

section \<open>The server\<close>

datatype CallStatus = CREATE | PROCESS | FINISH

record 'p CallData =
  status :: CallStatus
  request :: string
  reply :: "('p \<times> string) list"

text \<open>
  \<open>objs\<close>: the live \<open>CallData\<close> objects by address; \<open>armed\<close>: those for which
  \<open>RequestgetProducts\<close> is outstanding; \<open>cq\<close>: the events of the completion queue; \<open>accepted\<close> and
  \<open>answered\<close> record the queries taken and the replies given.
\<close>

record 'p store =
  objs :: "nat \<Rightarrow> 'p CallData option"
  fresh_addr :: nat
  armed :: "nat list"
  cq :: "nat list"
  event_queue :: "nat list"
  threads :: "thread list"
  accepted :: "string list"
  answered :: "(string \<times> ('p \<times> string) list) list"
  fault :: "c_fault option"

definition add_job :: "nat \<Rightarrow> 'p store \<Rightarrow> 'p store" where
  "add_job job s = (case queue_push job (event_queue s) of Inl e \<Rightarrow> s\<lparr>fault := Some e\<rparr> | Inr q \<Rightarrow> s\<lparr>event_queue := q\<rparr>)"

definition Proceed :: "nat \<Rightarrow> 'p store \<Rightarrow> 'p store" where
  "Proceed this s = (case objs s this of
       None \<Rightarrow> s\<lparr>fault := Some BadPointer\<rparr>
     | Some cd \<Rightarrow> (case status cd of
           CREATE \<Rightarrow> s\<lparr>objs := (objs s)(this \<mapsto> cd\<lparr>status := PROCESS\<rparr>), armed := armed s @ [this]\<rparr>
         | PROCESS \<Rightarrow> add_job this s
         | FINISH \<Rightarrow> s\<lparr>objs := (objs s)(this := None)\<rparr>))"

definition new_CallData :: "'p store \<Rightarrow> 'p store" where
  "new_CallData s =
     Proceed (fresh_addr s) (s\<lparr>objs := (objs s)(fresh_addr s \<mapsto> \<lparr>status = CREATE, request = [], reply = []\<rparr>),
       fresh_addr := Suc (fresh_addr s)\<rparr>)"

definition store_start :: "thread list \<Rightarrow> 'p store" where
  "store_start ts = new_CallData \<lparr>objs = Map.empty, fresh_addr = 0, armed = [], cq = [], event_queue = [], threads = ts,
     accepted = [], answered = [], fault = None\<rparr>"

text \<open>The second half of a job: ask the vendors, fill the reply, hand it to \<open>Finish\<close>.\<close>

definition serve :: "'p bid_net \<Rightarrow> string list \<Rightarrow> nat \<Rightarrow> 'p store \<Rightarrow> 'p store" where
  "serve net vendor_ips this s = (case objs s this of
       None \<Rightarrow> s\<lparr>fault := Some BadPointer\<rparr>
     | Some cd \<Rightarrow> (case getProductBid net vendor_ips (request cd) of
           Inl e \<Rightarrow> s\<lparr>fault := Some e\<rparr>
         | Inr response \<Rightarrow>
             let cd = cd\<lparr>reply := reply cd @ response, status := FINISH\<rparr>
             in s\<lparr>objs := (objs s)(this \<mapsto> cd), answered := answered s @ [(request cd, reply cd)], cq := cq s @ [this]\<rparr>))"

text \<open>gRPC fills the request of the object that was registered and posts its event.\<close>

definition rpc_arrives :: "string \<Rightarrow> nat \<Rightarrow> 'p store \<Rightarrow> 'p store" where
  "rpc_arrives q this s = (case objs s this of
       None \<Rightarrow> s\<lparr>fault := Some BadPointer\<rparr>
     | Some cd \<Rightarrow> s\<lparr>objs := (objs s)(this \<mapsto> cd\<lparr>request := q\<rparr>), cq := cq s @ [this], accepted := accepted s @ [q]\<rparr>)"

text \<open>
  One step of the environment, the dispatcher or a thread of the pool. \<open>handle_not_ok\<close>: the event of
  a \<open>Finish\<close> is not ok when the call is already dead, for example because its client is gone; the
  dispatcher asserts \<open>ok\<close> of every event, so the store aborts.
\<close>

inductive store_step :: "'p bid_net \<Rightarrow> string list \<Rightarrow> 'p store \<Rightarrow> 'p store \<Rightarrow> bool"
  for net :: "'p bid_net" and vendor_ips :: "string list" where
  arrive: "fault s = None \<Longrightarrow> armed s = A @ this # B \<Longrightarrow> store_step net vendor_ips s (rpc_arrives q this (s\<lparr>armed := A @ B\<rparr>))"
| handle: "fault s = None \<Longrightarrow> cq s = A @ this # B \<Longrightarrow> store_step net vendor_ips s (Proceed this (s\<lparr>cq := A @ B\<rparr>))"
| handle_not_ok: "fault s = None \<Longrightarrow> cq s = A @ this # B \<Longrightarrow> objs s this = Some cd \<Longrightarrow> status cd = FINISH \<Longrightarrow>
    store_step net vendor_ips s (s\<lparr>cq := A @ B, fault := Some AssertFailed\<rparr>)"
| take_job: "fault s = None \<Longrightarrow> threads s = A @ Waiting # B \<Longrightarrow> event_queue s \<noteq> [] \<Longrightarrow> queue_pop (event_queue s) = Inr (job, rest) \<Longrightarrow>
    store_step net vendor_ips s (s\<lparr>threads := A @ Running job # B, event_queue := rest\<rparr>)"
| create: "fault s = None \<Longrightarrow> threads s = A @ Running this # B \<Longrightarrow>
    store_step net vendor_ips s (new_CallData (s\<lparr>threads := A @ Serving this # B\<rparr>))"
| finish: "fault s = None \<Longrightarrow> threads s = A @ Serving this # B \<Longrightarrow>
    store_step net vendor_ips s (serve net vendor_ips this (s\<lparr>threads := A @ Waiting # B\<rparr>))"

section \<open>Start-up\<close>

definition get_vendor_ips :: "string option \<Rightarrow> string list \<Rightarrow> string list" where
  "get_vendor_ips file vendor_ips = (case file of None \<Rightarrow> vendor_ips | Some c \<Rightarrow> vendor_ips @ getlines (CHR 0x0A) c)"

definition store_main :: "int \<Rightarrow> (string \<Rightarrow> string option) \<Rightarrow> string list \<Rightarrow> (string list \<times> 'p store) outcome" where
  "store_main hardware_concurrency fs argv =
     (if length argv \<noteq> 4 then Inl (Exit 0)
      else bnd (atoi (argv ! 3)) (\<lambda>n.
        Inr (get_vendor_ips (fs (argv ! 1)) [], store_start (new_threads hardware_concurrency n))))"

section \<open>Bids\<close>

lemma ev_mset: "mset (map ev_reply (filter ev_status es)) = image_mset snd (filter_mset fst (mset (map (\<lambda>e. (ev_status e, ev_reply e)) es)))"
  by (induction es) simp_all

lemma getProductBid_run:
  assumes "net_ok net answer"
  shows "getProductBid net ips product =
    Inr (map ev_reply (filter ev_status (net (map (\<lambda>ip. (ip, product)) ips))))"
proof -
  let ?ev = "net (map (\<lambda>ip. (ip, product)) ips)" and ?body = "\<lambda>ev bids. if ev_status ev then bids @ [ev_reply ev] else bids"
  have len: "length ?ev = length ips" and ok: "\<And>e. e \<in> set ?ev \<Longrightarrow> ev_tag e = 1 \<and> ev_ok e"
    using assms unfolding net_ok_def by simp_all
  have run: "foldm (\<lambda>i bids. bnd (rd ?ev (int i)) (\<lambda>ev. if ev_tag ev \<noteq> 1 then Inl AssertFailed else if \<not> ev_ok ev then Inl AssertFailed
      else Inr (?body ev bids))) [0..<k] [] = Inr (map ev_reply (filter ev_status (take k ?ev)))" if "k \<le> length ips" for k
    using that
  proof (induction k)
    case (Suc k)
    have "?ev ! k \<in> set ?ev" using Suc.prems len by simp
    then show ?case using Suc ok [of "?ev ! k"] len by (simp add: foldm_append take_Suc_conv_app_nth)
  qed simp
  show ?thesis using run [OF order_refl] len by (simp add: getProductBid_def Let_def)
qed

text \<open>What the bids are: replies of vendors, and under \<open>net_paired\<close> one for each that answered.\<close>

definition bids_ok :: "(string \<times> string \<Rightarrow> bool \<times> 'p \<times> string) \<Rightarrow> string list \<Rightarrow> string \<Rightarrow> ('p \<times> string) list \<Rightarrow> bool" where
  "bids_ok answer ips product bids \<longleftrightarrow> length bids \<le> length ips \<and>
     (\<forall>b\<in>set bids. \<exists>ip\<in>set ips. answer (ip, product) = (True, b))"

lemma getProductBid_bids:
  assumes "net_ok net answer" and "getProductBid net ips product = Inr bids"
  shows "bids_ok answer ips product bids"
    and "net_paired net answer \<Longrightarrow> mset bids = mset (map snd (filter fst (map (\<lambda>ip. answer (ip, product)) ips)))"
proof -
  let ?calls = "map (\<lambda>ip. (ip, product)) ips"
  have bids: "bids = map ev_reply (filter ev_status (net ?calls))"
    using assms(2) by (simp add: getProductBid_run [OF assms(1)])
  have "length (net ?calls) = length ips" using assms(1) unfolding net_ok_def by simp
  then have "length bids \<le> length ips" unfolding bids by (metis length_filter_le length_map)
  moreover have "\<exists>ip\<in>set ips. answer (ip, product) = (True, b)" if "b \<in> set bids" for b
  proof -
    from that obtain e where "e \<in> set (net ?calls)" "ev_status e" "b = ev_reply e" by (auto simp: bids)
    then show ?thesis using assms(1) unfolding net_ok_def by fastforce
  qed
  ultimately show "bids_ok answer ips product bids" by (simp add: bids_ok_def)
  assume "net_paired net answer"
  then have m: "mset (map (\<lambda>e. (ev_status e, ev_reply e)) (net ?calls)) = mset (map answer ?calls)"
    unfolding net_paired_def by blast
  have "mset bids = image_mset snd (filter_mset fst (mset (map (\<lambda>e. (ev_status e, ev_reply e)) (net ?calls))))"
    unfolding bids by (rule ev_mset)
  also have "\<dots> = mset (map snd (filter fst (map (\<lambda>ip. answer (ip, product)) ips)))" by (simp only: m) (simp add: comp_def)
  finally show "mset bids = mset (map snd (filter fst (map (\<lambda>ip. answer (ip, product)) ips)))" .
qed

section \<open>Invariant\<close>

fun run_id :: "thread \<Rightarrow> nat list" where
  "run_id (Running i) = [i]"
| "run_id _ = []"

fun serve_id :: "thread \<Rightarrow> nat list" where
  "serve_id (Serving i) = [i]"
| "serve_id _ = []"

definition running :: "thread list \<Rightarrow> nat list" where
  "running ts = concat (map run_id ts)"

definition serving :: "thread list \<Rightarrow> nat list" where
  "serving ts = concat (map serve_id ts)"

lemma thread_ids [simp]:
  "running (A @ t # B) = running A @ run_id t @ running B" "serving (A @ t # B) = serving A @ serve_id t @ serving B"
  by (simp_all add: running_def serving_def)

definition proc :: "(nat \<Rightarrow> 'p CallData option) \<Rightarrow> nat \<Rightarrow> bool" where
  "proc m i = (case m i of None \<Rightarrow> False | Some cd \<Rightarrow> status cd = PROCESS \<and> reply cd = [])"

definition done_obj :: "(nat \<Rightarrow> 'p CallData option) \<Rightarrow> nat \<Rightarrow> bool" where
  "done_obj m i = (case m i of None \<Rightarrow> False | Some cd \<Rightarrow> status cd = FINISH)"

definition req :: "(nat \<Rightarrow> 'p CallData option) \<Rightarrow> nat \<Rightarrow> string" where
  "req m i = request (the (m i))"

text \<open>The objects that are being processed, and where every live object is.\<close>

definition in_progress :: "'p store \<Rightarrow> nat list" where
  "in_progress s = filter (proc (objs s)) (cq s) @ event_queue s @ running (threads s) @ serving (threads s)"

definition locs :: "'p store \<Rightarrow> nat list" where
  "locs s = armed s @ cq s @ event_queue s @ running (threads s) @ serving (threads s)"

text \<open>The objects that will register, or have registered, for the next call.\<close>

definition acceptors :: "'p store \<Rightarrow> nat" where
  "acceptors s = length (armed s) + length (filter (proc (objs s)) (cq s)) + length (event_queue s) + length (running (threads s))"

definition store_inv :: "'p bid_net \<Rightarrow> string list \<Rightarrow> 'p store \<Rightarrow> bool" where
  "store_inv net ips s \<longleftrightarrow> fault s = None \<and> distinct (locs s) \<and> set (locs s) = dom (objs s) \<and> (\<forall>i\<in>set (locs s). i < fresh_addr s) \<and>
     (\<forall>i\<in>set (armed s @ event_queue s @ running (threads s) @ serving (threads s)). proc (objs s) i) \<and>
     (\<forall>i\<in>set (cq s). proc (objs s) i \<or> done_obj (objs s) i) \<and> acceptors s = 1 \<and>
     mset (accepted s) = mset (map fst (answered s)) + mset (map (req (objs s)) (in_progress s)) \<and>
     (\<forall>qr\<in>set (answered s). getProductBid net ips (fst qr) = Inr (snd qr))"

lemma store_invD:
  assumes "store_inv net ips s"
  shows "fault s = None" and "distinct (locs s)" and "set (locs s) = dom (objs s)" and "\<And>i. i \<in> set (locs s) \<Longrightarrow> i < fresh_addr s"
    and "\<And>i. i \<in> set (armed s @ event_queue s @ running (threads s) @ serving (threads s)) \<Longrightarrow> proc (objs s) i"
    and "\<And>i. i \<in> set (cq s) \<Longrightarrow> proc (objs s) i \<or> done_obj (objs s) i" and "acceptors s = 1"
    and "mset (accepted s) = mset (map fst (answered s)) + mset (map (req (objs s)) (in_progress s))"
    and "\<And>qr. qr \<in> set (answered s) \<Longrightarrow> getProductBid net ips (fst qr) = Inr (snd qr)"
  using assms unfolding store_inv_def by blast+

lemma store_invI:
  assumes "fault s = None" and "distinct (locs s)" and "set (locs s) = dom (objs s)" and "\<And>i. i \<in> set (locs s) \<Longrightarrow> i < fresh_addr s"
    and "\<And>i. i \<in> set (armed s @ event_queue s @ running (threads s) @ serving (threads s)) \<Longrightarrow> proc (objs s) i"
    and "\<And>i. i \<in> set (cq s) \<Longrightarrow> proc (objs s) i \<or> done_obj (objs s) i" and "acceptors s = 1"
    and "mset (accepted s) = mset (map fst (answered s)) + mset (map (req (objs s)) (in_progress s))"
    and "\<And>qr. qr \<in> set (answered s) \<Longrightarrow> getProductBid net ips (fst qr) = Inr (snd qr)"
  shows "store_inv net ips s"
  unfolding store_inv_def using assms by blast

text \<open>An object that is being processed.\<close>

lemma procE:
  assumes "proc m i"
  obtains cd where "m i = Some cd" and "status cd = PROCESS" and "reply cd = []"
  using assms by (auto simp: proc_def split: option.splits)

lemma proc_other: "i \<noteq> j \<Longrightarrow> proc (m(i := v)) j = proc m j" "i \<noteq> j \<Longrightarrow> done_obj (m(i := v)) j = done_obj m j"
  by (simp_all add: proc_def done_obj_def)

lemmas store_defs = store_inv_def locs_def acceptors_def in_progress_def

lemma obj_upd:
  assumes "i \<notin> set xs"
  shows "filter (proc (m(i := v))) xs = filter (proc m) xs" and "map (req (m(i := v))) xs = map (req m) xs"
    and "(\<forall>j\<in>set xs. proc (m(i := v)) j) = (\<forall>j\<in>set xs. proc m j)"
    and "(\<forall>j\<in>set xs. proc (m(i := v)) j \<or> done_obj (m(i := v)) j) = (\<forall>j\<in>set xs. proc m j \<or> done_obj m j)"
proof -
  have *: "proc (m(i := v)) j = proc m j" "req (m(i := v)) j = req m j" "done_obj (m(i := v)) j = done_obj m j" if "j \<in> set xs" for j
    using that assms by (auto simp: proc_def req_def done_obj_def)
  then show "filter (proc (m(i := v))) xs = filter (proc m) xs" "map (req (m(i := v))) xs = map (req m) xs"
    "(\<forall>j\<in>set xs. proc (m(i := v)) j) = (\<forall>j\<in>set xs. proc m j)"
    "(\<forall>j\<in>set xs. proc (m(i := v)) j \<or> done_obj (m(i := v)) j) = (\<forall>j\<in>set xs. proc m j \<or> done_obj m j)"
    by (auto intro: filter_cong)
qed

lemma proc_simps [simp]:
  "proc (m(i \<mapsto> cd)) i = (status cd = PROCESS \<and> reply cd = [])" "done_obj (m(i \<mapsto> cd)) i = (status cd = FINISH)"
  "req (m(i \<mapsto> cd)) i = request cd"
  by (simp_all add: proc_def done_obj_def req_def)

lemma new_CallData_run:
  "new_CallData s = s\<lparr>objs := (objs s)(fresh_addr s \<mapsto> \<lparr>status = PROCESS, request = [], reply = []\<rparr>),
     fresh_addr := Suc (fresh_addr s), armed := armed s @ [fresh_addr s]\<rparr>"
  by (simp add: new_CallData_def Proceed_def)

lemma store_inv_start:
  assumes "set ts \<subseteq> {Waiting}"
  shows "store_inv net ips (store_start ts)"
proof -
  have "running ts = []" "serving ts = []" using assms by (auto simp: running_def serving_def)
  then show ?thesis by (simp add: store_start_def new_CallData_run store_defs)
qed

lemma inv_arrive:
  assumes "store_inv net ips s" and ar: "armed s = A @ this # B"
  shows "store_inv net ips (rpc_arrives q this (s\<lparr>armed := A @ B\<rparr>))"
proof -
  note I = store_invD [OF assms(1)]
  obtain cd where cd: "objs s this = Some cd" "status cd = PROCESS" "reply cd = []"
    using I(5) [of this] ar by (auto elim: procE)
  have AB: "A = []" "B = []" using I(7) by (auto simp: acceptors_def ar)
  let ?t = "s\<lparr>armed := [], objs := (objs s)(this \<mapsto> cd\<lparr>request := q\<rparr>), cq := cq s @ [this], accepted := accepted s @ [q]\<rparr>"
  have run: "rpc_arrives q this (s\<lparr>armed := A @ B\<rparr>) = ?t" using cd AB by (simp add: rpc_arrives_def)
  have nin: "this \<notin> set (cq s @ event_queue s @ running (threads s) @ serving (threads s))"
    using I(2) by (auto simp: locs_def ar)
  have ml: "mset (locs ?t) = mset (locs s)" by (simp add: locs_def ar AB)
  show ?thesis unfolding run
  proof (rule store_invI)
    show "distinct (locs ?t)" using I(2) mset_eq_imp_distinct_iff [OF ml] by simp
    show "set (locs ?t) = dom (objs ?t)" using I(3) mset_eq_setD [OF ml] cd(1) by auto
    show "i < fresh_addr ?t" if "i \<in> set (locs ?t)" for i using I(4) that mset_eq_setD [OF ml] by auto
    show "proc (objs ?t) i" if "i \<in> set (armed ?t @ event_queue ?t @ running (threads ?t) @ serving (threads ?t))" for i
      using that I(5) nin by (cases "i = this") (auto simp: proc_other)
    show "proc (objs ?t) i \<or> done_obj (objs ?t) i" if "i \<in> set (cq ?t)" for i
      using that I(6) nin cd by (cases "i = this") (auto simp: proc_other)
    show "acceptors ?t = 1" using I(7) nin cd by (simp add: acceptors_def ar AB obj_upd)
    show "mset (accepted ?t) = mset (map fst (answered ?t)) + mset (map (req (objs ?t)) (in_progress ?t))"
      using I(8) nin cd by (simp add: in_progress_def obj_upd)
  qed (use I(1,9) in auto)
qed

text \<open>A step that only moves an object from one place to the next.\<close>

lemma inv_move:
  assumes "store_inv net ips s" and same: "objs t = objs s" "fresh_addr t = fresh_addr s" "accepted t = accepted s" "answered t = answered s"
    "fault t = fault s" and "mset (locs t) = mset (locs s)" and "set (cq t) \<subseteq> set (cq s)"
    and "\<And>i. i \<in> set (armed t @ event_queue t @ running (threads t) @ serving (threads t)) \<Longrightarrow> proc (objs s) i"
    and "acceptors t = acceptors s" and "mset (in_progress t) = mset (in_progress s)"
  shows "store_inv net ips t"
proof (rule store_invI)
  note I = store_invD [OF assms(1)]
  show "distinct (locs t)" using I(2) mset_eq_imp_distinct_iff [OF assms(7)] by simp
  show "set (locs t) = dom (objs t)" using I(3) mset_eq_setD [OF assms(7)] same by simp
  show "i < fresh_addr t" if "i \<in> set (locs t)" for i using I(4) that mset_eq_setD [OF assms(7)] same by simp
  show "proc (objs t) i" if "i \<in> set (armed t @ event_queue t @ running (threads t) @ serving (threads t))" for i
    using assms(9) [OF that] same by simp
  show "proc (objs t) i \<or> done_obj (objs t) i" if "i \<in> set (cq t)" for i using I(6) that assms(8) same by auto
  show "mset (accepted t) = mset (map fst (answered t)) + mset (map (req (objs t)) (in_progress t))"
    using I(8) same assms(11) by (simp only: mset_map)
qed (use store_invD [OF assms(1)] same assms(10) in auto)

lemma inv_handle:
  assumes "store_inv net ips s" and cq: "cq s = A @ this # B"
  shows "store_inv net ips (Proceed this (s\<lparr>cq := A @ B\<rparr>))"
proof -
  note I = store_invD [OF assms(1)]
  have nin: "this \<notin> set (armed s @ A @ B @ event_queue s @ running (threads s) @ serving (threads s))"
    using I(2) by (auto simp: locs_def cq)
  consider "proc (objs s) this" | "\<not> proc (objs s) this" "done_obj (objs s) this" using I(6) [of this] cq by auto
  then show ?thesis
  proof cases
    case 1
    then obtain cd where cd: "objs s this = Some cd" "status cd = PROCESS" by (elim procE)
    let ?t = "s\<lparr>cq := A @ B, event_queue := event_queue s @ [this]\<rparr>"
    have run: "Proceed this (s\<lparr>cq := A @ B\<rparr>) = ?t" using cd by (simp add: Proceed_def add_job_def queue_push_def)
    show ?thesis unfolding run using 1 I(5)
      by (intro inv_move [OF assms(1)]) (auto simp: locs_def cq acceptors_def in_progress_def)
  next
    case 2
    then obtain cd where cd: "objs s this = Some cd" "status cd = FINISH" by (auto simp: done_obj_def split: option.splits)
    let ?t = "s\<lparr>cq := A @ B, objs := (objs s)(this := None)\<rparr>"
    have run: "Proceed this (s\<lparr>cq := A @ B\<rparr>) = ?t" using cd by (simp add: Proceed_def)
    have ml: "mset (locs s) = add_mset this (mset (locs ?t))" by (simp add: locs_def cq)
    then have "distinct (this # locs ?t)" using I(2) mset_eq_imp_distinct_iff [of "locs s" "this # locs ?t"] by simp
    moreover have "set (locs s) = insert this (set (locs ?t))" using mset_eq_setD [of "locs s" "this # locs ?t"] ml by simp
    ultimately have dl: "distinct (locs ?t)" "set (locs ?t) = dom (objs ?t)" "set (locs ?t) \<subseteq> set (locs s)"
      using I(3) by auto
    show ?thesis unfolding run
    proof (rule store_invI)
      show "i < fresh_addr ?t" if "i \<in> set (locs ?t)" for i using I(4) that dl(3) by auto
      show "proc (objs ?t) i" if "i \<in> set (armed ?t @ event_queue ?t @ running (threads ?t) @ serving (threads ?t))" for i
        using that I(5) nin by (cases "i = this") (auto simp: proc_other)
      show "proc (objs ?t) i \<or> done_obj (objs ?t) i" if "i \<in> set (cq ?t)" for i
        using that I(6) nin by (cases "i = this") (auto simp: proc_other cq)
      show "acceptors ?t = 1" using I(7) 2(1) nin by (simp add: acceptors_def cq obj_upd)
      show "mset (accepted ?t) = mset (map fst (answered ?t)) + mset (map (req (objs ?t)) (in_progress ?t))"
        using I(8) 2(1) nin by (simp add: in_progress_def cq obj_upd)
    qed (use I(1,9) dl in auto)
  qed
qed

lemma inv_take_job:
  assumes "store_inv net ips s" and th: "threads s = A @ Waiting # B" and "queue_pop (event_queue s) = Inr (job, rest)"
  shows "store_inv net ips (s\<lparr>threads := A @ Running job # B, event_queue := rest\<rparr>)"
proof -
  have q: "event_queue s = job # rest" using assms(3) by (auto simp: queue_pop_def split: list.splits)
  show ?thesis using store_invD(5) [OF assms(1)]
    by (intro inv_move [OF assms(1)]) (auto simp: locs_def th q acceptors_def in_progress_def)
qed

lemma inv_create:
  assumes "store_inv net ips s" and th: "threads s = A @ Running this # B"
  shows "store_inv net ips (new_CallData (s\<lparr>threads := A @ Serving this # B\<rparr>))"
proof -
  note I = store_invD [OF assms(1)]
  let ?f = "fresh_addr s"
  let ?t = "s\<lparr>threads := A @ Serving this # B, objs := (objs s)(?f \<mapsto> \<lparr>status = PROCESS, request = [], reply = []\<rparr>),
     fresh_addr := Suc ?f, armed := armed s @ [?f]\<rparr>"
  have run: "new_CallData (s\<lparr>threads := A @ Serving this # B\<rparr>) = ?t" by (simp add: new_CallData_run)
  have nl: "?f \<notin> set (locs s)" using I(4) by blast
  then have nin: "?f \<notin> set (armed s)" "?f \<notin> set (cq s)" "?f \<notin> set (event_queue s)" "?f \<noteq> this"
    "?f \<notin> set (running A)" "?f \<notin> set (running B)" "?f \<notin> set (serving A)" "?f \<notin> set (serving B)" by (auto simp: locs_def th)
  have ml: "mset (locs ?t) = mset (?f # locs s)" by (simp add: locs_def th)
  show ?thesis unfolding run
  proof (rule store_invI)
    show "distinct (locs ?t)" using I(2) nl mset_eq_imp_distinct_iff [OF ml] by simp
    show "set (locs ?t) = dom (objs ?t)" using I(3) mset_eq_setD [OF ml] by auto
    show "i < fresh_addr ?t" if "i \<in> set (locs ?t)" for i using I(4) that mset_eq_setD [OF ml] by (auto simp: less_Suc_eq)
    show "proc (objs ?t) i" if "i \<in> set (armed ?t @ event_queue ?t @ running (threads ?t) @ serving (threads ?t))" for i
      using that I(5) by (cases "i = ?f") (auto simp: proc_other th)
    show "proc (objs ?t) i \<or> done_obj (objs ?t) i" if "i \<in> set (cq ?t)" for i
      using that I(6) nin by (cases "i = ?f") (auto simp: proc_other)
    show "acceptors ?t = 1" using I(7) nin by (simp add: acceptors_def th obj_upd)
    show "mset (accepted ?t) = mset (map fst (answered ?t)) + mset (map (req (objs ?t)) (in_progress ?t))"
      using I(8) nin obj_upd(2) [of ?f "[this]" "objs s"] by (simp add: in_progress_def th obj_upd)
  qed (use I(1,9) in auto)
qed

lemma inv_finish:
  assumes "store_inv net ips s" and th: "threads s = A @ Serving this # B" and "net_ok net answer"
  shows "store_inv net ips (serve net ips this (s\<lparr>threads := A @ Waiting # B\<rparr>))"
proof -
  note I = store_invD [OF assms(1)]
  have p: "proc (objs s) this" using I(5) [of this] th by simp
  then obtain cd where cd: "objs s this = Some cd" "status cd = PROCESS" "reply cd = []" by (elim procE)
  obtain bids where bids: "getProductBid net ips (request cd) = Inr bids" using getProductBid_run [OF assms(3)] by blast
  let ?t = "s\<lparr>threads := A @ Waiting # B, objs := (objs s)(this \<mapsto> cd\<lparr>reply := bids, status := FINISH\<rparr>),
     answered := answered s @ [(request cd, bids)], cq := cq s @ [this]\<rparr>"
  have run: "serve net ips this (s\<lparr>threads := A @ Waiting # B\<rparr>) = ?t" using cd bids by (simp add: serve_def)
  have nin: "this \<notin> set (armed s)" "this \<notin> set (cq s)" "this \<notin> set (event_queue s)"
    "this \<notin> set (running A)" "this \<notin> set (running B)" "this \<notin> set (serving A)" "this \<notin> set (serving B)"
    using I(2) by (auto simp: locs_def th)
  have ml: "mset (locs ?t) = mset (locs s)" by (simp add: locs_def th)
  show ?thesis unfolding run
  proof (rule store_invI)
    show "distinct (locs ?t)" using I(2) mset_eq_imp_distinct_iff [OF ml] by simp
    show "set (locs ?t) = dom (objs ?t)" using I(3) mset_eq_setD [OF ml] cd(1) by auto
    show "i < fresh_addr ?t" if "i \<in> set (locs ?t)" for i using I(4) that mset_eq_setD [OF ml] by auto
    show "proc (objs ?t) i" if "i \<in> set (armed ?t @ event_queue ?t @ running (threads ?t) @ serving (threads ?t))" for i
      using that I(5) nin by (cases "i = this") (auto simp: proc_other th)
    show "proc (objs ?t) i \<or> done_obj (objs ?t) i" if "i \<in> set (cq ?t)" for i
      using that I(6) by (cases "i = this") (auto simp: proc_other)
    show "acceptors ?t = 1" using I(7) nin by (simp add: acceptors_def th obj_upd)
    have "req (objs s) this = request cd" using cd(1) by (simp add: req_def)
    then show "mset (accepted ?t) = mset (map fst (answered ?t)) + mset (map (req (objs ?t)) (in_progress ?t))"
      using I(8) nin by (simp add: in_progress_def th obj_upd)
    show "getProductBid net ips (fst qr) = Inr (snd qr)" if "qr \<in> set (answered ?t)" for qr using that I(9) bids by auto
  qed (use I(1) in auto)
qed

section \<open>Reachable states\<close>

text \<open>The store has aborted: the event of a finished call was not ok.\<close>

definition client_gone :: "'p store \<Rightarrow> bool" where
  "client_gone s \<longleftrightarrow> fault s = Some AssertFailed \<and> (\<exists>i. done_obj (objs s) i \<and> i \<notin> set (locs s))"

lemma inv_not_ok:
  assumes "store_inv net ips s" and cq: "cq s = A @ this # B" and "objs s this = Some cd" and "status cd = FINISH"
  shows "client_gone (s\<lparr>cq := A @ B, fault := Some AssertFailed\<rparr>)"
  unfolding client_gone_def
proof (intro conjI exI [of _ this])
  show "this \<notin> set (locs (s\<lparr>cq := A @ B, fault := Some AssertFailed\<rparr>))"
    using store_invD(2) [OF assms(1)] by (auto simp: locs_def cq)
qed (simp_all add: done_obj_def assms(3,4))

lemma store_inv_step:
  assumes "net_ok net answer" and "store_inv net ips s" and "store_step net ips s t"
  shows "if fault t = None then store_inv net ips t else client_gone t"
proof -
  have "store_inv net ips t \<or> client_gone t"
    using assms(3,2)
  proof cases
    case (handle_not_ok A this B cd)
    then show ?thesis using inv_not_ok [OF assms(2)] by blast
  qed (auto intro: inv_arrive inv_handle inv_take_job inv_create inv_finish assms(1))
  then show ?thesis using store_invD(1) [of net ips t] by (cases "store_inv net ips t") (simp_all add: client_gone_def)
qed

definition store_init :: "int \<Rightarrow> int \<Rightarrow> 'p store \<Rightarrow> bool" where
  "store_init hardware_concurrency n s \<longleftrightarrow> s = store_start (new_threads hardware_concurrency n)"

lemma store_reachable_ok:
  assumes "net_ok net answer" and "reachable (store_init hw n) (store_step net ips) s"
  shows "if fault s = None then store_inv net ips s else client_gone s"
proof (rule inductive_invariant.inv_reachable [OF _ assms(2)])
  show "inductive_invariant (store_init hw n) (store_step net ips)
      (\<lambda>s. if fault s = None then store_inv net ips s else client_gone s)"
  proof
    show "if fault s = None then store_inv net ips s else client_gone s" if "store_init hw n s" for s
    proof -
      have "store_inv net ips s"
        using that store_inv_start [of "new_threads hw n" net ips]
        by (simp add: store_init_def new_threads_def set_replicate_conv_if)
      then show ?thesis using store_invD(1) [of net ips s] by simp
    qed
    show "if fault t = None then store_inv net ips t else client_gone t"
      if "if fault s = None then store_inv net ips s else client_gone s" "store_step net ips s t" for s t
    proof -
      have "fault s = None" using that(2) by cases
      with that(1) have "store_inv net ips s" by simp
      then show ?thesis using that(2) by (rule store_inv_step [OF assms(1)])
    qed
  qed
qed

text \<open>Work left for the queries that were accepted, in steps.\<close>

definition work :: "'p store \<Rightarrow> nat" where
  "work s = 4 * length (filter (proc (objs s)) (cq s)) + length (cq s) + 4 * length (event_queue s) +
     3 * length (running (threads s)) + 2 * length (serving (threads s))"

lemma thread_choice:
  assumes "ts \<noteq> []"
  obtains A B where "ts = A @ Waiting # B" | A B i where "ts = A @ Running i # B" | A B i where "ts = A @ Serving i # B"
proof -
  obtain t r where "ts = t # r" using assms by (cases ts) auto
  then show thesis using that(1) [of "[]" r] that(2) [of "[]" _ r] that(3) [of "[]" _ r] by (cases t) auto
qed

lemma thread_busy:
  "running ts \<noteq> [] \<Longrightarrow> \<exists>A i B. ts = A @ Running i # B" "serving ts \<noteq> [] \<Longrightarrow> \<exists>A i B. ts = A @ Serving i # B"
proof -
  assume "running ts \<noteq> []"
  then obtain t where "t \<in> set ts" "run_id t \<noteq> []" by (auto simp: running_def)
  then show "\<exists>A i B. ts = A @ Running i # B" by (metis run_id.elims split_list)
next
  assume "serving ts \<noteq> []"
  then obtain t where "t \<in> set ts" "serve_id t \<noteq> []" by (auto simp: serving_def)
  then show "\<exists>A i B. ts = A @ Serving i # B" by (metis serve_id.elims split_list)
qed

lemma work_step:
  assumes "net_ok net answer" and inv: "store_inv net ips s" and "threads s \<noteq> []" and "0 < work s"
  shows "\<exists>t. store_step net ips s t \<and> work t < work s \<and> accepted t = accepted s \<and> length (threads t) = length (threads s) \<and>
    fault t = None"
proof -
  note I = store_invD [OF inv]
  have create: ?thesis if th: "threads s = A @ Running i # B" for A i B
  proof -
    have nin: "fresh_addr s \<notin> set (cq s)" using I(4) by (auto simp: locs_def)
    show ?thesis using store_step.create [OF I(1) th, of net ips] nin
      by (intro exI [of _ "new_CallData (s\<lparr>threads := A @ Serving i # B\<rparr>)"]) (simp add: new_CallData_run work_def th obj_upd I(1))
  qed
  have finish: ?thesis if th: "threads s = A @ Serving i # B" for A i B
  proof -
    have "proc (objs s) i" using I(5) [of i] th by simp
    then obtain cd where cd: "objs s i = Some cd" by (elim procE)
    obtain bids where "getProductBid net ips (request cd) = Inr bids" using getProductBid_run [OF assms(1)] by blast
    moreover have "i \<notin> set (cq s)" using I(2) by (auto simp: locs_def th)
    ultimately show ?thesis using cd store_step.finish [OF I(1) th, of net ips]
      by (intro exI [of _ "serve net ips i (s\<lparr>threads := A @ Waiting # B\<rparr>)"]) (simp add: serve_def work_def th obj_upd I(1))
  qed
  show ?thesis
  proof (cases "cq s")
    case (Cons this B)
    then have cq: "cq s = [] @ this # B" by simp
    have "this \<notin> set B" using I(2) by (auto simp: locs_def cq)
    moreover have "proc (objs s) this \<or> \<not> proc (objs s) this \<and> done_obj (objs s) this" using I(6) [of this] cq by auto
    ultimately show ?thesis using store_step.handle [OF I(1) cq, of net ips]
      by (intro exI [of _ "Proceed this (s\<lparr>cq := [] @ B\<rparr>)"])
        (auto simp: Proceed_def add_job_def queue_push_def work_def cq obj_upd I(1) proc_def done_obj_def split: option.splits CallStatus.splits)
  next
    case Nil
    show ?thesis
    proof (cases "running (threads s) = [] \<and> serving (threads s) = []")
      case False
      then show ?thesis using create finish thread_busy [of "threads s"] by blast
    next
      case True
      then have q: "event_queue s \<noteq> []" using assms(4) Nil by (simp add: work_def)
      then obtain job rest where jr: "event_queue s = job # rest" by (cases "event_queue s") auto
      then have pop: "queue_pop (event_queue s) = Inr (job, rest)" by (simp add: queue_pop_def)
      obtain A B where th: "threads s = A @ Waiting # B" using thread_choice [OF assms(3)] True by (metis append_is_Nil_conv thread_ids run_id.simps(1) serve_id.simps(1) list.distinct(1))
      show ?thesis using store_step.take_job [OF I(1) th q pop, of net ips]
        by (intro exI [of _ "s\<lparr>threads := A @ Running job # B, event_queue := rest\<rparr>"]) (simp add: work_def th jr I(1))
    qed
  qed
qed

section \<open>Properties\<close>

text \<open>
  A network with two vendors, one of which is down, whose completions come in the order of the calls
  and are read before the next; and a state with one accepted query.
\<close>

definition demo_answer :: "string \<times> string \<Rightarrow> bool \<times> nat \<times> string" where
  "demo_answer c = (fst c \<noteq> ''localhost:50052'', 10 * length (snd c), fst c)"

definition demo_net :: "nat bid_net" where
  "demo_net calls = map (\<lambda>c. \<lparr>ev_tag = 1, ev_ok = True, ev_status = fst (demo_answer c), ev_reply = snd (demo_answer c)\<rparr>) calls"

definition demo_vendors :: "string list" where
  "demo_vendors = [''localhost:50051'', ''localhost:50052'']"

definition demo_store :: "nat store" where
  "demo_store = rpc_arrives ''apple'' 0 ((store_start (new_threads 2 4))\<lparr>armed := []\<rparr>)"

lemma demo_net_ok: "net_ok demo_net demo_answer" "net_paired demo_net demo_answer"
proof -
  show "net_ok demo_net demo_answer" by (auto simp: net_ok_def demo_net_def prod_eq_iff)
  show "net_paired demo_net demo_answer" by (simp add: net_paired_def demo_net_def comp_def)
qed

lemma demo_store_reachable: "reachable (store_init 2 4) (store_step demo_net demo_vendors) demo_store"
proof -
  let ?s = "store_start (new_threads 2 4) :: nat store"
  have "fault ?s = None" "armed ?s = [] @ 0 # []" by (simp_all add: store_start_def new_CallData_run)
  from arrive [OF this, of demo_net demo_vendors "''apple''"]
  have "store_step demo_net demo_vendors ?s demo_store" by (simp add: demo_store_def)
  moreover have "reachable (store_init 2 4) (store_step demo_net demo_vendors) ?s"
    by (rule reachable_start) (simp add: store_init_def)
  ultimately show ?thesis by (rule reachable_step [rotated])
qed

text \<open>
  C21: Whatever calls arrive and however the threads are scheduled, the store touches no deleted
  \<open>CallData\<close>, pops no empty queue and fails no assertion but one: \<open>GPR_ASSERT(ok)\<close> in \<open>HandleRpcs\<close>, on the
  event of a call that has been answered but whose client is gone. Until then exactly one
  object is registered, or about to be registered, for the next call, so the queue of the pool never
  holds more than one job, and every live object is in exactly one place.
\<close>

theorem store_safe:
  assumes "net_ok net answer" and "reachable (store_init hw n) (store_step net ips) s"
  shows "if fault s = None
    then acceptors s = 1 \<and> length (event_queue s) \<le> 1 \<and> distinct (locs s) \<and> set (locs s) = dom (objs s)
    else client_gone s"
  using store_reachable_ok [OF assms] store_invD(2,3,7) [of net ips s] by (auto simp: acceptors_def)

theorem store_safe_witness: "fault demo_store = None \<and> acceptors demo_store = 1 \<and> cq demo_store = [0]"
  using store_safe [OF demo_net_ok(1) demo_store_reachable]
  by (simp add: demo_store_def rpc_arrives_def store_start_def new_CallData_run)



end
