(* ===== verification/Spec2Isabelle.thy ===== *)
theory Spec2Isabelle
  imports AOS_Prelude MemoryCoordinator LinkedQueue ProducerConsumer ProducerConsumerProgress
    VcpuScheduler BarrierSpec SenseBarrier TreeBarrier McsBarrier MpiModel DisseminationBarrier MpiTreeBarrier
    CppStrings MapReduceSpec FileShard MrTasks WorkerRequest UserTasks MapReduceRun Master MasterRun MasterThreads MapReduceSystem MapReduceProgress MapReduceMain WorkerServer CombinedBarrier StoreServer
begin

text \<open>
  A verification development for the projects of an advanced operating systems course. The repository
  holds five programs that share no code:

  \<^item> \<^verbatim>\<open>prelab\<close>: two producer and two consumer threads around a linked list with a mutex and two
    condition variables.
  \<^item> \<^verbatim>\<open>project1-1\<close>: a vCPU scheduler and a memory coordinator for virtual machines, on libvirt.
  \<^item> \<^verbatim>\<open>project2\<close>: barriers for threads (OpenMP) and for processes (MPI).
  \<^item> \<^verbatim>\<open>project3\<close>: a store that answers product queries by asking vendors over gRPC, with a thread pool.
  \<^item> \<^verbatim>\<open>project4\<close>: MapReduce: a master that shards input files and hands jobs to workers over gRPC.

  \<^bold>\<open>Conventions.\<close> A C or C++ function is a HOL function with the name it has in the source. Code that may
  stop the program returns \<open>c_fault + 'a\<close> (theory \<open>AOS_Prelude\<close>): exits, failed assertions, uncaught
  exceptions and undefined behaviour (array bounds, signed overflow, dangling pointers) are values, so a theorem
  that a function returns \<open>Inr\<close> also says that none of them happens. A loop is a recursive function or
  \<open>foldm\<close> over its indices. Concurrent code is a step relation on an explicit state; a step is a region that a mutex
  protects or one access to shared memory. Libraries that are not in the repository are parameters
  with a predicate for the laws the code relies on (\<open>mpi_ok\<close>, \<open>net_ok\<close>, and the arguments of the
  scheduler theories); every such predicate has an instance that the witnesses use.

  \<^bold>\<open>Producer and consumer\<close> (\<^verbatim>\<open>prelab/producer_consumer.c\<close>). \<open>LinkedQueue\<close> models the heap of list nodes
  and shows that the pointer code implements the locale \<open>fifo_queue\<close>. \<open>ProducerConsumer\<close> holds the threads as
  a step relation with mutex and condition variables and its invariant. An allocation may fail, and the producers
  use their node and the consumers their counter unchecked. \<open>ProducerConsumerProgress\<close> shows that
  no step faults otherwise, that critical sections exclude each other, that the queue holds consecutive letters, that a run
  can always be completed and that a complete run prints every letter exactly once.

  \<^bold>\<open>Hypervisor managers.\<close> \<open>MemoryCoordinator\<close> (\<^verbatim>\<open>memory_coordinator.c\<close>) keeps memory sizes as 64-bit
  words. An abstract plan, stated in megabytes on the reported sizes alone, says which machine is served, which gives and
  which receives memory and the size every call requests; the scheduler refines it and keeps
  the reserve of the host and of every machine. \<open>VcpuScheduler\<close>
  (\<^verbatim>\<open>vcpu_scheduler.c\<close>) covers the measurement, the balance check and both assignment strategies; the machines are pinned in the
  order of the usages that were measured.

  \<^bold>\<open>Barriers.\<close> \<open>BarrierSpec\<close> is the contract: no thread leaves an episode before every thread has entered it.
  \<open>SenseBarrier\<close> (\<^verbatim>\<open>omp/gtmp1.c\<close>), \<open>McsBarrier\<close> (\<^verbatim>\<open>omp/gtmp2.c\<close>, on the tree of \<open>TreeBarrier\<close>),
  \<open>DisseminationBarrier\<close> (\<^verbatim>\<open>mpi/gtmpi1.c\<close>) and \<open>MpiTreeBarrier\<close> (\<^verbatim>\<open>mpi/gtmpi2.c\<close>), on \<open>MpiModel\<close>
  for the latter two, satisfy it for every number of threads and of episodes, and every reachable state can be
  completed. \<open>CombinedBarrier\<close> (\<^verbatim>\<open>combined/combined.c\<close>, threads of several processes) satisfies it too, by
  a simulation with \<open>SenseBarrier\<close> and \<open>DisseminationBarrier\<close>.

  \<^bold>\<open>Store.\<close> \<open>StoreServer\<close> models \<^verbatim>\<open>vendor_client.cc\<close>, \<^verbatim>\<open>threadpool.h\<close> and \<^verbatim>\<open>store.cc\<close>: the \<open>CallData\<close> objects by
  address, the completion queue, the queue of the pool and its threads. Steps of the environment let calls
  arrive. The store never touches a deleted object, and has exactly one object for the next call; the only
  fault is the failed assertion of \<open>HandleRpcs\<close> when an event is not ok, because the client of an answered query is gone or the server
  shuts down. Until then it can answer every accepted query exactly once with the bids \<open>getProductBid\<close> collects, given the
  behaviour of the network as an argument: the calls of one query share a status and a reply, which is part of that argument.

  \<^bold>\<open>MapReduce.\<close> \<open>CppStrings\<close> has the string and stream functions of the C++ library. \<open>MapReduceSpec\<close>
  (\<^verbatim>\<open>mapreduce_spec.h\<close>) reads and validates the configuration, with a round trip over files whose lists end with or without a comma
  and whose last line ends with or without a newline. \<open>FileShard\<close> (\<^verbatim>\<open>file_shard.h\<close>)
  cuts the input into shards; the loop is a partial function that is proved to return, and no line is lost, cut
  or duplicated, every piece in its own file. \<open>MrTasks\<close> (\<^verbatim>\<open>mr_tasks.cc\<close>, \<^verbatim>\<open>mr_task_factory.cc\<close>) has the buffered emission, equivalent to
  writing every pair at once, and the registry. \<open>WorkerRequest\<close> (\<^verbatim>\<open>worker_request.cc\<close>) runs map and reduce
  jobs; \<open>UserTasks\<close> (\<^verbatim>\<open>test/user_tasks.cc\<close>) is word count. \<open>MapReduceRun\<close> composes them with the queries of
  \<^verbatim>\<open>worker_client.cc\<close> and the grouping of \<^verbatim>\<open>master.cc\<close>: every key is reduced exactly once with all of
  its values, whatever workers map the shards in whatever order, and word count counts words. It follows the data of a run in
  which no worker fails. The processes are modelled on their own and then composed:

  \<^item> \<open>Master\<close> has the state of \<^verbatim>\<open>Master\<close> and one definition for every piece of \<^verbatim>\<open>master.cc\<close> that no other thread
    interrupts, with the invariants \<open>clients_ok\<close>, \<open>counters_ok\<close> and \<open>names_ok\<close>. \<open>MasterRun\<close> interleaves
    \<open>run\<close>, \<open>poll_workers\<close> and reports of failed workers: when the map phase is complete, when it can hang, and what
    is lost, repeated or crashes when workers fail. \<open>MasterThreads\<close> adds the code of \<open>monitor\<close>, with its pings, the flags and the directory;
    it refines \<open>MasterRun\<close> (locale \<open>simulation\<close>), so what holds there holds of all three threads.
  \<^item> \<open>MapReduceSystem\<close> puts the threads of \<open>MasterRun\<close> and the jobs of \<open>WorkerRequest\<close> on one disk: calls are executed and
    answered at any time and in any order. While no worker fails, the invariant \<open>sys_inv\<close> relates every state to a sequence of jobs of
    \<open>MapReduceRun\<close>, so nothing faults, and when \<open>run\<close> returns the output files hold the word counts. \<open>MapReduceProgress\<close> shows with a rank
    that it can return from every state in which the main thread has not missed its notification, and from the others it never does.
  \<^item> \<open>WorkerServer\<close> (\<^verbatim>\<open>worker.cc\<close>, \<^verbatim>\<open>worker_request.cc\<close>, \<^verbatim>\<open>worker_request.h\<close>) has the request objects by address, the
    two event loops and their completion queues: no deleted object is used, and every call that has arrived can be answered when its job,
    on the disk the jobs before it leave, does not fault.
  \<^item> \<open>MapReduceMain\<close> (\<^verbatim>\<open>mapreduce_impl.cc\<close>) runs the master on validated input only, and a job of word count that succeeds has counted the words.

  \<^bold>\<open>Bounds.\<close> No model uses fuel. Hypotheses on sizes are those of the code's types: \<open>int\<close> for shard sizes, counters
  and the length of an input file, 64 bits for memory sizes.

  \<^bold>\<open>Not modelled.\<close> Start-up of gRPC servers and channels, console output, command lines of the test harnesses, test
  programs, examples and scripts; generated protocol code. In the master, data races between the threads beyond the order of the
  locked regions: reads and writes outside a lock, such as the test of \<open>worker_ips\<close> in \<open>poll_workers\<close>, happen at one point of
  the interleaving; a client that is erased between its look-up and its use is modelled, as the fault \<open>BadPointer\<close>. The test of
  \<open>map_complete\<close> in \<open>handle_worker_failure\<close> (outside its lock) is part of the locked region behind it. Waits on condition variables are
  guards: the wake-up of the main thread that \<open>poll_workers\<close> can lose when it resets \<open>map_reduce_flag\<close> without a notification, after a
  round in which a worker failed, is not modelled. The lengths of deadlines and waits: a call may end with or without an error at any time.
  In \<open>MapReduceSystem\<close> a job is one step: the workers have different ports and so write different files.
\<close>

text \<open>
  The jobs of \<open>MapReduceSystem\<close> are those of \<open>WorkerServer\<close>, where every answer of a worker is the result of its job
  (\<open>worker_safe\<close>).
\<close>

lemma execute_call_is_worker_job:
  assumes "w_hash env = hash" and "w_factory env = factory" and "port_num ip = Inr port"
  shows "run_job env port (MapQ q) fs = Inr (MapResult names, fs') \<longleftrightarrow> execute_call hash factory (MapRpc ip q) fs = Inr (names, fs')"
    and "run_job env port (ReduceQ r) fs = Inr (ReduceResult f, fs') \<longleftrightarrow> execute_call hash factory (ReduceRpc ip r) fs = Inr ([f], fs')"
  using assms by (auto simp: execute_call_def bnd_eq_Inr)

end
